(* ===== verification/Prelude.thy ===== *)
theory Prelude
  imports Main "HOL-Library.Word" "HOL-Library.Char_ord"
begin

text \<open>
  What every component of the model shares: the machine integer types, the result type of
  C++ code that can throw or run into undefined behaviour, the few \<open>std::string\<close> operations
  the sources call, decimal conversion, and the generic lemmas about them.

  A \<open>std::string\<close> is a \<open>string\<close>, that is a list of 8-bit characters; \<open>char\<close>
  comparisons are those of \<open>Char_ord\<close>, on the unsigned code. The sources only compare a
  character with ASCII bounds from both sides, where the signedness of C++'s \<open>char\<close> makes no
  difference.
\<close>

unbundle bit_operations_syntax

type_synonym byte = "8 word"
type_synonym u32 = "32 word"
type_synonym u64 = "64 word"

named_theorems cxx_simps
  \<open>how the result type of throwing code computes\<close>
named_theorems str_simps
  \<open>what the string operations return on strings of a known shape\<close>

named_theorems eval_simps
  \<open>definitions and numeral equations that evaluate closed instances\<close>

section \<open>Results of code that can throw\<close>

text \<open>
  A C++ exception is an \<open>Inl\<close>. \<open>Undefined_behaviour\<close> marks the inputs on which the C++
  standard gives the code no meaning (an index out of range, a division by zero): the model
  never continues past one.
\<close>

datatype cxx_error = Runtime_error string | Undefined_behaviour

type_synonym 'a cxx = "cxx_error + 'a"

definition bind_cxx :: "'a cxx \<Rightarrow> ('a \<Rightarrow> 'b cxx) \<Rightarrow> 'b cxx" where
  "bind_cxx m f = (case m of Inl e \<Rightarrow> Inl e | Inr a \<Rightarrow> f a)"

lemma bind_cxx_simps [simp, cxx_simps]:
  "bind_cxx (Inl e) f = Inl e"
  "bind_cxx (Inr a) f = f a"
  by (simp_all add: bind_cxx_def)

lemma bind_cxx_eq_Inr [cxx_simps]:
  "bind_cxx m f = Inr b \<longleftrightarrow> (\<exists>a. m = Inr a \<and> f a = Inr b)"
  by (cases m) auto

section \<open>Strings\<close>

text \<open>\<open>index_of\<close> is \<open>find\<close> from the start; \<open>None\<close> is \<open>std::string::npos\<close>.\<close>

fun index_of :: "'a \<Rightarrow> 'a list \<Rightarrow> nat option" where
  "index_of x [] = None"
| "index_of x (y # ys) = (if x = y then Some 0 else map_option Suc (index_of x ys))"

definition str_find :: "string \<Rightarrow> char \<Rightarrow> nat \<Rightarrow> nat option" where
  "str_find s c pos = map_option (\<lambda>i. pos + i) (index_of c (drop pos s))"

lemma index_of_None_iff [str_simps]: "index_of x ys = None \<longleftrightarrow> x \<notin> set ys"
  by (induction ys) auto

lemma index_of_append [str_simps]:
  "x \<notin> set as \<Longrightarrow> index_of x (as @ x # bs) = Some (length as)"
  by (induction as) auto

lemma index_of_SomeD:
  "index_of x ys = Some i \<Longrightarrow> i < length ys \<and> ys ! i = x \<and> x \<notin> set (take i ys)"
  by (induction ys arbitrary: i) (auto split: if_splits)

lemma index_of_split:
  assumes "index_of x ys = Some i"
  shows "ys = take i ys @ x # drop (Suc i) ys"
  using index_of_SomeD [OF assms] by (metis id_take_nth_drop)

lemma index_of_take:
  "index_of x (take n ys) =
     (case index_of x ys of None \<Rightarrow> None | Some i \<Rightarrow> if i < n then Some i else None)"
proof (induction ys arbitrary: n)
  case Nil
  then show ?case by simp
next
  case (Cons y ys)
  then show ?case by (cases n) (auto split: option.splits)
qed

lemma str_find_append [str_simps]:
  "c \<notin> set as \<Longrightarrow> str_find (pre @ as @ c # bs) c (length pre) = Some (length pre + length as)"
  by (simp add: str_find_def str_simps)

text \<open>
  A \<open>std::string\<close> handed to a C interface as \<open>c_str()\<close>, or built from a \<open>char *\<close>, ends at
  the first NUL.
\<close>

definition c_str :: "string \<Rightarrow> string" where
  "c_str s = takeWhile (\<lambda>c. c \<noteq> CHR 0x00) s"

lemma c_str_id [str_simps]: "CHR 0x00 \<notin> set s \<Longrightarrow> c_str s = s"
  by (auto simp: c_str_def takeWhile_eq_all_conv)

lemma c_str_idem [simp]: "c_str (c_str s) = c_str s"
  by (simp add: c_str_def)

fun split_on :: "'a \<Rightarrow> 'a list \<Rightarrow> 'a list list" where
  "split_on c [] = [[]]"
| "split_on c (x # xs) =
     (if x = c then [] # split_on c xs
      else (case split_on c xs of [] \<Rightarrow> [[x]] | w # ws \<Rightarrow> (x # w) # ws))"

lemma split_on_no_sep [str_simps]: "c \<notin> set a \<Longrightarrow> split_on c a = [a]"
  by (induction a) auto

lemma split_on_append [str_simps]:
  "c \<notin> set a \<Longrightarrow> split_on c (a @ c # b) = a # split_on c b"
  by (induction a) auto

fun join_with :: "'a \<Rightarrow> 'a list list \<Rightarrow> 'a list" where
  "join_with c [] = []"
| "join_with c [w] = w"
| "join_with c (w # ws) = w @ c # join_with c ws"

lemma split_on_not_Nil [simp]: "split_on c s \<noteq> []"
  by (induction s) (auto split: list.splits)

lemma join_split_on: "join_with c (split_on c s) = s"
proof (induction s)
  case Nil
  then show ?case by simp
next
  case (Cons x s)
  obtain w ws where "split_on c s = w # ws" by (meson list.exhaust split_on_not_Nil)
  with Cons show ?case by (cases ws) auto
qed

lemma take_short: "take n xs = ys \<Longrightarrow> length ys < n \<Longrightarrow> xs = ys"
  by (auto simp: min_def split: if_splits)

lemma split_on_no_sep_in: "w \<in> set (split_on c s) \<Longrightarrow> c \<notin> set w"
  by (induction s arbitrary: w) (auto split: if_splits list.splits)

lemma length_filter_update:
  "k < length xs \<Longrightarrow>
   length (filter Q (xs[k := y])) + (if Q (xs ! k) then 1 else 0) = length (filter Q xs) + (if Q y then 1 else 0)"
proof (induction xs arbitrary: k)
  case Nil
  then show ?case by simp
next
  case (Cons x xs)
  then show ?case by (cases k) auto
qed

lemma list_all_update: "list_all Q xs \<Longrightarrow> Q y \<Longrightarrow> list_all Q (xs[i := y])"
  by (auto simp: list_all_iff dest: set_update_subset_insert [THEN subsetD])

text \<open>The line feed and the double quote, which a string literal cannot hold.\<close>

abbreviation nl :: char where "nl \<equiv> CHR 0x0A"
abbreviation dquote :: char where "dquote \<equiv> CHR 0x22"

section \<open>Bytes\<close>

definition byte_of_char :: "char \<Rightarrow> byte" where
  "byte_of_char c = of_char c"

definition bytes_of :: "string \<Rightarrow> byte list" where
  "bytes_of s = map byte_of_char s"

lemma length_bytes_of [simp]: "length (bytes_of s) = length s"
  by (simp add: bytes_of_def)

section \<open>Decimal numbers\<close>

definition is_digit :: "char \<Rightarrow> bool" where
  "is_digit c \<longleftrightarrow> CHR ''0'' \<le> c \<and> c \<le> CHR ''9''"

definition digit_char :: "nat \<Rightarrow> char" where
  "digit_char d = char_of (48 + d)"

definition digit_value :: "char \<Rightarrow> nat" where
  "digit_value c = of_char c - 48"

text \<open>\<open>std::to_string\<close> and \<open>operator<<\<close> on an unsigned integer.\<close>

fun nat_to_string :: "nat \<Rightarrow> string" where
  "nat_to_string n =
     (if n < 10 then [digit_char n]
      else nat_to_string (n div 10) @ [digit_char (n mod 10)])"

declare nat_to_string.simps [simp del, eval_simps]

definition dec_value :: "string \<Rightarrow> nat" where
  "dec_value s = foldl (\<lambda>a c. 10 * a + digit_value c) 0 s"

text \<open>
  The part of a string that the C conversions of the \<open>strtol\<close> family read: white space, one
  sign, and as many digits of the base as follow; the rest is ignored.
\<close>

definition is_space :: "char \<Rightarrow> bool" where
  "is_space c \<longleftrightarrow> c = CHR '' '' \<or> CHR 0x09 \<le> c \<and> c \<le> CHR 0x0D"

definition number_prefix :: "(char \<Rightarrow> bool) \<Rightarrow> string \<Rightarrow> bool \<times> string" where
  "number_prefix digit s =
     (case dropWhile is_space s of
        [] \<Rightarrow> (False, [])
      | c # cs \<Rightarrow>
          if c = CHR ''-'' then (True, takeWhile digit cs)
          else if c = CHR ''+'' then (False, takeWhile digit cs)
          else (False, takeWhile digit (c # cs)))"

lemma of_char_char_of_small [simp]: "n < 256 \<Longrightarrow> of_char (char_of (n :: nat)) = n"
  by (simp add: take_bit_eq_mod)

lemma digit_char_numerals [eval_simps]:
  "digit_char 0 = CHR ''0''" "digit_char (Suc 0) = CHR ''1''" "digit_char 1 = CHR ''1''"
  "digit_char 2 = CHR ''2''" "digit_char 3 = CHR ''3''" "digit_char 4 = CHR ''4''"
  "digit_char 5 = CHR ''5''" "digit_char 6 = CHR ''6''" "digit_char 7 = CHR ''7''"
  "digit_char 8 = CHR ''8''" "digit_char 9 = CHR ''9''"
  by (code_simp+)

lemma replicate_numeral [eval_simps]:
  "replicate (numeral k) x = x # replicate (pred_numeral k) x"
  by (simp add: numeral_eq_Suc)

lemma digit_value_digit_char [simp]: "d < 10 \<Longrightarrow> digit_value (digit_char d) = d"
  by (simp add: digit_value_def digit_char_def)

lemma is_digit_iff: "is_digit c \<longleftrightarrow> 48 \<le> (of_char c :: nat) \<and> (of_char c :: nat) \<le> 57"
  by (simp add: is_digit_def less_eq_char_def)

lemma is_digit_special: "is_digit c \<Longrightarrow> c \<noteq> CHR 0x00 \<and> c \<noteq> nl \<and> c \<noteq> CHR '' ''"
  by (auto simp: is_digit_def)

lemma is_digit_digit_char [simp]: "d < 10 \<Longrightarrow> is_digit (digit_char d)"
  by (simp add: is_digit_iff digit_char_def)

lemma digit_value_less: "is_digit c \<Longrightarrow> digit_value c < 10"
  by (auto simp: is_digit_iff digit_value_def)

lemma digit_char_digit_value: "is_digit c \<Longrightarrow> digit_char (digit_value c) = c"
  by (simp add: is_digit_iff digit_value_def digit_char_def)

lemma dec_value_Nil [simp]: "dec_value [] = 0"
  by (simp add: dec_value_def)

lemma dec_value_snoc [simp]: "dec_value (s @ [c]) = 10 * dec_value s + digit_value c"
  by (simp add: dec_value_def)

lemma dec_value_nat_to_string [simp]: "dec_value (nat_to_string n) = n"
proof (induction n rule: nat_to_string.induct)
  case (1 n)
  show ?case
  proof (cases "n < 10")
    case True
    then show ?thesis
      using dec_value_snoc [of "[]" "digit_char n"] by (simp add: nat_to_string.simps [of n])
  next
    case False
    with 1 show ?thesis by (simp add: nat_to_string.simps [of n])
  qed
qed

lemma nat_to_string_digits: "c \<in> set (nat_to_string n) \<Longrightarrow> is_digit c"
proof (induction n rule: nat_to_string.induct)
  case (1 n)
  then show ?case by (auto simp: nat_to_string.simps [of n] split: if_splits)
qed

lemma length_nat_to_string_le: "0 < k \<Longrightarrow> n < 10 ^ k \<Longrightarrow> length (nat_to_string n) \<le> k"
proof (induction k arbitrary: n)
  case 0
  then show ?case by simp
next
  case (Suc k)
  show ?case
  proof (cases "n < 10")
    case True
    then show ?thesis by (simp add: nat_to_string.simps [of n])
  next
    case False
    with Suc.prems have "n div 10 < 10 ^ k" and "0 < k"
      by (auto simp: less_mult_imp_div_less mult.commute intro: gr0I)
    then have "length (nat_to_string (n div 10)) \<le> k" by (intro Suc.IH)
    with False show ?thesis by (simp add: nat_to_string.simps [of n])
  qed
qed

lemma dec_value_less: "\<forall>c \<in> set s. is_digit c \<Longrightarrow> dec_value s < 10 ^ length s"
proof (induction s rule: rev_induct)
  case Nil
  then show ?case by simp
next
  case (snoc c s)
  then have "dec_value s < 10 ^ length s" and "digit_value c < 10"
    by (auto simp: digit_value_less)
  then show ?case by simp
qed

lemma dec_value_inj:
  assumes "length s = length t" "\<forall>c \<in> set s. is_digit c" "\<forall>c \<in> set t. is_digit c"
    and "dec_value s = dec_value t"
  shows "s = t"
  using assms
proof (induction s arbitrary: t rule: rev_induct)
  case Nil
  then show ?case by simp
next
  case (snoc c s)
  then obtain d u where t: "t = u @ [d]" by (cases t rule: rev_cases) auto
  from snoc.prems have eq: "10 * dec_value s + digit_value c = 10 * dec_value u + digit_value d"
    by (simp add: t)
  from snoc.prems have "is_digit c" and "is_digit d" by (simp_all add: t)
  then have "digit_value c < 10" and "digit_value d < 10" by (simp_all add: digit_value_less)
  with eq have "digit_value c = digit_value d" and "dec_value s = dec_value u" by arith+
  moreover from this snoc.prems have "s = u" by (intro snoc.IH) (simp_all add: t)
  ultimately show ?case
    using \<open>is_digit c\<close> \<open>is_digit d\<close> by (metis t digit_char_digit_value)
qed

text \<open>A quotient by a positive step says in which step's interval the number lies.\<close>

lemma div_eq_window:
  "0 < k \<Longrightarrow> n div k = c \<longleftrightarrow> k * c \<le> n \<and> n < k * (c + 1)" for k n c :: nat
  by (metis Suc_eq_plus1 dividend_less_times_div div_nat_eqI mult_Suc_right
      times_div_less_eq_dividend)

lemma dec_value_zeros [simp]: "dec_value (replicate k (CHR ''0'') @ s) = dec_value s"
proof -
  have "foldl (\<lambda>a c. 10 * a + digit_value c) 0 (replicate k (CHR ''0'')) = 0"
    by (induction k) (simp_all add: digit_value_def)
  then show ?thesis by (simp add: dec_value_def)
qed

section \<open>Transition systems\<close>

text \<open>
  The states a system can reach from a start state by its step relation. The locale is the
  interface of every invariant proof: what a component shows of one step holds of every
  reachable state.
\<close>

inductive reachable :: "('s \<Rightarrow> bool) \<Rightarrow> ('s \<Rightarrow> 's \<Rightarrow> bool) \<Rightarrow> 's \<Rightarrow> bool"
  for init :: "'s \<Rightarrow> bool" and step :: "'s \<Rightarrow> 's \<Rightarrow> bool" where
  reach_init: "init s \<Longrightarrow> reachable init step s"
| reach_step: "reachable init step s \<Longrightarrow> step s t \<Longrightarrow> reachable init step t"

lemma reachable_star: "step\<^sup>*\<^sup>* s t \<Longrightarrow> reachable init step s \<Longrightarrow> reachable init step t"
  by (induction rule: rtranclp_induct) (auto intro: reach_step)

text \<open>The states of one run, in order: what has been so before is in one of them.\<close>

inductive states_run :: "('s \<Rightarrow> bool) \<Rightarrow> ('s \<Rightarrow> 's \<Rightarrow> bool) \<Rightarrow> 's list \<Rightarrow> bool"
  for init :: "'s \<Rightarrow> bool" and step :: "'s \<Rightarrow> 's \<Rightarrow> bool" where
  run_init: "init s \<Longrightarrow> states_run init step [s]"
| run_step: "states_run init step ss \<Longrightarrow> step (last ss) t \<Longrightarrow> states_run init step (ss @ [t])"

lemma states_run_reachable: "states_run init step ss \<Longrightarrow> ss \<noteq> [] \<and> reachable init step (last ss)"
  by (induction rule: states_run.induct) (auto intro: reachable.intros)

lemma reachable_states_run: "reachable init step s \<Longrightarrow> \<exists>ss. states_run init step ss \<and> last ss = s"
proof (induction rule: reachable.induct)
  case (reach_init s)
  then have "states_run init step [s]" by (rule run_init)
  then show ?case by (intro exI [of _ "[s]"]) simp
next
  case (reach_step s t)
  then obtain ss where "states_run init step ss" "last ss = s" by blast
  with reach_step(2) have "states_run init step (ss @ [t])" by (simp add: run_step)
  then show ?case by (intro exI [of _ "ss @ [t]"]) simp
qed

lemma reachable_while:
  "reachable init step s \<Longrightarrow> (\<lambda>u v. step u v \<and> Q u)\<^sup>*\<^sup>* s t \<Longrightarrow> reachable init step t"
  by (rule reachable_star, rule rtranclp_mono [THEN predicate2D]) auto

locale invariant_system =
  fixes init :: "'s \<Rightarrow> bool" and step :: "'s \<Rightarrow> 's \<Rightarrow> bool" and inv :: "'s \<Rightarrow> bool"
  assumes init_inv: "init s \<Longrightarrow> inv s"
    and step_inv: "inv s \<Longrightarrow> step s t \<Longrightarrow> inv t"
begin

lemma reachable_inv: "reachable init step s \<Longrightarrow> inv s"
  by (induction rule: reachable.induct) (auto intro: init_inv step_inv)

lemma star_inv: "step\<^sup>*\<^sup>* s t \<Longrightarrow> inv s \<Longrightarrow> inv t"
  by (induction rule: rtranclp_induct) (auto intro: step_inv)

end

end
