(* ===== verification/Keystore.thy ===== *)
theory Keystore
  imports Prelude "HOL-Library.List_Lexorder" "HOL-Library.Sublist"
begin

text \<open>
  Keystore access, \<open>core/keystore.cpp\<close> and \<open>core/keystore.hpp\<close>: device identifiers, the
  lookup, the three writers, the listing and the migration.

  SQLite, the environment and the compile-time default path are a parameter, the record
  \<open>platform\<close>. Its database state \<open>'db\<close> holds the file and whatever decides which call
  fails; every call returns the next state, so failures may come and go between two calls. The
  SQL texts are the sources' own. The locale \<open>sqlite_keystore\<close> states what the code relies on:
  what these statements do to the table \<open>db/schema.sql\<close> declares. The locale
  \<open>device_store\<close> is the contract the daemons and the provisioning tool build on, and the
  sublocale declaration below proves that the code meets it.
\<close>

section \<open>Devices and identifiers\<close>

record device =
  dev_id :: string
  dev_key :: string
  dev_status :: int
  dev_note :: string
  dev_created :: string

text \<open>The member initialisers of \<open>struct Device\<close>: revoked unless somebody filled it in.\<close>

definition device_default :: device where
  "device_default =
     \<lparr>dev_id = '''', dev_key = '''', dev_status = 0, dev_note = ''OK'', dev_created = ''''\<rparr>"

definition DEVICE_ID_MIN :: nat where "DEVICE_ID_MIN = 4"
definition DEVICE_ID_MAX :: nat where "DEVICE_ID_MAX = 8"

definition crockford_char :: "char \<Rightarrow> bool" where
  "crockford_char c =
     (if CHR ''0'' \<le> c \<and> c \<le> CHR ''9'' then True
      else if c < CHR ''A'' \<or> CHR ''Z'' < c then False
      else c \<noteq> CHR ''I'' \<and> c \<noteq> CHR ''L'' \<and> c \<noteq> CHR ''O'' \<and> c \<noteq> CHR ''U'')"

definition valid_device_id :: "string \<Rightarrow> bool" where
  "valid_device_id ident =
     (if length ident < DEVICE_ID_MIN \<or> DEVICE_ID_MAX < length ident then False
      else list_all crockford_char ident)"

datatype lookup = Found | NotFound | Error

section \<open>The platform\<close>

datatype open_flag = SQLITE_OPEN_READONLY | SQLITE_OPEN_READWRITE

datatype sql_bind = Bind_text string | Bind_int int

text \<open>A result column, as \<open>sqlite3_column_text\<close> and \<open>sqlite3_column_int\<close> read it.\<close>

record sql_column =
  as_text :: "string option"
  as_int :: int

text \<open>
  Running a bound statement: the rows it yields, whether it then ends with \<open>SQLITE_DONE\<close>, and
  what \<open>sqlite3_changes\<close> says afterwards.
\<close>

record stmt_run =
  run_rows :: "sql_column list list"
  run_done :: bool
  run_changes :: nat

datatype step_result = SQLITE_ROW "sql_column list" | SQLITE_DONE | SQLITE_FAIL

record 'db platform =
  getenv :: "string \<Rightarrow> string option"
  xauth_db_default :: string
  sqlite3_open :: "string \<Rightarrow> open_flag \<Rightarrow> 'db \<Rightarrow> bool \<times> 'db"
  sqlite3_prepare :: "string \<Rightarrow> 'db \<Rightarrow> bool \<times> 'db"
  sqlite3_run :: "string \<Rightarrow> sql_bind list \<Rightarrow> 'db \<Rightarrow> stmt_run \<times> 'db"
  sqlite3_exec :: "string \<Rightarrow> 'db \<Rightarrow> bool \<times> 'db"

definition first_step :: "stmt_run \<Rightarrow> step_result" where
  "first_step r =
     (case run_rows r of
        row # _ \<Rightarrow> SQLITE_ROW row
      | [] \<Rightarrow> if run_done r then SQLITE_DONE else SQLITE_FAIL)"

definition sqlite3_column_text :: "sql_column list \<Rightarrow> nat \<Rightarrow> string option" where
  "sqlite3_column_text row col =
     (if col < length row then map_option c_str (as_text (row ! col)) else None)"

definition sqlite3_column_int :: "sql_column list \<Rightarrow> nat \<Rightarrow> int" where
  "sqlite3_column_int row col = (if col < length row then as_int (row ! col) else 0)"

section \<open>The code\<close>

definition db_path :: "'db platform \<Rightarrow> string" where
  "db_path P =
     (case getenv P ''XAUTH_DB'' of
        Some env \<Rightarrow> if env \<noteq> [] then env else xauth_db_default P
      | None \<Rightarrow> xauth_db_default P)"

definition open_db :: "'db platform \<Rightarrow> open_flag \<Rightarrow> 'db \<Rightarrow> bool \<times> 'db" where
  "open_db P flags db = sqlite3_open P (db_path P) flags db"

definition column_text :: "sql_column list \<Rightarrow> nat \<Rightarrow> string" where
  "column_text row col =
     (case sqlite3_column_text row col of Some v \<Rightarrow> v | None \<Rightarrow> '''')"

text \<open>\<open>update_one\<close>: \<open>text_value\<close> is the pointer of the source, \<open>None\<close> the null pointer.\<close>

definition update_one ::
    "'db platform \<Rightarrow> string \<Rightarrow> string \<Rightarrow> string option \<Rightarrow> int \<Rightarrow> 'db \<Rightarrow> lookup \<times> 'db" where
  "update_one P sql ident text_value int_value db =
     (if \<not> valid_device_id ident then (NotFound, db)
      else case open_db P SQLITE_OPEN_READWRITE db of
        (False, db1) \<Rightarrow> (Error, db1)
      | (True, db1) \<Rightarrow>
        (case sqlite3_prepare P sql db1 of
           (False, db2) \<Rightarrow> (Error, db2)
         | (True, db2) \<Rightarrow>
           let value = (case text_value of
                          Some t \<Rightarrow> Bind_text (c_str t)
                        | None \<Rightarrow> Bind_int int_value);
               (r, db3) = sqlite3_run P sql [value, Bind_text (c_str ident)] db2
           in if first_step r = SQLITE_DONE
              then (if 0 < run_changes r then Found else NotFound, db3)
              else (Error, db3)))"

definition sql_find :: string where
  "sql_find = ''SELECT Key, Status, Note FROM secure_key_data WHERE ID = ?''"

text \<open>The out parameter \<open>out\<close> is passed in and returned; it changes only on \<open>Found\<close>.\<close>

definition find_device ::
    "'db platform \<Rightarrow> string \<Rightarrow> device \<Rightarrow> 'db \<Rightarrow> lookup \<times> device \<times> 'db" where
  "find_device P ident out db =
     (if \<not> valid_device_id ident then (NotFound, out, db)
      else case open_db P SQLITE_OPEN_READONLY db of
        (False, db1) \<Rightarrow> (Error, out, db1)
      | (True, db1) \<Rightarrow>
        (case sqlite3_prepare P sql_find db1 of
           (False, db2) \<Rightarrow> (Error, out, db2)
         | (True, db2) \<Rightarrow>
           let (r, db3) = sqlite3_run P sql_find [Bind_text (c_str ident)] db2
           in (case first_step r of
                SQLITE_ROW row \<Rightarrow>
                  (case sqlite3_column_text row 0 of
                     Some key \<Rightarrow>
                       (Found,
                        out\<lparr>dev_id := ident, dev_key := key,
                            dev_status := sqlite3_column_int row 1,
                            dev_note := column_text row 2\<rparr>,
                        db3)
                   | None \<Rightarrow> (NotFound, out, db3))
              | SQLITE_DONE \<Rightarrow> (NotFound, out, db3)
              | SQLITE_FAIL \<Rightarrow> (Error, out, db3))))"

definition sql_table_info :: string where
  "sql_table_info = ''PRAGMA table_info(secure_key_data)''"

definition sql_add_created :: string where
  "sql_add_created = ''ALTER TABLE secure_key_data ADD COLUMN Created TEXT''"

definition migrate_keystore :: "'db platform \<Rightarrow> 'db \<Rightarrow> bool \<times> 'db" where
  "migrate_keystore P db =
     (case open_db P SQLITE_OPEN_READWRITE db of
        (False, db1) \<Rightarrow> (False, db1)
      | (True, db1) \<Rightarrow>
        (case sqlite3_prepare P sql_table_info db1 of
           (False, db2) \<Rightarrow> (False, db2)
         | (True, db2) \<Rightarrow>
           let (r, db3) = sqlite3_run P sql_table_info [] db2;
               has_created = list_ex (\<lambda>row. column_text row 1 = ''Created'') (run_rows r)
           in if \<not> has_created then sqlite3_exec P sql_add_created db3 else (True, db3)))"

definition sql_insert :: string where
  "sql_insert =
     ''INSERT INTO secure_key_data (ID, Key, Status, Note, Created) '' @
     ''VALUES (?, ?, ?, ?, datetime('' @ [CHR 0x27] @ ''now'' @ [CHR 0x27] @ ''))''"

definition add_device :: "'db platform \<Rightarrow> device \<Rightarrow> 'db \<Rightarrow> bool \<times> 'db" where
  "add_device P d db =
     (if \<not> valid_device_id (dev_id d) then (False, db)
      else case open_db P SQLITE_OPEN_READWRITE db of
        (False, db1) \<Rightarrow> (False, db1)
      | (True, db1) \<Rightarrow>
        (case sqlite3_prepare P sql_insert db1 of
           (False, db2) \<Rightarrow> (False, db2)
         | (True, db2) \<Rightarrow>
           let (r, db3) = sqlite3_run P sql_insert
                 [Bind_text (c_str (dev_id d)), Bind_text (c_str (dev_key d)),
                  Bind_int (dev_status d), Bind_text (c_str (dev_note d))] db2
           in (first_step r = SQLITE_DONE, db3)))"

definition sql_set_status :: string where
  "sql_set_status = ''UPDATE secure_key_data SET Status = ? WHERE ID = ?''"

definition set_device_status :: "'db platform \<Rightarrow> string \<Rightarrow> int \<Rightarrow> 'db \<Rightarrow> lookup \<times> 'db" where
  "set_device_status P ident status db = update_one P sql_set_status ident None status db"

definition sql_set_note :: string where
  "sql_set_note = ''UPDATE secure_key_data SET Note = ? WHERE ID = ?''"

definition set_device_note :: "'db platform \<Rightarrow> string \<Rightarrow> string \<Rightarrow> 'db \<Rightarrow> lookup \<times> 'db" where
  "set_device_note P ident note db = update_one P sql_set_note ident (Some note) 0 db"

definition sql_list :: string where
  "sql_list =
     ''SELECT ID, Status, Note, COALESCE(Created, '' @ [CHR 0x27, CHR 0x27] @
     '') FROM secure_key_data ORDER BY ID''"

definition listed_device :: "sql_column list \<Rightarrow> device" where
  "listed_device row =
     device_default\<lparr>dev_id := column_text row 0, dev_status := sqlite3_column_int row 1,
                    dev_note := column_text row 2, dev_created := column_text row 3\<rparr>"

definition list_devices ::
    "'db platform \<Rightarrow> device list \<Rightarrow> 'db \<Rightarrow> bool \<times> device list \<times> 'db" where
  "list_devices P out db =
     (case open_db P SQLITE_OPEN_READONLY db of
        (False, db1) \<Rightarrow> (False, out, db1)
      | (True, db1) \<Rightarrow>
        (case sqlite3_prepare P sql_list db1 of
           (False, db2) \<Rightarrow> (False, out, db2)
         | (True, db2) \<Rightarrow>
           let (r, db3) = sqlite3_run P sql_list [] db2
           in (run_done r, out @ map listed_device (run_rows r), db3)))"

section \<open>Identifiers\<close>

lemma crockford_char_not_special:
  "crockford_char c \<Longrightarrow> c \<noteq> CHR 0x00 \<and> c \<noteq> nl \<and> c \<noteq> CHR '' '' \<and> c \<noteq> dquote"
  by (auto simp: crockford_char_def)

lemma valid_device_id_iff:
  "valid_device_id i \<longleftrightarrow> 4 \<le> length i \<and> length i \<le> 8 \<and> (\<forall>c \<in> set i. crockford_char c)"
  by (auto simp: valid_device_id_def DEVICE_ID_MIN_def DEVICE_ID_MAX_def list_all_iff)

lemma valid_device_id_chars:
  assumes "valid_device_id i"
  shows "CHR 0x00 \<notin> set i" "nl \<notin> set i" "CHR '' '' \<notin> set i" "dquote \<notin> set i"
  using assms by (auto simp: valid_device_id_iff dest!: crockford_char_not_special)

lemma c_str_device_id [simp]: "valid_device_id i \<Longrightarrow> c_str i = i"
  by (simp add: c_str_id valid_device_id_chars)

section \<open>The table\<close>

text \<open>
  What \<open>db/schema.sql\<close> stores: one row per primary key. \<open>Created\<close> is the only column that
  can be NULL.
\<close>

record krow =
  r_key :: string
  r_status :: int
  r_note :: string
  r_created :: "string option"

type_synonym table = "string \<rightharpoonup> krow"

text \<open>The text \<open>datetime('now')\<close> yields: a date and a time of day, joined by one space.\<close>

definition sql_datetime :: "string \<Rightarrow> bool" where
  "sql_datetime ts \<longleftrightarrow>
     (\<exists>d t. ts = d @ '' '' @ t \<and> length d = 10 \<and> length t = 8 \<and> is_digit (hd d) \<and>
        (\<forall>c \<in> set d. is_digit c \<or> c = CHR ''-'') \<and> (\<forall>c \<in> set t. is_digit c \<or> c = CHR '':''))"

definition table_rows :: "table \<Rightarrow> (string \<times> krow) list" where
  "table_rows t = map (\<lambda>i. (i, the (t i))) (sorted_list_of_set (dom t))"

definition find_row_ok :: "sql_column list \<Rightarrow> krow \<Rightarrow> bool" where
  "find_row_ok row r \<longleftrightarrow>
     length row = 3 \<and> as_text (row ! 0) = Some (r_key r) \<and> as_int (row ! 1) = r_status r \<and>
     as_text (row ! 2) = Some (r_note r)"

definition list_row_ok :: "sql_column list \<Rightarrow> string \<times> krow \<Rightarrow> bool" where
  "list_row_ok row = (\<lambda>(i, r).
     length row = 4 \<and> as_text (row ! 0) = Some i \<and> as_int (row ! 1) = r_status r \<and>
     as_text (row ! 2) = Some (r_note r) \<and>
     as_text (row ! 3) = Some (case r_created r of None \<Rightarrow> '''' | Some ts \<Rightarrow> ts))"

section \<open>The contract of the keystore\<close>

definition found_device :: "string \<Rightarrow> krow \<Rightarrow> device \<Rightarrow> device" where
  "found_device i r out =
     out\<lparr>dev_id := i, dev_key := c_str (r_key r), dev_status := r_status r,
         dev_note := c_str (r_note r)\<rparr>"

definition new_row :: "device \<Rightarrow> string \<Rightarrow> krow" where
  "new_row d ts =
     \<lparr>r_key = c_str (dev_key d), r_status = dev_status d, r_note = c_str (dev_note d),
      r_created = Some ts\<rparr>"

definition listed :: "string \<times> krow \<Rightarrow> device" where
  "listed = (\<lambda>(i, r). device_default
     \<lparr>dev_id := c_str i, dev_status := r_status r, dev_note := c_str (r_note r),
      dev_created := c_str (case r_created r of None \<Rightarrow> '''' | Some ts \<Rightarrow> ts)\<rparr>)"

text \<open>
  The effect each operation may have on the table, by its result. A lookup that answers
  \<open>NotFound\<close> for a well-formed identifier proves the row absent; \<open>Error\<close> says nothing.
\<close>

definition find_spec :: "table \<Rightarrow> string \<Rightarrow> device \<Rightarrow> lookup \<Rightarrow> device \<Rightarrow> bool" where
  "find_spec t i out l d =
     (case l of
        Found \<Rightarrow> valid_device_id i \<and> (\<exists>r. t i = Some r \<and> d = found_device i r out)
      | NotFound \<Rightarrow> (valid_device_id i \<longrightarrow> t i = None) \<and> d = out
      | Error \<Rightarrow> valid_device_id i \<and> d = out)"

definition add_spec :: "table \<Rightarrow> device \<Rightarrow> bool \<Rightarrow> table \<Rightarrow> bool" where
  "add_spec t d ok t' =
     (if ok then valid_device_id (dev_id d) \<and> dev_status d \<in> {0, 1} \<and> t (dev_id d) = None \<and>
        (\<exists>ts. sql_datetime ts \<and> t' = t(dev_id d \<mapsto> new_row d ts))
      else t' = t)"

definition update_spec :: "table \<Rightarrow> string \<Rightarrow> (krow \<Rightarrow> krow) \<Rightarrow> lookup \<Rightarrow> table \<Rightarrow> bool" where
  "update_spec t i f l t' =
     (case l of
        Found \<Rightarrow> valid_device_id i \<and> (\<exists>r. t i = Some r \<and> t' = t(i \<mapsto> f r))
      | NotFound \<Rightarrow> (valid_device_id i \<longrightarrow> t i = None) \<and> t' = t
      | Error \<Rightarrow> valid_device_id i \<and> t' = t)"

locale device_store =
  fixes find :: "string \<Rightarrow> device \<Rightarrow> 'db \<Rightarrow> lookup \<times> device \<times> 'db"
    and add :: "device \<Rightarrow> 'db \<Rightarrow> bool \<times> 'db"
    and set_status :: "string \<Rightarrow> int \<Rightarrow> 'db \<Rightarrow> lookup \<times> 'db"
    and set_note :: "string \<Rightarrow> string \<Rightarrow> 'db \<Rightarrow> lookup \<times> 'db"
    and listing :: "device list \<Rightarrow> 'db \<Rightarrow> bool \<times> device list \<times> 'db"
    and tbl :: "'db \<Rightarrow> table"
  assumes finite_tbl: "finite (dom (tbl db))"
    and find_law: "find i out db = (l, d, db') \<Longrightarrow> tbl db' = tbl db \<and> find_spec (tbl db) i out l d"
    and add_law: "add d db = (ok, db') \<Longrightarrow> add_spec (tbl db) d ok (tbl db')"
    and set_status_law: "set_status i s db = (l, db') \<Longrightarrow>
      update_spec (tbl db) i (\<lambda>r. r\<lparr>r_status := s\<rparr>) l (tbl db') \<and> (l = Found \<longrightarrow> s \<in> {0, 1})"
    and set_note_law: "set_note i n db = (l, db') \<Longrightarrow>
      update_spec (tbl db) i (\<lambda>r. r\<lparr>r_note := c_str n\<rparr>) l (tbl db')"
    and listing_law: "listing acc db = (ok, ds, db') \<Longrightarrow>
      tbl db' = tbl db \<and> (ok \<longrightarrow> ds = acc @ map listed (table_rows (tbl db)))"
begin

lemma find_tbl: "find i out db = (l, d, db') \<Longrightarrow> tbl db' = tbl db"
  by (simp add: find_law)

lemma find_FoundD:
  assumes "find i out db = (Found, d, db')"
  shows "valid_device_id i" "\<exists>r. tbl db i = Some r \<and> d = found_device i r out"
  using find_law [OF assms] by (auto simp: find_spec_def)

lemma find_NotFoundD:
  "find i out db = (NotFound, d, db') \<Longrightarrow> valid_device_id i \<Longrightarrow> tbl db i = None"
  by (drule find_law) (simp add: find_spec_def)

lemma find_keeps_out: "find i out db = (l, d, db') \<Longrightarrow> l \<noteq> Found \<Longrightarrow> d = out"
  by (drule find_law) (auto simp: find_spec_def split: lookup.splits)

lemma find_malformed: "find i out db = (l, d, db') \<Longrightarrow> \<not> valid_device_id i \<Longrightarrow> l = NotFound"
  by (drule find_law) (auto simp: find_spec_def split: lookup.splits)

text \<open>A lookup after a status change sees it, or fails: it never reports the old status.\<close>

lemma find_after_set_status:
  assumes "set_status i s db = (Found, db1)" and "tbl db2 = tbl db1"
    and "find i out db2 = (l, d, db3)"
  shows "l = Error \<or> (l = Found \<and> dev_status d = s)"
  using set_status_law [OF assms(1)] find_law [OF assms(3)] assms(2)
  by (auto simp: update_spec_def find_spec_def found_device_def split: lookup.splits)

end

locale device_store_up = device_store +
  fixes up :: "'db \<Rightarrow> bool"
  assumes find_up: "up db \<Longrightarrow> find i out db = (l, d, db') \<Longrightarrow> l \<noteq> Error \<and> up db'"
    and add_up: "up db \<Longrightarrow> add d db = (ok, db') \<Longrightarrow> up db' \<and>
      (valid_device_id (dev_id d) \<and> dev_status d \<in> {0, 1} \<and> tbl db (dev_id d) = None \<longrightarrow> ok)"
    and set_status_up: "up db \<Longrightarrow> s \<in> {0, 1} \<Longrightarrow> set_status i s db = (l, db') \<Longrightarrow>
      l \<noteq> Error \<and> up db'"
    and set_note_up: "up db \<Longrightarrow> set_note i n db = (l, db') \<Longrightarrow> l \<noteq> Error \<and> up db'"
    and listing_up: "up db \<Longrightarrow> listing acc db = (ok, ds, db') \<Longrightarrow> ok \<and> up db'"
begin

lemma find_present:
  assumes "up db" and "valid_device_id i" and "tbl db i = Some r"
  shows "\<exists>db'. find i out db = (Found, found_device i r out, db') \<and> tbl db' = tbl db \<and> up db'"
proof -
  obtain l d db' where eq: "find i out db = (l, d, db')" by (metis prod_cases3)
  then show ?thesis
    using find_law [OF eq] find_up [OF assms(1) eq] assms(2,3)
    by (auto simp: find_spec_def split: lookup.splits)
qed

lemma find_absent:
  assumes "up db" and "tbl db i = None"
  shows "\<exists>db'. find i out db = (NotFound, out, db') \<and> tbl db' = tbl db \<and> up db'"
proof -
  obtain l d db' where eq: "find i out db = (l, d, db')" by (metis prod_cases3)
  then show ?thesis
    using find_law [OF eq] find_up [OF assms(1) eq] assms(2)
    by (auto simp: find_spec_def split: lookup.splits)
qed

text \<open>Two states with the same row give the same answer.\<close>

lemma find_same_row:
  assumes "up db" and "up db1" and "tbl db1 i = tbl db i"
    and "find i out db = (l, d, x)" and "find i out db1 = (l', d', y)"
  shows "l' = l \<and> d' = d"
  using find_law [OF assms(4)] find_law [OF assms(5)] find_up [OF assms(1,4)] find_up [OF assms(2,5)] assms(3)
  by (auto simp: find_spec_def split: lookup.splits)

lemma add_iff:
  assumes "up db" and "add d db = (ok, db')"
  shows "ok \<longleftrightarrow> valid_device_id (dev_id d) \<and> dev_status d \<in> {0, 1} \<and> tbl db (dev_id d) = None"
proof (cases ok)
  case True
  with add_law [OF assms(2)] show ?thesis by (simp add: add_spec_def)
next
  case False
  with add_up [OF assms] show ?thesis by blast
qed

lemma find_after_add:
  assumes "up db" and "add d db = (True, db')"
  shows "\<exists>db2. find (dev_id d) out db' = (Found, out\<lparr>dev_id := dev_id d, dev_key := c_str (dev_key d),
      dev_status := dev_status d, dev_note := c_str (dev_note d)\<rparr>, db2)"
proof -
  obtain ts where a: "valid_device_id (dev_id d)" "tbl db' = (tbl db)(dev_id d \<mapsto> new_row d ts)"
    using add_law [OF assms(2)] by (auto simp: add_spec_def)
  have "up db'" using add_up [OF assms] by blast
  moreover have "tbl db' (dev_id d) = Some (new_row d ts)" by (simp add: a(2))
  ultimately have "\<exists>db2. find (dev_id d) out db' = (Found, found_device (dev_id d) (new_row d ts) out, db2)"
    using find_present [OF _ a(1)] by blast
  then show ?thesis by (simp add: found_device_def new_row_def)
qed

end

section \<open>What the code relies on of SQLite\<close>

text \<open>
  The documented effect of the statements the sources prepare, on the table of
  \<open>db/schema.sql\<close>. Opening and preparing change nothing. A statement that does not end with
  \<open>SQLITE_DONE\<close> has changed nothing. The primary key makes an insert of a present identifier
  fail, and the \<open>CHECK\<close> on \<open>Status\<close> any other value than 0 and 1.
\<close>

locale sqlite_keystore =
  fixes P :: "'db platform"
    and tbl :: "'db \<Rightarrow> table"
  assumes finite_keys: "finite (dom (tbl db))"
    and open_law: "sqlite3_open P path fl db = (ok, db') \<Longrightarrow> tbl db' = tbl db"
    and prepare_law: "sqlite3_prepare P sql db = (ok, db') \<Longrightarrow> tbl db' = tbl db"
    and exec_law: "sqlite3_exec P sql_add_created db = (ok, db') \<Longrightarrow> tbl db' = tbl db"
    and table_info_law: "sqlite3_run P sql_table_info [] db = (r, db') \<Longrightarrow> tbl db' = tbl db"
    and select_law: "sqlite3_run P sql_find [Bind_text i] db = (r, db') \<Longrightarrow>
      tbl db' = tbl db \<and>
      (case run_rows r of
         [] \<Rightarrow> run_done r \<longrightarrow> tbl db i = None
       | row # _ \<Rightarrow> \<exists>k. tbl db i = Some k \<and> find_row_ok row k)"
    and insert_law:
      "sqlite3_run P sql_insert [Bind_text i, Bind_text key, Bind_int s, Bind_text n] db = (r, db') \<Longrightarrow>
      run_rows r = [] \<and>
      (if run_done r then s \<in> {0, 1} \<and> tbl db i = None \<and>
         (\<exists>ts. sql_datetime ts \<and> tbl db' = (tbl db)(i \<mapsto>
            \<lparr>r_key = key, r_status = s, r_note = n, r_created = Some ts\<rparr>))
       else tbl db' = tbl db)"
    and update_status_law:
      "sqlite3_run P sql_set_status [Bind_int s, Bind_text i] db = (r, db') \<Longrightarrow>
      run_rows r = [] \<and>
      (if run_done r then
         (case tbl db i of
            None \<Rightarrow> run_changes r = 0 \<and> tbl db' = tbl db
          | Some k \<Rightarrow> s \<in> {0, 1} \<and> run_changes r = 1 \<and>
              tbl db' = (tbl db)(i \<mapsto> k\<lparr>r_status := s\<rparr>))
       else tbl db' = tbl db)"
    and update_note_law:
      "sqlite3_run P sql_set_note [Bind_text n, Bind_text i] db = (r, db') \<Longrightarrow>
      run_rows r = [] \<and>
      (if run_done r then
         (case tbl db i of
            None \<Rightarrow> run_changes r = 0 \<and> tbl db' = tbl db
          | Some k \<Rightarrow> run_changes r = 1 \<and> tbl db' = (tbl db)(i \<mapsto> k\<lparr>r_note := n\<rparr>))
       else tbl db' = tbl db)"
    and list_law: "sqlite3_run P sql_list [] db = (r, db') \<Longrightarrow>
      tbl db' = tbl db \<and>
      (run_done r \<longrightarrow> list_all2 list_row_ok (run_rows r) (table_rows (tbl db)))"
begin

lemma open_db_law: "open_db P fl db = (ok, db') \<Longrightarrow> tbl db' = tbl db"
  by (simp add: open_db_def open_law)

lemma find_device_refines:
  assumes "find_device P i out db = (l, d, db')"
  shows "tbl db' = tbl db \<and> find_spec (tbl db) i out l d"
  using assms
  by (auto simp: find_device_def find_spec_def first_step_def found_device_def find_row_ok_def
        column_text_def sqlite3_column_text_def sqlite3_column_int_def
      split: if_splits prod.splits bool.splits list.splits option.splits
      dest!: open_db_law prepare_law select_law)

lemma add_device_refines:
  assumes "add_device P d db = (ok, db')"
  shows "add_spec (tbl db) d ok (tbl db')"
  using assms
  by (auto simp: add_device_def add_spec_def first_step_def new_row_def
      split: if_splits prod.splits bool.splits
      dest!: open_db_law prepare_law insert_law)

lemma set_device_status_refines:
  assumes "set_device_status P i s db = (l, db')"
  shows "update_spec (tbl db) i (\<lambda>r. r\<lparr>r_status := s\<rparr>) l (tbl db') \<and> (l = Found \<longrightarrow> s \<in> {0, 1})"
  using assms
  by (auto simp: set_device_status_def update_one_def update_spec_def first_step_def
      split: if_splits prod.splits bool.splits option.splits
      dest!: open_db_law prepare_law update_status_law)

lemma set_device_note_refines:
  assumes "set_device_note P i n db = (l, db')"
  shows "update_spec (tbl db) i (\<lambda>r. r\<lparr>r_note := c_str n\<rparr>) l (tbl db')"
  using assms
  by (auto simp: set_device_note_def update_one_def update_spec_def first_step_def
      split: if_splits prod.splits bool.splits option.splits
      dest!: open_db_law prepare_law update_note_law)

lemma listed_device_eq: "list_row_ok row x \<Longrightarrow> listed_device row = listed x"
  by (auto simp: list_row_ok_def listed_device_def listed_def column_text_def
      sqlite3_column_text_def sqlite3_column_int_def split: prod.splits)

lemma map_listed_device: "list_all2 list_row_ok rows xs \<Longrightarrow> map listed_device rows = map listed xs"
  by (induction rule: list_all2_induct) (auto simp: listed_device_eq)

lemma list_devices_refines:
  assumes "list_devices P acc db = (ok, ds, db')"
  shows "tbl db' = tbl db \<and> (ok \<longrightarrow> ds = acc @ map listed (table_rows (tbl db)))"
  using assms
  by (auto simp: list_devices_def split: prod.splits bool.splits
      dest!: open_db_law prepare_law list_law map_listed_device)

lemma migrate_keystore_tbl: "migrate_keystore P db = (ok, db') \<Longrightarrow> tbl db' = tbl db"
  by (auto simp: migrate_keystore_def split: prod.splits bool.splits if_splits
      dest!: open_db_law prepare_law table_info_law exec_law)

end

text \<open>The code meets the contract.\<close>

sublocale sqlite_keystore \<subseteq>
  ks: device_store "find_device P" "add_device P" "set_device_status P" "set_device_note P"
    "list_devices P" tbl
  by unfold_locales
     (blast intro: finite_keys
        dest: find_device_refines add_device_refines set_device_status_refines
          set_device_note_refines list_devices_refines)+

text \<open>
  The same database when nothing stands in the way: the file opens, the statements the sources
  contain prepare, and a statement ends with \<open>SQLITE_DONE\<close> unless it breaks a constraint.
\<close>

locale sqlite_available = sqlite_keystore +
  fixes up :: "'db \<Rightarrow> bool"
  assumes open_up: "up db \<Longrightarrow> \<exists>db'. sqlite3_open P (db_path P) fl db = (True, db') \<and> up db'"
    and prepare_up: "up db \<Longrightarrow>
      sql \<in> {sql_find, sql_insert, sql_set_status, sql_set_note, sql_list} \<Longrightarrow>
      \<exists>db'. sqlite3_prepare P sql db = (True, db') \<and> up db'"
    and run_up: "up db \<Longrightarrow> up (snd (sqlite3_run P sql binds db))"
    and select_done: "up db \<Longrightarrow> run_done (fst (sqlite3_run P sql_find [Bind_text i] db))"
    and insert_done: "up db \<Longrightarrow> s \<in> {0, 1} \<Longrightarrow> tbl db i = None \<Longrightarrow>
      run_done (fst (sqlite3_run P sql_insert
        [Bind_text i, Bind_text key, Bind_int s, Bind_text n] db))"
    and update_status_done: "up db \<Longrightarrow> s \<in> {0, 1} \<Longrightarrow>
      run_done (fst (sqlite3_run P sql_set_status [Bind_int s, Bind_text i] db))"
    and update_note_done: "up db \<Longrightarrow>
      run_done (fst (sqlite3_run P sql_set_note [Bind_text n, Bind_text i] db))"
    and list_done: "up db \<Longrightarrow> run_done (fst (sqlite3_run P sql_list [] db))"
begin

lemma prepared:
  assumes "up db" and "sql \<in> {sql_find, sql_insert, sql_set_status, sql_set_note, sql_list}"
  obtains db1 db2 where "open_db P fl db = (True, db1)" "sqlite3_prepare P sql db1 = (True, db2)"
    "up db2" "tbl db2 = tbl db"
proof -
  obtain db1 where 1: "open_db P fl db = (True, db1)" "up db1"
    using open_up [OF assms(1)] by (auto simp: open_db_def)
  obtain db2 where 2: "sqlite3_prepare P sql db1 = (True, db2)" "up db2"
    using prepare_up [OF 1(2) assms(2)] by blast
  show thesis
    using that [OF 1(1) 2] open_db_law [OF 1(1)] prepare_law [OF 2(1)] by simp
qed

lemma find_device_up:
  assumes "up db" and "find_device P i out db = (l, d, db')"
  shows "l \<noteq> Error \<and> up db'"
proof (cases "valid_device_id i")
  case True
  obtain db1 db2 where pre: "open_db P SQLITE_OPEN_READONLY db = (True, db1)"
    "sqlite3_prepare P sql_find db1 = (True, db2)" "up db2"
    using prepared [OF assms(1), of sql_find SQLITE_OPEN_READONLY] by blast
  show ?thesis
    using assms(2) True pre run_up [OF pre(3), of sql_find "[Bind_text i]"]
      select_done [OF pre(3), of i]
    by (auto simp: find_device_def first_step_def
        split: prod.splits list.splits option.splits)
next
  case False
  with assms show ?thesis by (simp add: find_device_def)
qed

lemma add_device_up:
  assumes "up db" and "add_device P d db = (ok, db')"
  shows "up db' \<and>
    (valid_device_id (dev_id d) \<and> dev_status d \<in> {0, 1} \<and> tbl db (dev_id d) = None \<longrightarrow> ok)"
proof (cases "valid_device_id (dev_id d)")
  case True
  let ?binds = "[Bind_text (dev_id d), Bind_text (c_str (dev_key d)), Bind_int (dev_status d),
    Bind_text (c_str (dev_note d))]"
  obtain db1 db2 where pre: "open_db P SQLITE_OPEN_READWRITE db = (True, db1)"
    "sqlite3_prepare P sql_insert db1 = (True, db2)" "up db2" "tbl db2 = tbl db"
    using prepared [OF assms(1), of sql_insert SQLITE_OPEN_READWRITE] by blast
  obtain r db3 where run: "sqlite3_run P sql_insert ?binds db2 = (r, db3)" by fastforce
  have "up db3" using run_up [OF pre(3), of sql_insert ?binds] by (simp add: run)
  moreover have "run_done r" if "dev_status d \<in> {0, 1}" "tbl db (dev_id d) = None"
    using insert_done [OF pre(3) that(1), of "dev_id d" "c_str (dev_key d)" "c_str (dev_note d)"]
      that(2) run by (simp add: pre(4))
  ultimately show ?thesis
    using assms(2) True pre run insert_law [OF run] by (auto simp: add_device_def first_step_def)
next
  case False
  with assms show ?thesis by (simp add: add_device_def)
qed

lemma set_device_status_up:
  assumes "up db" and "s \<in> {0, 1}" and "set_device_status P i s db = (l, db')"
  shows "l \<noteq> Error \<and> up db'"
proof (cases "valid_device_id i")
  case True
  obtain db1 db2 where pre: "open_db P SQLITE_OPEN_READWRITE db = (True, db1)"
    "sqlite3_prepare P sql_set_status db1 = (True, db2)" "up db2"
    using prepared [OF assms(1), of sql_set_status SQLITE_OPEN_READWRITE] by blast
  obtain r db3 where run: "sqlite3_run P sql_set_status [Bind_int s, Bind_text i] db2 = (r, db3)"
    by fastforce
  show ?thesis
    using assms(3) True pre run run_up [OF pre(3), of sql_set_status "[Bind_int s, Bind_text i]"]
      update_status_done [OF pre(3) assms(2), of i] update_status_law [OF run]
    by (auto simp: set_device_status_def update_one_def first_step_def split: if_splits)
next
  case False
  with assms show ?thesis by (simp add: set_device_status_def update_one_def)
qed

lemma set_device_note_up:
  assumes "up db" and "set_device_note P i n db = (l, db')"
  shows "l \<noteq> Error \<and> up db'"
proof (cases "valid_device_id i")
  case True
  obtain db1 db2 where pre: "open_db P SQLITE_OPEN_READWRITE db = (True, db1)"
    "sqlite3_prepare P sql_set_note db1 = (True, db2)" "up db2"
    using prepared [OF assms(1), of sql_set_note SQLITE_OPEN_READWRITE] by blast
  obtain r db3 where run: "sqlite3_run P sql_set_note [Bind_text (c_str n), Bind_text i] db2 = (r, db3)"
    by fastforce
  show ?thesis
    using assms(2) True pre run run_up [OF pre(3), of sql_set_note "[Bind_text (c_str n), Bind_text i]"]
      update_note_done [OF pre(3), of "c_str n" i] update_note_law [OF run]
    by (auto simp: set_device_note_def update_one_def first_step_def split: if_splits)
next
  case False
  with assms show ?thesis by (simp add: set_device_note_def update_one_def)
qed

lemma list_devices_up:
  assumes "up db" and "list_devices P acc db = (ok, ds, db')"
  shows "ok \<and> up db'"
proof -
  obtain db1 db2 where pre: "open_db P SQLITE_OPEN_READONLY db = (True, db1)"
    "sqlite3_prepare P sql_list db1 = (True, db2)" "up db2"
    using prepared [OF assms(1), of sql_list SQLITE_OPEN_READONLY] by blast
  show ?thesis
    using assms(2) pre run_up [OF pre(3), of sql_list "[]"] list_done [OF pre(3)]
    by (auto simp: list_devices_def split: prod.splits)
qed

end

sublocale sqlite_available \<subseteq>
  ks: device_store_up "find_device P" "add_device P" "set_device_status P" "set_device_note P"
    "list_devices P" tbl up
proof (unfold_locales, goal_cases)
  case 1 then show ?case by (rule find_device_up)
next
  case 2 then show ?case by (rule add_device_up)
next
  case 3 then show ?case by (rule set_device_status_up)
next
  case 4 then show ?case by (rule set_device_note_up)
next
  case 5 then show ?case by (rule list_devices_up)
qed

text \<open>What a client sees of an insertion, with the code for the operations.\<close>

context sqlite_available
begin

lemmas keystore_add_iff = ks.add_iff
lemmas keystore_find_after_add = ks.find_after_add
lemmas keystore_find_same_row = ks.find_same_row

end

end
