(* ===== verification/Keygen.thy ===== *)
theory Keygen
  imports Keystore
begin

text \<open>
  Device identifiers, keys, labels and the firmware header: \<open>core/keygen.cpp\<close> and
  \<open>core/keygen.hpp\<close>.

  OpenSSL's \<open>RAND_bytes\<close> is a parameter, a function of the number of bytes and the generator's
  state; \<open>None\<close> is a return value other than 1. The code relies on it filling the buffer
  (\<open>csprng\<close>); no property here is about its distribution except that the identifier alphabet
  keeps a uniform byte uniform.
\<close>

type_synonym 'r rng = "nat \<Rightarrow> 'r \<Rightarrow> byte list option \<times> 'r"

definition csprng :: "'r rng \<Rightarrow> bool" where
  "csprng R \<longleftrightarrow> (\<forall>n r buf r'. R n r = (Some buf, r') \<longrightarrow> length buf = n)"

lemma csprngD: "csprng R \<Longrightarrow> R n r = (Some buf, r') \<Longrightarrow> length buf = n"
  unfolding csprng_def by blast

section \<open>The code\<close>

definition id_alphabet :: string where
  "id_alphabet = ''0123456789ABCDEFGHJKMNPQRSTVWXYZ''"

text \<open>\<open>alphabet[b % 32]\<close>.\<close>

definition id_char :: "byte \<Rightarrow> char" where
  "id_char b = id_alphabet ! (unat b mod 32)"

text \<open>A negative length is the \<open>std::length_error\<close> of the vector's constructor.\<close>

definition generate_device_id :: "'r rng \<Rightarrow> int \<Rightarrow> 'r \<Rightarrow> string cxx \<times> 'r" where
  "generate_device_id R len r =
     (if len < 0 then (Inl (Runtime_error ''length_error''), r)
      else case R (nat len) r of
        (None, r') \<Rightarrow> (Inl (Runtime_error ''RAND_bytes failed''), r')
      | (Some buf, r') \<Rightarrow> (Inr (map id_char buf), r'))"

definition hex_alphabet :: string where
  "hex_alphabet = ''0123456789abcdef''"

definition hex_of :: "byte list \<Rightarrow> string" where
  "hex_of buf =
     concat (map (\<lambda>b. [hex_alphabet ! unat (drop_bit 4 b), hex_alphabet ! unat (b AND 0x0F)]) buf)"

definition generate_key :: "'r rng \<Rightarrow> 'r \<Rightarrow> string cxx \<times> 'r" where
  "generate_key R r =
     (case R 64 r of
        (None, r') \<Rightarrow> (Inl (Runtime_error ''RAND_bytes failed''), r')
      | (Some buf, r') \<Rightarrow> (Inr (hex_of buf), r'))"

definition label_char :: "char \<Rightarrow> bool" where
  "label_char c \<longleftrightarrow> \<not> (c < CHR 0x20 \<or> CHR 0x7E < c \<or> c = dquote \<or> c = CHR 0x5C)"

definition valid_label :: "string \<Rightarrow> bool" where
  "valid_label s = (if s = [] \<or> 64 < length s then False else list_all label_char s)"

definition firmware_header :: "string \<Rightarrow> string \<Rightarrow> string" where
  "firmware_header ident key =
     ''#pragma once'' @ [nl, nl] @
     ''// Generated by xAuth provisioning -- do not edit, do not commit.'' @ [nl] @
     ''// The ID and the key come from the same provisioning run and must stay'' @ [nl] @
     ''// together; flashing one device'' @ [CHR 0x27] @ ''s key with another'' @ [CHR 0x27] @
     ''s ID fails every login.'' @ [nl, nl] @
     ''#define DEVICE_ID  '' @ [dquote] @ ident @ [dquote, nl] @
     ''#define SECURE_KEY '' @ [dquote] @ key @ [dquote, nl]"

section \<open>Identifiers\<close>

lemma length_id_alphabet [simp]: "length id_alphabet = 32"
  by (simp add: id_alphabet_def)

lemma id_alphabet_crockford: "c \<in> set id_alphabet \<Longrightarrow> crockford_char c"
  by (auto simp: id_alphabet_def crockford_char_def)

lemma crockford_id_alphabet: "crockford_char c \<Longrightarrow> c \<in> set id_alphabet"
proof -
  have "\<forall>c. crockford_char c \<longrightarrow> c \<in> set id_alphabet"
    by code_simp
  then show "crockford_char c \<Longrightarrow> c \<in> set id_alphabet" by blast
qed

lemma generate_device_id_valid:
  assumes "csprng R" and "generate_device_id R len r = (Inr i, r')" and "4 \<le> len" and "len \<le> 8"
  shows "valid_device_id i" "int (length i) = len"
  using assms(2-) id_alphabet_crockford
  by (auto simp: generate_device_id_def valid_device_id_iff id_char_def
      split: prod.splits option.splits if_splits dest!: csprngD [OF assms(1)])

section \<open>Keys\<close>

definition hex_char :: "char \<Rightarrow> bool" where
  "hex_char c \<longleftrightarrow> c \<in> set hex_alphabet"

definition valid_key :: "string \<Rightarrow> bool" where
  "valid_key k \<longleftrightarrow> length k = 128 \<and> (\<forall>c \<in> set k. hex_char c)"

lemma length_hex_alphabet [simp]: "length hex_alphabet = 16"
  by (simp add: hex_alphabet_def)

lemma distinct_hex_alphabet [simp]: "distinct hex_alphabet"
  by (simp add: hex_alphabet_def)

lemma length_hex_of [simp]: "length (hex_of buf) = 2 * length buf"
  by (induction buf) (simp_all add: hex_of_def)

lemma hex_char_special:
  "hex_char c \<Longrightarrow> c \<noteq> CHR 0x00 \<and> c \<noteq> nl \<and> c \<noteq> dquote \<and> c \<noteq> CHR '' ''"
  by (auto simp: hex_char_def hex_alphabet_def)

lemma valid_key_special:
  assumes "valid_key k"
  shows "CHR 0x00 \<notin> set k" "nl \<notin> set k" "dquote \<notin> set k" "CHR '' '' \<notin> set k"
  using assms by (auto simp: valid_key_def dest!: hex_char_special)

lemma nibbles_less: "unat (drop_bit 4 (b :: byte)) < 16" "unat ((b :: byte) AND 0x0F) < 16"
proof -
  have "unat b < 256" using unsigned_less [of b, where 'a = nat] by simp
  then show "unat (drop_bit 4 (b :: byte)) < 16" by (simp add: drop_bit_eq_div unat_div)
  have "b AND mask 4 = take_bit 4 b" by (simp only: take_bit_eq_mask)
  then show "unat ((b :: byte) AND 0x0F) < 16"
    by (simp add: mask_eq_exp_minus_1 unat_mod take_bit_eq_mod)
qed

lemma hex_of_chars: "c \<in> set (hex_of buf) \<Longrightarrow> hex_char c"
  using nibbles_less by (auto simp: hex_of_def hex_char_def)

lemma byte_nibbles:
  assumes "drop_bit 4 (a :: byte) = drop_bit 4 b" and "a AND 0x0F = b AND 0x0F"
  shows "a = b"
proof -
  have "(x :: byte) AND 0x0F = take_bit 4 x" for x by (simp add: take_bit_eq_mask mask_eq_exp_minus_1)
  with assms have "take_bit 4 a = take_bit 4 b" by simp
  with assms(1) show ?thesis by (metis bits_ident)
qed

lemma hex_of_Cons: "hex_of (b # bs) =
    hex_alphabet ! unat (drop_bit 4 b) # hex_alphabet ! unat (b AND 0x0F) # hex_of bs"
  by (simp only: hex_of_def list.map concat.simps append.simps)

lemma hex_alphabet_inj:
  "m < 16 \<Longrightarrow> n < 16 \<Longrightarrow> hex_alphabet ! m = hex_alphabet ! n \<longleftrightarrow> m = n"
  by (simp add: nth_eq_iff_index_eq)

lemma hex_of_inj: "hex_of a = hex_of b \<Longrightarrow> a = b"
proof (induction a arbitrary: b)
  case Nil
  then show ?case by (cases b) (simp_all add: hex_of_def)
next
  case (Cons x a)
  then obtain y b' where b: "b = y # b'" by (cases b) (auto simp: hex_of_def)
  from Cons.prems have "unat (drop_bit 4 x) = unat (drop_bit 4 y)"
    and "unat (x AND 0x0F) = unat (y AND 0x0F)" and "hex_of a = hex_of b'"
    by (simp_all only: b hex_of_Cons list.inject hex_alphabet_inj nibbles_less)
  then have "x = y" and "a = b'"
    using Cons.IH byte_nibbles unsigned_word_eqI by blast+
  then show ?case by (simp add: b)
qed

lemma generate_key_valid:
  "csprng R \<Longrightarrow> generate_key R r = (Inr k, r') \<Longrightarrow> valid_key k"
  by (auto simp: generate_key_def valid_key_def hex_of_chars
      split: prod.splits option.splits dest: csprngD)

section \<open>The identifier alphabet\<close>

lemma card_id_char:
  assumes "c \<in> set id_alphabet"
  shows "card {b :: byte. id_char b = c} = 8"
proof -
  have dist: "distinct id_alphabet" by (simp add: id_alphabet_def)
  from assms obtain k where k: "k < 32" "c = id_alphabet ! k"
    by (metis in_set_conv_nth length_id_alphabet)
  let ?f = "\<lambda>q. word_of_nat (q * 32 + k) :: byte"
  have u: "unat (?f q) = q * 32 + k" if "q < 8" for q
  proof -
    have "q * 32 + k < 256" using that k by linarith
    then show ?thesis by (subst unat_of_nat) simp
  qed
  have "{b :: byte. id_char b = c} = {b. unat b mod 32 = k}"
    using k dist by (auto simp: id_char_def nth_eq_iff_index_eq)
  also have "\<dots> = ?f ` {..<8}" (is "?L = _")
  proof (intro equalityI subsetI)
    fix b :: byte assume "b \<in> ?L"
    then have b: "unat b = unat b div 32 * 32 + k"
      using div_mult_mod_eq [of "unat b" 32] by simp
    have "unat b < 8 * 32" using unsigned_less [of b, where 'a = nat] by simp
    then have "unat b div 32 \<in> {..<8}" by (simp add: less_mult_imp_div_less)
    moreover have "b = ?f (unat b div 32)" by (subst b [symmetric]) simp
    ultimately show "b \<in> ?f ` {..<8}" by (rule rev_image_eqI)
  next
    fix b assume "b \<in> ?f ` {..<8}"
    then obtain q where q: "q < 8" and b: "b = ?f q" by blast
    with k show "b \<in> ?L" by (simp only: mem_Collect_eq u [OF q] b) simp
  qed
  finally have eq: "{b :: byte. id_char b = c} = ?f ` {..<8}" .
  have "inj_on ?f {..<8}"
  proof (rule inj_onI)
    fix p q assume "p \<in> {..<8 :: nat}" "q \<in> {..<8}" "?f p = ?f q"
    then have "p * 32 + k = q * 32 + k" by (metis u lessThan_iff)
    then show "p = q" by simp
  qed
  then show ?thesis by (simp only: eq card_image card_lessThan)
qed

section \<open>The firmware header\<close>

text \<open>
  What the C preprocessor makes of a header: the quoted text on the one line that defines a
  macro of that name.
\<close>

definition macro_value :: "string \<Rightarrow> string \<Rightarrow> string option" where
  "macro_value name src =
     (case filter (prefix (''#define '' @ name @ '' '')) (split_on nl src) of
        [l] \<Rightarrow> Some (takeWhile (\<lambda>c. c \<noteq> dquote) (tl (dropWhile (\<lambda>c. c \<noteq> dquote) l)))
      | _ \<Rightarrow> None)"

lemma split_on_Nil_sep: "split_on c (c # b) = [] # split_on c b" by simp

lemma split_firmware_header:
  assumes "nl \<notin> set ident" and "nl \<notin> set key"
  shows "split_on nl (firmware_header ident key) =
    [''#pragma once'', [],
     ''// Generated by xAuth provisioning -- do not edit, do not commit.'',
     ''// The ID and the key come from the same provisioning run and must stay'',
     ''// together; flashing one device'' @ [CHR 0x27] @ ''s key with another'' @ [CHR 0x27] @
       ''s ID fails every login.'', [],
     ''#define DEVICE_ID  '' @ [dquote] @ ident @ [dquote],
     ''#define SECURE_KEY '' @ [dquote] @ key @ [dquote], []]"
proof -
  have "split_on nl (ident @ dquote # nl # r) = (ident @ [dquote]) # split_on nl r" for r
    using split_on_append [of nl "ident @ [dquote]" r] assms by simp
  moreover have "split_on nl (key @ dquote # nl # r) = (key @ [dquote]) # split_on nl r" for r
    using split_on_append [of nl "key @ [dquote]" r] assms by simp
  ultimately show ?thesis by (simp add: firmware_header_def)
qed

lemma firmware_header_macros:
  assumes "valid_device_id ident" and "valid_key key"
  shows "macro_value ''DEVICE_ID'' (firmware_header ident key) = Some ident \<and>
    macro_value ''SECURE_KEY'' (firmware_header ident key) = Some key"
proof -
  note chars = valid_device_id_chars [OF assms(1)] valid_key_special [OF assms(2)]
  have tw: "takeWhile (\<lambda>c. c \<noteq> dquote) (s @ [dquote]) = s" if "dquote \<notin> set s" for s
    using that by (induction s) auto
  show ?thesis
    using chars by (simp add: macro_value_def split_firmware_header tw)
qed

section \<open>A concrete generator\<close>

text \<open>The generator that hands out a given list of bytes and fails when it runs out.\<close>

definition list_rng :: "byte list rng" where
  "list_rng n bs = (if n \<le> length bs then (Some (take n bs), drop n bs) else (None, bs))"

lemma csprng_list_rng [simp]: "csprng list_rng"
  by (auto simp: csprng_def list_rng_def)

section \<open>Properties\<close>

text \<open>
  Every identifier the generator returns for a length of 4 to 8 has that length and is one
  the keystore accepts.
\<close>

theorem generate_device_id_wellformed:
  assumes "csprng R" and "4 \<le> len" and "len \<le> 8"
    and "generate_device_id R len r = (Inr ident, r')"
  shows "valid_device_id ident \<and> int (length ident) = len"
  using generate_device_id_valid [OF assms(1,4,2,3)] by simp

theorem generate_device_id_wellformed_witness:
  "valid_device_id ''0AZ1''"
proof -
  have "generate_device_id list_rng 4 [0, 10, 63, 33] = (Inr ''0AZ1'', [])"
    by (simp add: generate_device_id_def list_rng_def id_char_def id_alphabet_def)
  from generate_device_id_wellformed [OF csprng_list_rng _ _ this] show ?thesis by simp
qed

text \<open>
  The reduction modulo 32 introduces no bias: of the 256 values of a random byte exactly
  eight give each Crockford character, and none gives any other character.
\<close>

theorem id_char_uniform:
  "card {b. id_char b = c} = (if crockford_char c then 8 else 0)"
proof (cases "crockford_char c")
  case True
  then show ?thesis by (simp add: card_id_char crockford_id_alphabet)
next
  case False
  then have "{b. id_char b = c} = {}"
    using id_alphabet_crockford by (auto simp: id_char_def)
  with False show ?thesis by simp
qed

text \<open>
  C38. A generated key is 128 lowercase hexadecimal digits and keeps all the randomness: two
  draws that give the same key were the same 64 bytes.
\<close>

theorem generate_key_faithful:
  assumes "csprng R" and "generate_key R r = (Inr k, r1)" and "generate_key R s = (Inr k, s1)"
  shows "valid_key k \<and> (\<exists>buf. length buf = 64 \<and> R 64 r = (Some buf, r1) \<and> R 64 s = (Some buf, s1))"
  using generate_key_valid [OF assms(1,2)] assms(2,3) csprngD [OF assms(1)]
  by (auto simp: generate_key_def split: prod.splits option.splits dest!: hex_of_inj)

theorem generate_key_faithful_witness:
  "valid_key (hex_of (replicate 64 171))"
proof -
  have "generate_key list_rng (replicate 64 171) = (Inr (hex_of (replicate 64 171)), [])"
    by (simp add: generate_key_def list_rng_def)
  from generate_key_faithful [OF csprng_list_rng this this] show ?thesis by blast
qed

text \<open>
  The firmware is built from the identifier and the key of one provisioning run: the header
  defines \<open>DEVICE_ID\<close> and \<open>SECURE_KEY\<close> exactly once each, as exactly these two strings.
\<close>

theorem firmware_header_roundtrip:
  assumes "valid_device_id ident" and "valid_key key"
  shows "macro_value ''DEVICE_ID'' (firmware_header ident key) = Some ident \<and>
    macro_value ''SECURE_KEY'' (firmware_header ident key) = Some key"
  by (rule firmware_header_macros [OF assms])

theorem firmware_header_roundtrip_witness:
  "macro_value ''DEVICE_ID'' (firmware_header ''7Q5V'' (replicate 128 (CHR ''a''))) = Some ''7Q5V''"
proof -
  have "valid_device_id ''7Q5V''" by (simp add: valid_device_id_iff crockford_char_def)
  moreover have "valid_key (replicate 128 (CHR ''a''))"
    by (simp add: valid_key_def hex_char_def hex_alphabet_def)
  ultimately show ?thesis using firmware_header_roundtrip by blast
qed

end
