(* ===== verification/Memory_Sqlite.thy ===== *)
theory Memory_Sqlite
  imports Keystore
begin

text \<open>
  A database engine in memory that runs every statement the sources contain on a list of rows,
  with a schedule of faults: each platform call consumes one entry, and a \<open>True\<close> makes that
  call fail. It shows that the laws \<open>sqlite_keystore\<close> and \<open>sqlite_available\<close> state can hold
  together, and it is what closed instances of the properties run on. No other theory looks at
  how it works.
\<close>

record mem_db =
  mem_rows :: "(string \<times> krow) list"
  mem_faults :: "bool list"
  mem_has_created :: bool

definition mem_fault :: "mem_db \<Rightarrow> bool \<times> mem_db" where
  "mem_fault db =
     (case mem_faults db of [] \<Rightarrow> (False, db) | f # fs \<Rightarrow> (f, db\<lparr>mem_faults := fs\<rparr>))"

definition text_column :: "string \<Rightarrow> sql_column" where
  "text_column s = \<lparr>as_text = Some s, as_int = 0\<rparr>"

definition int_column :: "int \<Rightarrow> sql_column" where
  "int_column n =
     \<lparr>as_text = Some (if n < 0 then CHR ''-'' # nat_to_string (nat (- n)) else nat_to_string (nat n)),
      as_int = n\<rparr>"

definition stmt_failed :: stmt_run where
  "stmt_failed = \<lparr>run_rows = [], run_done = False, run_changes = 0\<rparr>"

definition stmt_ok :: "sql_column list list \<Rightarrow> nat \<Rightarrow> stmt_run" where
  "stmt_ok rows changes = \<lparr>run_rows = rows, run_done = True, run_changes = changes\<rparr>"

definition mem_update :: "string \<Rightarrow> (krow \<Rightarrow> krow) \<Rightarrow> mem_db \<Rightarrow> stmt_run \<times> mem_db" where
  "mem_update i f db =
     (case map_of (mem_rows db) i of
        None \<Rightarrow> (stmt_ok [] 0, db)
      | Some k \<Rightarrow> (stmt_ok [] 1, db\<lparr>mem_rows := (i, f k) # mem_rows db\<rparr>))"

definition mem_select :: "string \<Rightarrow> mem_db \<Rightarrow> stmt_run" where
  "mem_select i db =
     stmt_ok (case map_of (mem_rows db) i of
                None \<Rightarrow> []
              | Some k \<Rightarrow> [[text_column (r_key k), int_column (r_status k), text_column (r_note k)]]) 0"

definition mem_insert :: "string \<Rightarrow> string \<Rightarrow> int \<Rightarrow> string \<Rightarrow> mem_db \<Rightarrow> stmt_run \<times> mem_db" where
  "mem_insert i key s n db =
     (if s \<in> {0, 1} \<and> map_of (mem_rows db) i = None
      then (stmt_ok [] 1,
            db\<lparr>mem_rows := (i, \<lparr>r_key = key, r_status = s, r_note = n,
                                r_created = Some ''2026-09-18 12:00:00''\<rparr>) # mem_rows db\<rparr>)
      else (stmt_failed, db))"

definition mem_list :: "mem_db \<Rightarrow> stmt_run" where
  "mem_list db =
     stmt_ok (map (\<lambda>i. case the (map_of (mem_rows db) i) of k \<Rightarrow>
                [text_column i, int_column (r_status k), text_column (r_note k),
                 text_column (case r_created k of None \<Rightarrow> '''' | Some ts \<Rightarrow> ts)])
              (sort (remdups (map fst (mem_rows db))))) 0"

definition mem_table_info :: "mem_db \<Rightarrow> stmt_run" where
  "mem_table_info db =
     stmt_ok (map (\<lambda>c. [int_column 0, text_column c])
       ([''ID'', ''Key'', ''Status'', ''Note''] @ (if mem_has_created db then [''Created''] else []))) 0"

definition mem_stmt :: "string \<Rightarrow> sql_bind list \<Rightarrow> mem_db \<Rightarrow> stmt_run \<times> mem_db" where
  "mem_stmt sql binds db =
     (case binds of
        [] \<Rightarrow> if sql = sql_list then (mem_list db, db)
              else if sql = sql_table_info then (mem_table_info db, db) else (stmt_failed, db)
      | [Bind_text i] \<Rightarrow> if sql = sql_find then (mem_select i db, db) else (stmt_failed, db)
      | [Bind_int s, Bind_text i] \<Rightarrow>
          if sql = sql_set_status \<and> (s \<in> {0, 1} \<or> map_of (mem_rows db) i = None)
          then mem_update i (\<lambda>k. k\<lparr>r_status := s\<rparr>) db else (stmt_failed, db)
      | [Bind_text n, Bind_text i] \<Rightarrow>
          if sql = sql_set_note then mem_update i (\<lambda>k. k\<lparr>r_note := n\<rparr>) db else (stmt_failed, db)
      | [Bind_text i, Bind_text key, Bind_int s, Bind_text n] \<Rightarrow>
          if sql = sql_insert then mem_insert i key s n db else (stmt_failed, db)
      | _ \<Rightarrow> (stmt_failed, db))"

definition mem_run :: "string \<Rightarrow> sql_bind list \<Rightarrow> mem_db \<Rightarrow> stmt_run \<times> mem_db" where
  "mem_run sql binds db =
     (let (failed, db1) = mem_fault db
      in if failed then (stmt_failed, db1) else mem_stmt sql binds db1)"

definition mem_prepare :: "string \<Rightarrow> mem_db \<Rightarrow> bool \<times> mem_db" where
  "mem_prepare sql db =
     (let (failed, db1) = mem_fault db
      in (\<not> failed \<and> (sql \<in> {sql_insert, sql_list} \<longrightarrow> mem_has_created db), db1))"

definition mem_exec :: "string \<Rightarrow> mem_db \<Rightarrow> bool \<times> mem_db" where
  "mem_exec sql db =
     (let (failed, db1) = mem_fault db
      in if failed \<or> sql \<noteq> sql_add_created \<or> mem_has_created db then (False, db1)
         else (True, db1\<lparr>mem_has_created := True\<rparr>))"

definition mem_open :: "string \<Rightarrow> open_flag \<Rightarrow> mem_db \<Rightarrow> bool \<times> mem_db" where
  "mem_open path fl db = (let (failed, db1) = mem_fault db in (\<not> failed, db1))"

definition mem_platform :: "mem_db platform" where
  "mem_platform =
     \<lparr>getenv = (\<lambda>_. None), xauth_db_default = ''db/auth'', sqlite3_open = mem_open,
      sqlite3_prepare = mem_prepare, sqlite3_run = mem_run, sqlite3_exec = mem_exec\<rparr>"

definition mem_tbl :: "mem_db \<Rightarrow> table" where
  "mem_tbl db = map_of (mem_rows db)"

definition mem_up :: "mem_db \<Rightarrow> bool" where
  "mem_up db \<longleftrightarrow> mem_faults db = [] \<and> mem_has_created db"

section \<open>The engine meets the laws\<close>

lemma mem_platform_sel [simp, eval_simps]:
  "getenv mem_platform = (\<lambda>_. None)" "xauth_db_default mem_platform = ''db/auth''"
  "sqlite3_open mem_platform = mem_open" "sqlite3_prepare mem_platform = mem_prepare"
  "sqlite3_run mem_platform = mem_run" "sqlite3_exec mem_platform = mem_exec"
  by (simp_all add: mem_platform_def)

lemma sql_distinct [simp]:
  "sql_list \<noteq> sql_table_info" "sql_table_info \<noteq> sql_list" "sql_insert \<noteq> sql_list"
  "sql_list \<noteq> sql_insert" "sql_find \<noteq> sql_insert" "sql_find \<noteq> sql_list"
  "sql_set_status \<noteq> sql_insert" "sql_set_status \<noteq> sql_list"
  "sql_set_note \<noteq> sql_insert" "sql_set_note \<noteq> sql_list"
  "sql_table_info \<noteq> sql_insert" "sql_insert \<noteq> sql_table_info"
  by (simp_all add: sql_list_def sql_table_info_def sql_insert_def sql_find_def
      sql_set_status_def sql_set_note_def)

lemma mem_fault_rows [simp]: "mem_rows (snd (mem_fault db)) = mem_rows db"
  by (simp add: mem_fault_def split: list.splits)

lemma mem_fault_up [simp]: "mem_faults db = [] \<Longrightarrow> mem_fault db = (False, db)"
  by (simp add: mem_fault_def)

lemma mem_fault_tblD: "mem_fault db = (f, db') \<Longrightarrow> mem_rows db' = mem_rows db"
  using mem_fault_rows [of db] by simp

lemma table_rows_mem:
  "table_rows (map_of xs) = map (\<lambda>i. (i, the (map_of xs i))) (sort (remdups (map fst xs)))"
  by (simp add: table_rows_def dom_map_of_conv_image_fst sorted_list_of_set_sort_remdups
      flip: set_map)

lemmas mem_stmt_defs =
  mem_run_def mem_stmt_def mem_select_def mem_insert_def mem_update_def mem_list_def
  mem_table_info_def stmt_ok_def stmt_failed_def text_column_def int_column_def mem_tbl_def

lemma sql_datetime_sample: "sql_datetime ''2026-09-18 12:00:00''"
  unfolding sql_datetime_def
  by (rule exI [of _ "''2026-09-18''"], rule exI [of _ "''12:00:00''"]) (simp add: is_digit_def)

interpretation mem: sqlite_available mem_platform mem_tbl mem_up
proof (unfold_locales, goal_cases)
  case 1 then show ?case by (simp add: mem_tbl_def finite_dom_map_of)
next
  case 2 then show ?case
    by (auto simp: mem_open_def mem_tbl_def split: prod.splits dest: mem_fault_tblD)
next
  case 3 then show ?case
    by (auto simp: mem_prepare_def mem_tbl_def split: prod.splits dest: mem_fault_tblD)
next
  case 4 then show ?case
    by (auto simp: mem_exec_def mem_tbl_def split: prod.splits if_splits dest!: mem_fault_tblD)
next
  case 5 then show ?case
    by (auto simp: mem_stmt_defs split: prod.splits if_splits dest!: mem_fault_tblD)
next
  case 6 then show ?case
    by (auto simp: mem_stmt_defs find_row_ok_def split: prod.splits if_splits option.splits
        dest!: mem_fault_tblD)
next
  case 7 then show ?case
    by (auto simp: mem_stmt_defs intro: sql_datetime_sample split: prod.splits if_splits
        dest!: mem_fault_tblD)
next
  case 8 then show ?case
    by (auto simp: mem_stmt_defs split: prod.splits if_splits option.splits dest!: mem_fault_tblD)
next
  case 9 then show ?case
    by (auto simp: mem_stmt_defs split: prod.splits if_splits option.splits dest!: mem_fault_tblD)
next
  case 10 then show ?case
    by (auto simp: mem_stmt_defs table_rows_mem list_row_ok_def list_all2_map1 list_all2_map2
        list_all2_same split: prod.splits if_splits dest!: mem_fault_tblD)
next
  case 11 then show ?case by (simp add: mem_open_def mem_up_def)
next
  case 12 then show ?case by (auto simp: mem_prepare_def mem_up_def)
next
  case 13 then show ?case
    by (auto simp: mem_stmt_defs mem_up_def split: list.splits sql_bind.splits option.splits)
next
  case 14 then show ?case by (simp add: mem_stmt_defs mem_up_def)
next
  case 15 then show ?case by (simp add: mem_stmt_defs mem_up_def)
next
  case 16 then show ?case by (auto simp: mem_stmt_defs mem_up_def split: option.splits)
next
  case 17 then show ?case by (auto simp: mem_stmt_defs mem_up_def split: option.splits)
next
  case 18 then show ?case by (simp add: mem_stmt_defs mem_up_def)
qed

section \<open>A sample keystore\<close>

text \<open>Two devices, one active and one revoked, for closed instances of the properties.\<close>

definition sample_key :: string where
  "sample_key = replicate 128 (CHR ''a'')"

definition sample_row :: "int \<Rightarrow> krow" where
  "sample_row s = \<lparr>r_key = sample_key, r_status = s, r_note = ''bench'', r_created = None\<rparr>"

definition sample_db :: mem_db where
  "sample_db =
     \<lparr>mem_rows = [(''7Q5V'', sample_row 1), (''AB12'', sample_row 0)], mem_faults = [],
      mem_has_created = True\<rparr>"

lemma sample_ids [simp]: "valid_device_id ''7Q5V''" "valid_device_id ''AB12''" "valid_device_id ''ZZZZ''"
  by (simp_all add: valid_device_id_iff crockford_char_def)

lemma sample_db_up [simp]: "mem_up sample_db"
  by (simp add: mem_up_def sample_db_def)

lemma sample_tbl [simp]:
  "mem_tbl sample_db = [''7Q5V'' \<mapsto> sample_row 1, ''AB12'' \<mapsto> sample_row 0]"
  by (simp add: mem_tbl_def sample_db_def fun_upd_twist)

lemma c_str_sample_key [simp]: "c_str sample_key = sample_key"
  by (rule c_str_id) (simp add: sample_key_def)

lemma length_sample_key [simp]: "length sample_key = 128"
  by (simp add: sample_key_def)

lemma sample_row_sel [simp]:
  "r_key (sample_row s) = sample_key" "r_status (sample_row s) = s"
  "r_note (sample_row s) = ''bench''" "r_created (sample_row s) = None"
  by (simp_all add: sample_row_def)

end
