(* ===== verification/Enrolment.thy ===== *)
theory Enrolment
  imports Keygen Memory_Sqlite
begin

text \<open>
  Placing a new device under a free identifier: the loop of \<open>cmd_add\<close> in
  \<open>tools/provision/main.cpp\<close> and that of \<open>handle_add\<close> in \<open>admin/main.cpp\<close>. The two are
  written separately in the sources; the lemma \<open>add_attempts_eq\<close> shows that they do the same,
  so the rest is proved once. The well-formedness of a table and the fact that every writer of
  the keystore keeps it are here too, because both writers rest on them.
\<close>

section \<open>The code\<close>

text \<open>
  The loop of \<open>cmd_add\<close> with \<open>n\<close> attempts left, for a device \<open>d\<close> that has no identifier
  yet. The result is \<open>placed\<close> and the device; an exception of the generator leaves the loop.
\<close>

fun draw_until_free ::
    "'db platform \<Rightarrow> 'r rng \<Rightarrow> int \<Rightarrow> nat \<Rightarrow> device \<Rightarrow> 'r \<Rightarrow> 'db \<Rightarrow> (bool \<times> device) cxx \<times> 'r \<times> 'db" where
  "draw_until_free P R id_length 0 d r db = (Inr (False, d), r, db)"
| "draw_until_free P R id_length (Suc n) d r db =
     (case generate_device_id R id_length r of
        (Inl e, r1) \<Rightarrow> (Inl e, r1, db)
      | (Inr ident, r1) \<Rightarrow>
        let d1 = d\<lparr>dev_id := ident\<rparr>;
            (l, existing, db1) = find_device P ident device_default db
        in if l = Error then (Inr (False, d1), r1, db1)
           else if l = NotFound then
             (case add_device P d1 db1 of
                (True, db2) \<Rightarrow> (Inr (True, d1), r1, db2)
              | (False, db2) \<Rightarrow> draw_until_free P R id_length n d1 r1 db2)
           else draw_until_free P R id_length n d1 r1 db1)"

text \<open>The loop of \<open>handle_add\<close>: the reply starts as \<open>ERR\<close>.\<close>

fun add_attempts ::
    "'db platform \<Rightarrow> 'r rng \<Rightarrow> nat \<Rightarrow> device \<Rightarrow> 'r \<Rightarrow> 'db \<Rightarrow> string cxx \<times> 'r \<times> 'db" where
  "add_attempts P R 0 d r db = (Inr (''ERR'' @ [nl]), r, db)"
| "add_attempts P R (Suc n) d r db =
     (case generate_device_id R (int DEVICE_ID_MIN) r of
        (Inl e, r1) \<Rightarrow> (Inl e, r1, db)
      | (Inr ident, r1) \<Rightarrow>
        let d1 = d\<lparr>dev_id := ident\<rparr>;
            (l, existing, db1) = find_device P ident device_default db
        in if l = Error then (Inr (''ERR'' @ [nl]), r1, db1)
           else if l = NotFound then
             (case add_device P d1 db1 of
                (True, db2) \<Rightarrow>
                  (Inr (''OK '' @ dev_id d1 @ '' '' @ dev_key d1 @ [nl]), r1, db2)
              | (False, db2) \<Rightarrow> add_attempts P R n d1 r1 db2)
           else add_attempts P R n d1 r1 db1)"

section \<open>The two loops agree\<close>

definition add_reply :: "bool \<times> device \<Rightarrow> string" where
  "add_reply = (\<lambda>(placed, d).
     if placed then ''OK '' @ dev_id d @ '' '' @ dev_key d @ [nl] else ''ERR'' @ [nl])"

lemma add_attempts_eq:
  "add_attempts P R n d r db =
     (case draw_until_free P R 4 n d r db of (res, r', db') \<Rightarrow> (map_sum id add_reply res, r', db'))"
proof (induction n arbitrary: d r db)
  case 0
  then show ?case by (simp add: add_reply_def)
next
  case (Suc n)
  obtain res r1 where g: "generate_device_id R 4 r = (res, r1)" by fastforce
  show ?case
  proof (cases res)
    case (Inl e)
    then show ?thesis by (simp add: g DEVICE_ID_MIN_def)
  next
    case (Inr ident)
    obtain l ex db1 where f: "find_device P ident device_default db = (l, ex, db1)"
      by (metis prod_cases3)
    obtain ok db2 where a: "add_device P (d\<lparr>dev_id := ident\<rparr>) db1 = (ok, db2)" by fastforce
    show ?thesis
      by (cases l; cases ok) (simp_all add: g f a Inr Suc.IH DEVICE_ID_MIN_def add_reply_def)
  qed
qed

section \<open>Well-formed tables\<close>

text \<open>
  What every writer of the keystore keeps: identifiers and keys as the generator makes them, the
  status a flag, the label printable. \<open>OK\<close> is the default label of the schema.
\<close>

definition wf_row :: "string \<Rightarrow> krow \<Rightarrow> bool" where
  "wf_row i r \<longleftrightarrow>
     valid_device_id i \<and> valid_key (r_key r) \<and> r_status r \<in> {0, 1} \<and> valid_label (r_note r) \<and>
     (case r_created r of None \<Rightarrow> True | Some ts \<Rightarrow> sql_datetime ts)"

definition wf_table :: "table \<Rightarrow> bool" where
  "wf_table t \<longleftrightarrow> (\<forall>i r. t i = Some r \<longrightarrow> wf_row i r)"

lemma label_char_special: "label_char c \<Longrightarrow> c \<noteq> CHR 0x00 \<and> c \<noteq> nl"
  by (auto simp: label_char_def)

lemma valid_label_iff: "valid_label s \<longleftrightarrow> s \<noteq> [] \<and> length s \<le> 64 \<and> (\<forall>c \<in> set s. label_char c)"
  by (simp add: valid_label_def list_all_iff not_less)

lemma valid_label_chars:
  assumes "valid_label s"
  shows "s \<noteq> []" "CHR 0x00 \<notin> set s" "nl \<notin> set s"
  using assms label_char_special unfolding valid_label_iff by blast+

lemma c_str_label [simp]: "valid_label s \<Longrightarrow> c_str s = s"
  by (simp add: c_str_id valid_label_chars)

lemma c_str_key [simp]: "valid_key k \<Longrightarrow> c_str k = k"
  by (simp add: c_str_id valid_key_special)

lemma wf_tableD: "wf_table t \<Longrightarrow> t i = Some r \<Longrightarrow> wf_row i r"
  by (simp add: wf_table_def)

lemma wf_table_upd: "wf_table t \<Longrightarrow> wf_row i r \<Longrightarrow> wf_table (t(i \<mapsto> r))"
  by (simp add: wf_table_def)

lemma wf_table_status:
  assumes "wf_table t" and "update_spec t i (\<lambda>r. r\<lparr>r_status := s\<rparr>) l t'"
    and "l = Found \<longrightarrow> s \<in> {0, 1}"
  shows "wf_table t'"
proof (cases l)
  case Found
  with assms(2) obtain r where r: "t i = Some r" and t': "t' = t(i \<mapsto> r\<lparr>r_status := s\<rparr>)"
    by (auto simp: update_spec_def)
  from assms(3) Found have "s \<in> {0, 1}" by blast
  then have "wf_row i (r\<lparr>r_status := s\<rparr>)"
    using wf_tableD [OF assms(1) r] by (simp add: wf_row_def)
  then show ?thesis using assms(1) by (simp add: t' wf_table_upd)
qed (use assms(1,2) in \<open>simp_all add: update_spec_def\<close>)

lemma wf_table_note:
  assumes "wf_table t" and "update_spec t i (\<lambda>r. r\<lparr>r_note := c_str n\<rparr>) l t'" and "valid_label n"
  shows "wf_table t'"
proof (cases l)
  case Found
  with assms(2,3) obtain r where r: "t i = Some r" and t': "t' = t(i \<mapsto> r\<lparr>r_note := n\<rparr>)"
    by (auto simp: update_spec_def)
  have "wf_row i (r\<lparr>r_note := n\<rparr>)"
    using wf_tableD [OF assms(1) r] assms(3) by (simp add: wf_row_def)
  then show ?thesis using assms(1) by (simp add: t' wf_table_upd)
qed (use assms(1,2) in \<open>simp_all add: update_spec_def\<close>)

lemma wf_table_sample: "wf_table (mem_tbl sample_db)"
proof -
  have "wf_row i (sample_row s)" if "valid_device_id i" "s = 0 \<or> s = 1" for i s
    using that by (auto simp: wf_row_def valid_key_def hex_char_def hex_alphabet_def sample_key_def
        valid_label_iff label_char_def)
  then show ?thesis by (simp add: wf_table_def)
qed

section \<open>What placing a device does to the table\<close>

text \<open>
  The effect of one successful placement, on the table: a row nobody had, active or revoked as
  the device says. \<open>d\<close> is the device without identifier, \<open>d'\<close> the one placed.
\<close>

definition placed_spec :: "table \<Rightarrow> device \<Rightarrow> device \<Rightarrow> table \<Rightarrow> bool" where
  "placed_spec t d d' t' \<longleftrightarrow>
     (\<exists>i ts. d' = d\<lparr>dev_id := i\<rparr> \<and> valid_device_id i \<and> t i = None \<and> dev_status d \<in> {0, 1} \<and>
        sql_datetime ts \<and> t' = t(i \<mapsto> new_row d ts))"

lemma placed_specI:
  "valid_device_id i \<Longrightarrow> t i = None \<Longrightarrow> dev_status d \<in> {0, 1} \<Longrightarrow> sql_datetime ts \<Longrightarrow>
   placed_spec t d (d\<lparr>dev_id := i\<rparr>) (t(i \<mapsto> new_row d ts))"
  unfolding placed_spec_def by blast

lemma new_row_id [simp]: "new_row (d\<lparr>dev_id := i\<rparr>) ts = new_row d ts"
  by (simp add: new_row_def)

lemma placed_spec_id [simp]: "placed_spec t (d\<lparr>dev_id := i\<rparr>) d' t' = placed_spec t d d' t'"
  by (simp add: placed_spec_def)

lemma wf_table_placed:
  assumes "wf_table t" and "placed_spec t d d' t'" and "valid_key (dev_key d)"
    and "valid_label (dev_note d)"
  shows "wf_table t'"
  using assms by (auto simp: placed_spec_def wf_row_def new_row_def intro!: wf_table_upd)

text \<open>No row disappears and no key changes.\<close>

definition keys_kept :: "table \<Rightarrow> table \<Rightarrow> bool" where
  "keys_kept t t' \<longleftrightarrow> (\<forall>i k. t i = Some k \<longrightarrow> (\<exists>k'. t' i = Some k' \<and> r_key k' = r_key k))"

lemma keys_kept_refl [simp]: "keys_kept t t"
  by (simp add: keys_kept_def)

lemma keys_kept_trans: "keys_kept t u \<Longrightarrow> keys_kept u v \<Longrightarrow> keys_kept t v"
  unfolding keys_kept_def by metis

lemma keys_kept_status: "update_spec t i (\<lambda>r. r\<lparr>r_status := s\<rparr>) l t' \<Longrightarrow> keys_kept t t'"
  by (cases l) (auto simp: update_spec_def keys_kept_def)

lemma keys_kept_note: "update_spec t i (\<lambda>r. r\<lparr>r_note := n\<rparr>) l t' \<Longrightarrow> keys_kept t t'"
  by (cases l) (auto simp: update_spec_def keys_kept_def)

lemma keys_kept_placed: "placed_spec t d d' t' \<Longrightarrow> keys_kept t t'"
  by (auto simp: placed_spec_def keys_kept_def)

context sqlite_keystore
begin

lemma draw_until_free_spec:
  "draw_until_free P R len n d r db = (res, r', db') \<Longrightarrow>
     (case res of
        Inr (placed, d') \<Rightarrow>
          if placed then placed_spec (tbl db) d d' (tbl db') else tbl db' = tbl db
      | Inl e \<Rightarrow> tbl db' = tbl db)"
proof (induction n arbitrary: d r db)
  case 0
  then show ?case by auto
next
  case (Suc n)
  obtain g r1 where g: "generate_device_id R len r = (g, r1)" by fastforce
  show ?case
  proof (cases g)
    case (Inl e)
    with Suc.prems g show ?thesis by auto
  next
    case (Inr ident)
    obtain l ex db1 where f: "find_device P ident device_default db = (l, ex, db1)"
      by (metis prod_cases3)
    obtain ok db2 where a: "add_device P (d\<lparr>dev_id := ident\<rparr>) db1 = (ok, db2)" by fastforce
    have t1: "tbl db1 = tbl db" by (rule ks.find_tbl [OF f])
    note add = ks.add_law [OF a, unfolded t1]
    show ?thesis
    proof (cases "l = NotFound \<and> ok")
      case True
      with Suc.prems g Inr f a add show ?thesis
        by (auto simp: add_spec_def intro!: placed_specI)
    next
      case False
      then consider "l = Error" | "l = NotFound" "\<not> ok" | "l = Found" by (cases l) auto
      then show ?thesis
      proof cases
        case 1
        with Suc.prems g Inr f t1 show ?thesis by auto
      next
        case 2
        with Suc.IH [of "d\<lparr>dev_id := ident\<rparr>" r1 db2] Suc.prems g Inr f a add show ?thesis
          by (auto simp: add_spec_def split: sum.splits)
      next
        case 3
        with Suc.IH [of "d\<lparr>dev_id := ident\<rparr>" r1 db1] Suc.prems g Inr f t1 show ?thesis
          by (auto split: sum.splits)
      qed
    qed
  qed
qed

end

section \<open>When a device is placed\<close>

text \<open>The identifiers of \<open>n\<close> successive draws; \<open>None\<close> when the generator fails on the way.\<close>

fun drawn_ids :: "'r rng \<Rightarrow> int \<Rightarrow> nat \<Rightarrow> 'r \<Rightarrow> string list option" where
  "drawn_ids R len 0 r = Some []"
| "drawn_ids R len (Suc n) r =
     (case generate_device_id R len r of
        (Inl e, r1) \<Rightarrow> None
      | (Inr i, r1) \<Rightarrow> map_option ((#) i) (drawn_ids R len n r1))"

context sqlite_available
begin

lemma draw_until_free_up:
  assumes "csprng R" and "4 \<le> len" and "len \<le> 8"
  shows "up db \<Longrightarrow> dev_status d \<in> {0, 1} \<Longrightarrow> drawn_ids R len n r = Some ids \<Longrightarrow>
    \<exists>d' r' db'. draw_until_free P R len n d r db =
        (Inr (List.find (\<lambda>i. tbl db i = None) ids \<noteq> None, d'), r', db') \<and>
      (\<forall>i. List.find (\<lambda>i. tbl db i = None) ids = Some i \<longrightarrow> d' = d\<lparr>dev_id := i\<rparr>)"
proof (induction n arbitrary: d r db ids)
  case 0
  then show ?case by simp
next
  case (Suc n)
  obtain i r1 ids' where g: "generate_device_id R len r = (Inr i, r1)"
      and ids': "drawn_ids R len n r1 = Some ids'" and ids: "ids = i # ids'"
    using Suc.prems(3) by (auto split: prod.splits sum.splits)
  have valid: "valid_device_id i"
    using generate_device_id_valid [OF assms(1) g assms(2,3)] by blast
  show ?case
  proof (cases "tbl db i")
    case None
    obtain db1 where f: "find_device P i device_default db = (NotFound, device_default, db1)"
        "tbl db1 = tbl db" "up db1"
      using ks.find_absent [OF Suc.prems(1) None] by blast
    obtain ok db2 where a: "add_device P (d\<lparr>dev_id := i\<rparr>) db1 = (ok, db2)" by fastforce
    have ok using add_device_up [OF f(3) a] valid Suc.prems(2) None f(2) by auto
    then show ?thesis using g f a None by (simp add: ids)
  next
    case (Some k)
    obtain db1 where f: "find_device P i device_default db =
        (Found, found_device i k device_default, db1)" "tbl db1 = tbl db" "up db1"
      using ks.find_present [OF Suc.prems(1) valid Some] by blast
    from Suc.IH [OF f(3) _ ids', of "d\<lparr>dev_id := i\<rparr>"] Suc.prems(2)
    show ?thesis using g f(1,2) Some by (simp add: ids)
  qed
qed

end

section \<open>Properties\<close>

text \<open>
  C23. The keystore keeps what it is given. While it answers, \<open>add_device\<close> succeeds exactly for a
  well-formed identifier that is not taken and a status of 0 or 1. After a success a lookup of
  the identifier finds the key, the status and the label that were stored, each up to its first
  NUL, every other lookup answers as before, and a second insertion under the identifier fails.
\<close>

theorem keystore_add_find:
  assumes "sqlite_available P tbl up" and "up db" and "add_device P d db = (ok, db1)"
  shows "(ok \<longleftrightarrow> valid_device_id (dev_id d) \<and> dev_status d \<in> {0, 1} \<and> tbl db (dev_id d) = None) \<and>
    (ok \<longrightarrow>
      (\<exists>db2. find_device P (dev_id d) out db1 = (Found, out\<lparr>dev_id := dev_id d,
         dev_key := c_str (dev_key d), dev_status := dev_status d, dev_note := c_str (dev_note d)\<rparr>, db2)) \<and>
      (\<forall>j. j \<noteq> dev_id d \<longrightarrow> fst (find_device P j out db1) = fst (find_device P j out db) \<and>
         fst (snd (find_device P j out db1)) = fst (snd (find_device P j out db))) \<and>
      (\<forall>d'. dev_id d' = dev_id d \<longrightarrow> \<not> fst (add_device P d' db1)))"
proof -
  let ?d = "out\<lparr>dev_id := dev_id d, dev_key := c_str (dev_key d), dev_status := dev_status d,
      dev_note := c_str (dev_note d)\<rparr>"
  note ks = sqlite_available.axioms(1) [OF assms(1)]
  note iff = sqlite_available.keystore_add_iff [OF assms(1)]
  have up: "up db1" using sqlite_available.add_device_up [OF assms] by blast
  have taken: "\<exists>db2. find_device P (dev_id d) out db1 = (Found, ?d, db2)"
    "tbl db1 (dev_id d) \<noteq> None" "\<And>j. j \<noteq> dev_id d \<Longrightarrow> tbl db1 j = tbl db j" if ok
    using sqlite_available.keystore_find_after_add [OF assms(1,2), of d db1 out] that assms(3)
      sqlite_keystore.add_device_refines [OF ks assms(3)] by (auto simp: add_spec_def)
  have "\<not> fst (add_device P d' db1)" if ok "dev_id d' = dev_id d" for d'
    using iff [OF up, of d' "fst (add_device P d' db1)" "snd (add_device P d' db1)"] taken(2) that by simp
  moreover have "fst (find_device P j out db1) = fst (find_device P j out db) \<and>
      fst (snd (find_device P j out db1)) = fst (snd (find_device P j out db))" if ok "j \<noteq> dev_id d" for j
    using sqlite_available.keystore_find_same_row [OF assms(1,2) up taken(3) [OF that]]
    by (metis prod.collapse)
  ultimately show ?thesis using iff [OF assms(2,3)] taken(1) by blast
qed

theorem keystore_add_find_witness:
  "\<exists>ok db1. add_device mem_platform (device_default\<lparr>dev_id := ''ZZZZ'', dev_status := 1\<rparr>) sample_db = (ok, db1) \<and>
    ok \<and> \<not> fst (add_device mem_platform (device_default\<lparr>dev_id := ''ZZZZ''\<rparr>) db1)"
proof -
  let ?d = "device_default\<lparr>dev_id := ''ZZZZ'', dev_status := 1\<rparr>"
  obtain ok db1 where a: "add_device mem_platform ?d sample_db = (ok, db1)" by fastforce
  from keystore_add_find [OF mem.sqlite_available_axioms sample_db_up a] a show ?thesis
    by (auto simp: device_default_def)
qed

end
