(* ===== verification/Wire.thy ===== *)
theory Wire
  imports Prelude "HOL-Library.Sublist"
begin

text \<open>
  One request per connection over a Unix socket: reading the line, writing the reply, draining
  the rest and checking the peer. \<open>verifier/main.cpp\<close> and \<open>admin/main.cpp\<close> carry the same
  code with different sizes, so the loops take the sizes as arguments.

  The kernel's side of a connection is a script: what the successive \<open>read\<close> and \<open>write\<close>
  calls find. A \<open>read\<close> never returns more than it asked for; what is left of a chunk stays
  for the next call. The end of a script behaves like a peer that has gone away.
\<close>

section \<open>System calls\<close>

datatype read_event = Bytes string | Read_intr | Read_end

datatype read_result = Got string | Interrupted | Got_nothing

fun sys_read :: "nat \<Rightarrow> read_event list \<Rightarrow> read_result \<times> read_event list" where
  "sys_read n [] = (Got_nothing, [])"
| "sys_read n (Read_intr # evs) = (Interrupted, evs)"
| "sys_read n (Read_end # evs) = (Got_nothing, evs)"
| "sys_read n (Bytes s # evs) =
     (if s = [] then (Got_nothing, evs)
      else if length s \<le> n then (Got s, evs)
      else (Got (take n s), Bytes (drop n s) # evs))"

datatype write_event = Wrote nat | Write_intr | Write_fail

text \<open>How much a script can still deliver: the measure of the reading loops.\<close>

fun event_size :: "read_event list \<Rightarrow> nat" where
  "event_size [] = 0"
| "event_size (Bytes s # evs) = Suc (length s + event_size evs)"
| "event_size (Read_intr # evs) = Suc (event_size evs)"
| "event_size (Read_end # evs) = Suc (event_size evs)"

lemma sys_read_Interrupted: "sys_read n evs = (Interrupted, evs') \<Longrightarrow> event_size evs' < event_size evs"
  by (induction n evs rule: sys_read.induct) (auto split: if_splits)

lemma sys_read_Got:
  "sys_read n evs = (Got s, evs') \<Longrightarrow> 0 < n \<Longrightarrow>
   event_size evs' < event_size evs \<and> s \<noteq> [] \<and> length s \<le> n"
  by (induction n evs rule: sys_read.induct) (auto split: if_splits)

section \<open>The code\<close>

text \<open>
  \<open>read_line\<close>: \<open>buf\<close> holds the \<open>len\<close> bytes read so far of an array of \<open>cap\<close> bytes. \<open>None\<close>
  is the result \<open>false\<close>.
\<close>

function read_line_loop ::
    "nat \<Rightarrow> string \<Rightarrow> read_event list \<Rightarrow> string option \<times> read_event list" where
  "read_line_loop cap buf evs =
     (if length buf < cap then
        (case sys_read (cap - length buf) evs of
           (Interrupted, evs') \<Rightarrow> read_line_loop cap buf evs'
         | (Got_nothing, evs') \<Rightarrow> (None, evs')
         | (Got s, evs') \<Rightarrow>
             (case index_of nl s of
                Some i \<Rightarrow> (Some (buf @ take i s), evs')
              | None \<Rightarrow> read_line_loop cap (buf @ s) evs'))
      else (None, evs))"
  by pat_completeness auto
termination
  by (relation "measure (\<lambda>(cap, buf, evs). event_size evs)")
     (auto dest!: sym [of "(_, _)"] dest: sys_read_Interrupted sys_read_Got)

declare read_line_loop.simps [simp del]

text \<open>
  \<open>write_all\<close>: what reaches the peer. \<open>Wrote k\<close> is a call that accepts \<open>k\<close> bytes, at most
  as many as it was given.
\<close>

fun write_all :: "string \<Rightarrow> write_event list \<Rightarrow> string" where
  "write_all s [] = ''''"
| "write_all s (e # evs) =
     (if s = [] then ''''
      else case e of
        Write_intr \<Rightarrow> write_all s evs
      | Write_fail \<Rightarrow> ''''
      | Wrote k \<Rightarrow> if k = 0 then '''' else take k s @ write_all (drop k s) evs)"

text \<open>\<open>SO_PEERCRED\<close>: \<open>None\<close> where \<open>getsockopt\<close> fails.\<close>

definition peer_allowed :: "u32 option \<Rightarrow> int \<Rightarrow> bool" where
  "peer_allowed cred allow_uid =
     (if allow_uid < 0 then True
      else case cred of
        None \<Rightarrow> False
      | Some uid \<Rightarrow> int (unat uid) = allow_uid)"

text \<open>The admin daemon's own copies; the lemmas below replace them by the verifier's.\<close>

fun admin_write_all :: "string \<Rightarrow> write_event list \<Rightarrow> string" where
  "admin_write_all s [] = ''''"
| "admin_write_all s (e # evs) =
     (if s = [] then ''''
      else case e of
        Write_intr \<Rightarrow> admin_write_all s evs
      | Write_fail \<Rightarrow> ''''
      | Wrote k \<Rightarrow> if k = 0 then '''' else take k s @ admin_write_all (drop k s) evs)"

definition admin_peer_allowed :: "u32 option \<Rightarrow> int \<Rightarrow> bool" where
  "admin_peer_allowed cred allow_uid =
     (if allow_uid < 0 then True
      else case cred of
        None \<Rightarrow> False
      | Some uid \<Rightarrow> int (unat uid) = allow_uid)"

text \<open>The drain after the reply: at most 4096 bytes and one more buffer of \<open>sink\<close> bytes.\<close>

function drain_loop :: "nat \<Rightarrow> nat \<Rightarrow> read_event list \<Rightarrow> nat \<times> read_event list" where
  "drain_loop sink drained evs =
     (if drained < 4096 \<and> 0 < sink then
        (case sys_read sink evs of
           (Got s, evs') \<Rightarrow> drain_loop sink (drained + length s) evs'
         | (Interrupted, evs') \<Rightarrow> drain_loop sink drained evs'
         | (Got_nothing, evs') \<Rightarrow> (drained, evs'))
      else (drained, evs))"
  by pat_completeness auto
termination
  by (relation "measure (\<lambda>(sink, drained, evs). event_size evs)")
     (auto dest!: sym [of "(_, _)"] dest: sys_read_Interrupted sys_read_Got)

declare drain_loop.simps [simp del]

record conn =
  peer :: "u32 option"
  incoming :: "read_event list"
  outgoing :: "write_event list"

text \<open>
  What becomes of a connection: closed after some bytes reached the peer, or the whole process
  gone because an exception left the thread.
\<close>

datatype served = Closed string | Terminated cxx_error

section \<open>What a connection delivers\<close>

text \<open>The bytes of a script up to the first end, whatever chunks they came in.\<close>

fun stream_of :: "read_event list \<Rightarrow> string" where
  "stream_of [] = ''''"
| "stream_of (Read_intr # evs) = stream_of evs"
| "stream_of (Read_end # evs) = ''''"
| "stream_of (Bytes s # evs) = (if s = [] then '''' else s @ stream_of evs)"

lemma stream_of_sys_read:
  "0 < n \<Longrightarrow> stream_of evs =
     (case sys_read n evs of
        (Interrupted, evs') \<Rightarrow> stream_of evs'
      | (Got_nothing, evs') \<Rightarrow> ''''
      | (Got s, evs') \<Rightarrow> s @ stream_of evs')"
  by (induction n evs rule: sys_read.induct) (auto split: prod.splits)

lemma index_of_append_None:
  "x \<notin> set as \<Longrightarrow> index_of x (as @ bs) = map_option ((+) (length as)) (index_of x bs)"
  by (induction as; cases "index_of x bs") auto

lemma index_of_append_Some: "index_of x as = Some i \<Longrightarrow> index_of x (as @ bs) = Some i"
  by (induction as arbitrary: i) (auto split: if_splits)

lemma read_line_loop_stream:
  "fst (read_line_loop cap buf evs) =
     (case index_of nl (take (cap - length buf) (stream_of evs)) of
        None \<Rightarrow> None
      | Some i \<Rightarrow> Some (buf @ take i (stream_of evs)))"
proof (induction cap buf evs rule: read_line_loop.induct)
  case (1 cap buf evs)
  show ?case
  proof (cases "length buf < cap")
    case False
    then show ?thesis by (simp add: read_line_loop.simps [of cap buf evs])
  next
    case True
    then have pos: "0 < cap - length buf" by simp
    obtain r evs' where r: "sys_read (cap - length buf) evs = (r, evs')" by fastforce
    show ?thesis
    proof (cases r)
      case (Got s)
      have len: "length s \<le> cap - length buf" using sys_read_Got [OF _ pos] r Got by blast
      have str: "stream_of evs = s @ stream_of evs'"
        using stream_of_sys_read [OF pos, of evs] r Got by simp
      show ?thesis
      proof (cases "index_of nl s")
        case None
        then have "nl \<notin> set s" by (simp add: index_of_None_iff)
        with "1.IH" True r Got None str len show ?thesis
          by (simp add: read_line_loop.simps [of cap buf evs] index_of_append_None
              split: option.splits)
      next
        case (Some i)
        moreover have "i < length s" using index_of_SomeD [OF Some] by simp
        ultimately show ?thesis
          using True r Got str len
          by (simp add: read_line_loop.simps [of cap buf evs] index_of_append_Some)
      qed
    next
      case Interrupted
      with "1.IH" True r show ?thesis
        using stream_of_sys_read [OF pos, of evs]
        by (simp add: read_line_loop.simps [of cap buf evs] split: option.splits)
    next
      case Got_nothing
      with True r show ?thesis
        using stream_of_sys_read [OF pos, of evs]
        by (simp add: read_line_loop.simps [of cap buf evs])
    qed
  qed
qed

lemma read_line_loop_short:
  assumes "fst (read_line_loop cap [] evs) = Some line"
  shows "length line < cap" "nl \<notin> set line" "stream_of evs = line @ nl # drop (Suc (length line)) (stream_of evs)"
proof -
  from assms obtain i where i: "index_of nl (take cap (stream_of evs)) = Some i"
    and line: "line = take i (stream_of evs)"
    by (auto simp: read_line_loop_stream split: option.splits)
  from i have i': "index_of nl (stream_of evs) = Some i" and "i < cap"
    by (auto simp: index_of_take split: option.splits if_splits)
  note D = index_of_SomeD [OF i']
  show "length line < cap" using D \<open>i < cap\<close> by (simp add: line)
  show "nl \<notin> set line" using D by (simp add: line)
  show "stream_of evs = line @ nl # drop (Suc (length line)) (stream_of evs)"
    using index_of_split [OF i'] D by (simp add: line)
qed

section \<open>Writing and draining\<close>

text \<open>How many bytes a write script accepts before it fails or stops making progress.\<close>

fun accepted :: "write_event list \<Rightarrow> nat" where
  "accepted [] = 0"
| "accepted (Write_intr # evs) = accepted evs"
| "accepted (Write_fail # evs) = 0"
| "accepted (Wrote k # evs) = (if k = 0 then 0 else k + accepted evs)"

lemma write_all_Nil [simp]: "write_all [] evs = []"
  by (cases evs) simp_all

lemma write_all_eq: "write_all s evs = take (accepted evs) s"
proof (induction s evs rule: write_all.induct)
  case (1 s)
  then show ?case by simp
next
  case (2 s e evs)
  then show ?case by (cases "s = []"; cases e) (simp_all add: take_add)
qed

lemma admin_write_all_eq [simp]: "admin_write_all s evs = write_all s evs"
  by (induction s evs rule: admin_write_all.induct) (auto split: write_event.splits)

lemma admin_peer_allowed_eq [simp]: "admin_peer_allowed = peer_allowed"
  by (simp add: admin_peer_allowed_def peer_allowed_def fun_eq_iff)

lemma write_all_prefix: "prefix (write_all s evs) s"
  by (simp add: write_all_eq take_is_prefix)

lemma drain_loop_bound: "drained < 4096 + sink \<Longrightarrow> fst (drain_loop sink drained evs) < 4096 + sink"
proof (induction sink drained evs rule: drain_loop.induct)
  case (1 sink drained evs)
  show ?case
  proof (cases "drained < 4096 \<and> 0 < sink")
    case True
    obtain r evs' where r: "sys_read sink evs = (r, evs')" by fastforce
    show ?thesis
    proof (cases r)
      case (Got s)
      then have "length s \<le> sink" using sys_read_Got [of sink evs s evs'] r True by simp
      with "1.IH"(1) True r Got show ?thesis by (simp add: drain_loop.simps [of sink drained evs])
    next
      case Interrupted
      with "1.IH"(2) 1(3) True r show ?thesis by (simp add: drain_loop.simps [of sink drained evs])
    next
      case Got_nothing
      with 1(3) True r show ?thesis by (simp add: drain_loop.simps [of sink drained evs])
    qed
  next
    case False
    with 1(3) show ?thesis by (auto simp: drain_loop.simps [of sink drained evs])
  qed
qed

text \<open>
  All the bytes of a script, those behind an end included: what a loop has consumed is what
  is there before it and no longer after it.
\<close>

fun script_bytes :: "read_event list \<Rightarrow> string" where
  "script_bytes [] = ''''"
| "script_bytes (Bytes s # evs) = s @ script_bytes evs"
| "script_bytes (Read_intr # evs) = script_bytes evs"
| "script_bytes (Read_end # evs) = script_bytes evs"

lemma script_bytes_sys_read:
  "0 < n \<Longrightarrow> script_bytes evs =
     (case sys_read n evs of
        (Interrupted, evs') \<Rightarrow> script_bytes evs'
      | (Got_nothing, evs') \<Rightarrow> script_bytes evs'
      | (Got s, evs') \<Rightarrow> s @ script_bytes evs')"
  by (induction n evs rule: sys_read.induct) (auto split: prod.splits)

lemma drain_loop_consumes:
  assumes "0 < sink" "drain_loop sink drained evs = (n, evs')"
  shows "\<exists>s. script_bytes evs = s @ script_bytes evs' \<and> n = drained + length s \<and>
     prefix s (stream_of evs) \<and> (n < 4096 \<longrightarrow> s = stream_of evs)"
  using assms
proof (induction sink drained evs rule: drain_loop.induct)
  case (1 sink drained evs)
  obtain r evs1 where r: "sys_read sink evs = (r, evs1)" by fastforce
  note B = script_bytes_sys_read [OF 1(3), of evs] and S = stream_of_sys_read [OF 1(3), of evs]
  show ?case
  proof (cases "drained < 4096")
    case True
    show ?thesis
    proof (cases r)
      case (Got s)
      with 1(4) True r 1(3) have run: "drain_loop sink (drained + length s) evs1 = (n, evs')"
        by (simp add: drain_loop.simps [of sink drained evs])
      from "1.IH"(1) [OF _ r [symmetric] Got 1(3) run] True 1(3)
      obtain s' where "script_bytes evs1 = s' @ script_bytes evs'" "n = drained + length s + length s'"
        "prefix s' (stream_of evs1)" "n < 4096 \<longrightarrow> s' = stream_of evs1" by blast
      then show ?thesis using B S r Got by (intro exI [of _ "s @ s'"]) simp
    next
      case Interrupted
      with 1(4) True r 1(3) have run: "drain_loop sink drained evs1 = (n, evs')"
        by (simp add: drain_loop.simps [of sink drained evs])
      from "1.IH"(2) [OF _ r [symmetric] Interrupted 1(3) run] True 1(3)
      show ?thesis using B S r Interrupted by simp
    next
      case Got_nothing
      then show ?thesis using 1(3,4) True r B S by (simp add: drain_loop.simps [of sink drained evs])
    qed
  next
    case False
    then show ?thesis using 1(4) by (simp add: drain_loop.simps [of sink drained evs])
  qed
qed

section \<open>Properties\<close>

text \<open>
  What \<open>read_line\<close> returns depends only on the bytes that arrive, not on how the kernel
  cuts them into chunks or on interrupted calls: it is the text before the first line feed if
  that lies within the first \<open>cap\<close> bytes, and a rejection otherwise.
\<close>

theorem read_line_chunking:
  "fst (read_line_loop cap [] evs) =
     map_option (\<lambda>i. take i (stream_of evs)) (index_of nl (take cap (stream_of evs)))"
  by (simp add: read_line_loop_stream split: option.splits)

text \<open>
  \<open>write_all\<close> delivers a prefix of the reply, and exactly as much of it as the kernel
  accepts before the first error: an interrupted or short write loses and repeats nothing.
\<close>

theorem write_all_accepted:
  "write_all s evs = take (accepted evs) s \<and>
   (write_all s evs = s \<longleftrightarrow> length s \<le> accepted evs)"
  by (auto simp: write_all_eq)

text \<open>
  C39. Draining the request after the reply is bounded on what is taken from the connection,
  not on the loop's counter: the bytes consumed, all of them in order and none beyond the
  peer's end, are as many as the loop has counted, fewer than 4096 plus one buffer; and the
  loop stops before 4096 only when it has taken everything the peer had to send, so that a
  peer that sends less than that is drained completely before the close.
\<close>

theorem drain_loop_bounded:
  assumes "0 < sink" "drain_loop sink 0 evs = (n, evs')"
  shows "\<exists>s. script_bytes evs = s @ script_bytes evs' \<and> length s = n \<and> prefix s (stream_of evs) \<and>
     n < 4096 + sink \<and> (n < 4096 \<longrightarrow> s = stream_of evs)"
  using drain_loop_consumes [OF assms] drain_loop_bound [of 0 sink evs] assms(2) by auto

lemma drain_loop_bounded_witness:
  "(\<exists>s. script_bytes [Bytes (replicate 5000 CHR ''a''), Read_intr] = s @ script_bytes [Bytes (replicate 904 CHR ''a''), Read_intr] \<and>
     length s = 4096) \<and>
   (\<exists>s. ''x'' @ ''ABC'' = s @ ''ABC'' \<and> length s = 1 \<and> s = stream_of [Read_intr, Bytes ''x'', Read_end, Bytes ''ABC''])"
proof -
  have big: "drain_loop 256 0 [Bytes (replicate 5000 CHR ''a''), Read_intr] =
      (4096, [Bytes (replicate 904 CHR ''a''), Read_intr])"
    by (simp add: drain_loop.simps)
  have small: "drain_loop 256 0 [Read_intr, Bytes ''x'', Read_end, Bytes ''ABC''] = (1, [Bytes ''ABC''])"
    by (simp add: drain_loop.simps)
  show ?thesis
    using drain_loop_bounded [OF _ big] drain_loop_bounded [OF _ small] by auto
qed

end
