(* ===== verification/Admin.thy ===== *)
theory Admin
  imports Enrolment Wire
begin

text \<open>
  The admin daemon, \<open>admin/main.cpp\<close>: the only writer of the keystore at runtime. It handles
  one connection at a time, so a run of it is a sequence of whole requests. \<open>P\<close> is the
  platform of the keystore and \<open>R\<close> the random generator with its state \<open>r\<close>.
\<close>

section \<open>Requests\<close>

definition ADMIN_MAX_REQUEST :: nat where "ADMIN_MAX_REQUEST = 128"

definition ok_no :: "lookup \<Rightarrow> string" where
  "ok_no r = (if r = Found then ''OK'' @ [nl] else if r = NotFound then ''NO'' @ [nl] else ''ERR'' @ [nl])"

definition handle_add ::
    "'db platform \<Rightarrow> 'r rng \<Rightarrow> string \<Rightarrow> 'r \<Rightarrow> 'db \<Rightarrow> string cxx \<times> 'r \<times> 'db" where
  "handle_add P R label r db =
     (if \<not> valid_label label then (Inr (''ERR'' @ [nl]), r, db)
      else let d = device_default\<lparr>dev_status := 1, dev_note := label\<rparr> in
        case generate_key R r of
          (Inl e, r1) \<Rightarrow> (Inl e, r1, db)
        | (Inr key, r1) \<Rightarrow> add_attempts P R 16 (d\<lparr>dev_key := key\<rparr>) r1 db)"

definition device_line :: "device \<Rightarrow> string" where
  "device_line d =
     ''DEVICE '' @ dev_id d @ '' '' @ (if dev_status d = 1 then ''active'' else ''revoked'') @ '' '' @
     (if dev_created d = [] then ''-'' else dev_created d) @ '' '' @ dev_note d @ [nl]"

definition handle_list :: "'db platform \<Rightarrow> 'db \<Rightarrow> string \<times> 'db" where
  "handle_list P db =
     (let (ok, devices, db') = list_devices P [] db
      in if \<not> ok then (''ERR'' @ [nl], db')
         else (concat (map device_line devices) @ ''END'' @ [nl], db'))"

definition admin_handle_request ::
    "'db platform \<Rightarrow> 'r rng \<Rightarrow> string \<Rightarrow> 'r \<Rightarrow> 'db \<Rightarrow> string cxx \<times> 'r \<times> 'db" where
  "admin_handle_request P R line r db =
     (let sp = str_find line (CHR '' '') 0;
          cmd = (case sp of None \<Rightarrow> line | Some i \<Rightarrow> take i line);
          rest = (case sp of None \<Rightarrow> '''' | Some i \<Rightarrow> drop (i + 1) line)
      in if cmd = ''LIST'' \<and> rest = [] then
           (let (out, db') = handle_list P db in (Inr out, r, db'))
         else if cmd = ''ADD'' then handle_add P R rest r db
         else if cmd = ''REVOKE'' \<and> rest \<noteq> [] then
           (let (l, db') = set_device_status P rest 0 db in (Inr (ok_no l), r, db'))
         else if cmd = ''ACTIVATE'' \<and> rest \<noteq> [] then
           (let (l, db') = set_device_status P rest 1 db in (Inr (ok_no l), r, db'))
         else if cmd = ''LABEL'' then
           (case str_find rest (CHR '' '') 0 of
              None \<Rightarrow> (Inr (''ERR'' @ [nl]), r, db)
            | Some sp2 \<Rightarrow>
              let label = drop (sp2 + 1) rest in
              if \<not> valid_label label then (Inr (''ERR'' @ [nl]), r, db)
              else let (l, db') = set_device_note P (take sp2 rest) label db
                   in (Inr (ok_no l), r, db'))
         else (Inr (''ERR'' @ [nl]), r, db))"

section \<open>The created field\<close>

text \<open>\<open>s.find(pat, pos)\<close> for a string \<open>pat\<close>.\<close>

fun sub_index :: "string \<Rightarrow> string \<Rightarrow> nat option" where
  "sub_index pat [] = (if pat = [] then Some 0 else None)"
| "sub_index pat (c # s) =
     (if prefix pat (c # s) then Some 0 else map_option Suc (sub_index pat s))"

definition str_find_str :: "string \<Rightarrow> string \<Rightarrow> nat \<Rightarrow> nat option" where
  "str_find_str s pat pos =
     (if length s < pos then None else map_option (\<lambda>i. pos + i) (sub_index pat (drop pos s)))"

lemma sub_index_SomeD: "sub_index pat s = Some i \<Longrightarrow> i \<le> length s \<and> prefix pat (drop i s)"
  by (induction pat s arbitrary: i rule: sub_index.induct) (auto split: if_splits)

lemma str_find_str_SomeD:
  assumes "str_find_str s pat pos = Some p"
  shows "pos \<le> p" "p \<le> length s" "prefix pat (drop p s)"
proof -
  from assms obtain i where i: "sub_index pat (drop pos s) = Some i" "p = pos + i" "pos \<le> length s"
    by (auto simp: str_find_str_def split: if_splits)
  with sub_index_SomeD [OF i(1)] show "pos \<le> p" "p \<le> length s" "prefix pat (drop p s)"
    by (auto simp: add.commute)
qed

lemma str_find_SomeD:
  assumes "str_find s c pos = Some p"
  shows "pos \<le> p" "p < length s" "s ! p = c"
  using assms index_of_SomeD [of c "drop pos s"] by (auto simp: str_find_def)

text \<open>The body of the loop: the date and the time of the row at \<open>pos\<close> are joined.\<close>

definition join_date :: "string \<Rightarrow> nat \<Rightarrow> string" where
  "join_date s pos =
     (let a = str_find s (CHR '' '') (pos + 7);
          b = (case a of None \<Rightarrow> None | Some a \<Rightarrow> str_find s (CHR '' '') (a + 1))
      in case b of
           None \<Rightarrow> s
         | Some b \<Rightarrow>
             if b + 11 < length s \<and> s ! (b + 11) = CHR '' '' \<and> s ! (b + 1) \<noteq> CHR ''-''
             then s[b + 11 := CHR ''T''] else s)"

lemma length_join_date [simp]: "length (join_date s pos) = length s"
  by (simp add: join_date_def Let_def split: option.splits)

function date_loop :: "string \<Rightarrow> nat \<Rightarrow> string" where
  "date_loop s pos =
     (case str_find_str s ''DEVICE '' pos of
        None \<Rightarrow> s
      | Some p \<Rightarrow>
        let s' = join_date s p in
        case str_find s' nl p of
          None \<Rightarrow> s'
        | Some q \<Rightarrow> date_loop s' q)"
  by pat_completeness auto

lemma join_date_before:
  assumes "i < pos + 19"
  shows "join_date s pos ! i = s ! i"
  using assms
  by (auto simp: join_date_def Let_def split: option.splits dest!: str_find_SomeD(1))

lemma join_date_device:
  assumes "str_find_str s ''DEVICE '' pos = Some p" and "str_find (join_date s p) nl p = Some q"
  shows "pos \<le> p" "p < q" "q < length s"
proof -
  note d = str_find_str_SomeD [OF assms(1)] and f = str_find_SomeD [OF assms(2)]
  from d(3) obtain z where "drop p s = ''DEVICE '' @ z" by (auto simp: prefix_def)
  then have "s ! p = CHR ''D''" by (metis append_Cons append_Nil nth_append_length append_take_drop_id
      length_take d(2) min.absorb2)
  then have "join_date s p ! p = CHR ''D''" by (simp add: join_date_before)
  with f(3) have "p \<noteq> q" by auto
  with d(1) f show "pos \<le> p" "p < q" "q < length s" by simp_all
qed

lemma join_date_decreases:
  "str_find_str s ''DEVICE '' pos = Some p \<Longrightarrow> str_find (join_date s p) nl p = Some q \<Longrightarrow>
   length s - q < length s - pos"
  using join_date_device [of s pos p q] by linarith

termination date_loop
  by (relation "measure (\<lambda>(s, pos). length s - pos)") (auto dest: join_date_decreases)

declare date_loop.simps [simp del]

definition single_token_dates :: "string \<Rightarrow> string" where
  "single_token_dates s = date_loop s 0"

section \<open>One connection\<close>

definition admin_read_line :: "read_event list \<Rightarrow> string option \<times> read_event list" where
  "admin_read_line evs = read_line_loop (ADMIN_MAX_REQUEST + 1) '''' evs"

text \<open>The body of the accept loop of \<open>main\<close>, for one accepted connection.\<close>

definition admin_serve ::
    "'db platform \<Rightarrow> 'r rng \<Rightarrow> int \<Rightarrow> conn \<Rightarrow> 'r \<Rightarrow> 'db \<Rightarrow> served \<times> nat \<times> 'r \<times> 'db" where
  "admin_serve P R allow_uid c r db =
     (if \<not> admin_peer_allowed (peer c) allow_uid
      then (Closed '''', fst (drain_loop 256 0 (incoming c)), r, db)
      else case admin_read_line (incoming c) of
        (Some line, evs) \<Rightarrow>
          (case admin_handle_request P R line r db of
             (Inl e, r', db') \<Rightarrow> (Terminated e, 0, r', db')
           | (Inr out, r', db') \<Rightarrow>
               (Closed (admin_write_all (single_token_dates out) (outgoing c)),
                fst (drain_loop 256 0 evs), r', db'))
      | (None, evs) \<Rightarrow>
          (Closed (admin_write_all (''ERR'' @ [nl]) (outgoing c)), fst (drain_loop 256 0 evs), r, db))"

section \<open>What a request is\<close>

text \<open>The requests the protocol has; everything else is \<open>Malformed\<close>.\<close>

datatype admin_request =
    List_devices | Add string | Revoke string | Activate string | Label string string | Malformed

definition parse_request :: "string \<Rightarrow> admin_request" where
  "parse_request line =
     (case split_on (CHR '' '') line of
        [] \<Rightarrow> Malformed
      | cmd # ws \<Rightarrow>
        let rest = join_with (CHR '' '') ws in
        if cmd = ''LIST'' \<and> rest = [] then List_devices
        else if cmd = ''ADD'' then (if valid_label rest then Add rest else Malformed)
        else if cmd = ''REVOKE'' \<and> rest \<noteq> [] then Revoke rest
        else if cmd = ''ACTIVATE'' \<and> rest \<noteq> [] then Activate rest
        else if cmd = ''LABEL'' then
          (case ws of
             i # w # ws' \<Rightarrow>
               let l = join_with (CHR '' '') (w # ws') in if valid_label l then Label i l else Malformed
           | _ \<Rightarrow> Malformed)
        else Malformed)"

definition admin_dispatch ::
    "'db platform \<Rightarrow> 'r rng \<Rightarrow> admin_request \<Rightarrow> 'r \<Rightarrow> 'db \<Rightarrow> string cxx \<times> 'r \<times> 'db" where
  "admin_dispatch P R req r db =
     (case req of
        List_devices \<Rightarrow> (let (out, db') = handle_list P db in (Inr out, r, db'))
      | Add l \<Rightarrow> handle_add P R l r db
      | Revoke i \<Rightarrow> (let (l, db') = set_device_status P i 0 db in (Inr (ok_no l), r, db'))
      | Activate i \<Rightarrow> (let (l, db') = set_device_status P i 1 db in (Inr (ok_no l), r, db'))
      | Label i n \<Rightarrow> (let (l, db') = set_device_note P i n db in (Inr (ok_no l), r, db'))
      | Malformed \<Rightarrow> (Inr (''ERR'' @ [nl]), r, db))"

lemma str_find_split_on:
  "split_on c s = (case str_find s c 0 of
     None \<Rightarrow> [s]
   | Some i \<Rightarrow> take i s # split_on c (drop (i + 1) s))"
proof (cases "index_of c s")
  case None
  then have "c \<notin> set s" by (simp add: index_of_None_iff)
  with None show ?thesis by (simp add: str_find_def split_on_no_sep)
next
  case (Some i)
  then have "c \<notin> set (take i s)" using index_of_SomeD by fastforce
  then show ?thesis
    using split_on_append [of c "take i s" "drop (Suc i) s"] index_of_split [OF Some]
    by (simp add: str_find_def Some)
qed

lemma admin_handle_request_eq:
  "admin_handle_request P R line r db = admin_dispatch P R (parse_request line) r db"
proof (cases "str_find line (CHR '' '') 0")
  case None
  then have "split_on (CHR '' '') line = [line]" by (simp add: str_find_split_on)
  moreover have "\<not> valid_label ''''" by (simp add: valid_label_iff)
  ultimately show ?thesis
    using None
    by (simp add: admin_handle_request_def parse_request_def admin_dispatch_def handle_add_def
        str_find_def Let_def)
next
  case (Some i)
  define rest where "rest = drop (Suc i) line"
  have s: "split_on (CHR '' '') line = take i line # split_on (CHR '' '') rest"
    using Some str_find_split_on [of "CHR '' ''" line] by (simp add: rest_def)
  have j: "join_with (CHR '' '') (split_on (CHR '' '') rest) = rest" by (rule join_split_on)
  show ?thesis
  proof (cases "str_find rest (CHR '' '') 0")
    case None
    then have r: "split_on (CHR '' '') rest = [rest]" by (simp add: str_find_split_on)
    show ?thesis
      using Some s r None
      by (simp add: admin_handle_request_def parse_request_def admin_dispatch_def handle_add_def
          Let_def flip: rest_def)
  next
    case sp: (Some k)
    obtain w ws where w: "split_on (CHR '' '') (drop (k + 1) rest) = w # ws"
      by (meson list.exhaust split_on_not_Nil)
    then have r: "split_on (CHR '' '') rest = take k rest # w # ws"
      using sp str_find_split_on [of "CHR '' ''" rest] by simp
    have "join_with (CHR '' '') (w # ws) = drop (k + 1) rest"
      using join_split_on [of "CHR '' ''" "drop (k + 1) rest"] by (simp only: w)
    then show ?thesis
      using Some s sp j
      by (simp add: r admin_handle_request_def parse_request_def admin_dispatch_def handle_add_def
          Let_def del: join_with.simps flip: rest_def)
  qed
qed

section \<open>What a request does to the table\<close>

definition listing_text :: "table \<Rightarrow> string" where
  "listing_text t = concat (map (\<lambda>x. device_line (listed x)) (table_rows t)) @ ''END'' @ [nl]"

text \<open>The effect on one row, by the reply.\<close>

definition row_spec :: "table \<Rightarrow> string \<Rightarrow> (krow \<Rightarrow> krow) \<Rightarrow> string \<Rightarrow> table \<Rightarrow> bool" where
  "row_spec t i f out t' \<longleftrightarrow>
     out = ''OK'' @ [nl] \<and> valid_device_id i \<and> (\<exists>k. t i = Some k \<and> t' = t(i \<mapsto> f k)) \<or>
     out = ''NO'' @ [nl] \<and> (valid_device_id i \<longrightarrow> t i = None) \<and> t' = t \<or>
     out = ''ERR'' @ [nl] \<and> t' = t"

definition admin_spec :: "table \<Rightarrow> admin_request \<Rightarrow> string \<Rightarrow> table \<Rightarrow> bool" where
  "admin_spec t req out t' \<longleftrightarrow>
     (case req of
        List_devices \<Rightarrow> t' = t \<and> out \<in> {''ERR'' @ [nl], listing_text t}
      | Add l \<Rightarrow> out = ''ERR'' @ [nl] \<and> t' = t \<or>
          (\<exists>i key ts. valid_device_id i \<and> t i = None \<and> valid_key key \<and> sql_datetime ts \<and>
             out = ''OK '' @ i @ '' '' @ key @ [nl] \<and>
             t' = t(i \<mapsto> \<lparr>r_key = key, r_status = 1, r_note = l, r_created = Some ts\<rparr>))
      | Revoke i \<Rightarrow> row_spec t i (\<lambda>k. k\<lparr>r_status := 0\<rparr>) out t'
      | Activate i \<Rightarrow> row_spec t i (\<lambda>k. k\<lparr>r_status := 1\<rparr>) out t'
      | Label i n \<Rightarrow> valid_label n \<and> row_spec t i (\<lambda>k. k\<lparr>r_note := n\<rparr>) out t'
      | Malformed \<Rightarrow> out = ''ERR'' @ [nl] \<and> t' = t)"

lemma row_spec_update:
  "update_spec t i f l t' \<Longrightarrow> row_spec t i f (ok_no l) t'"
  by (cases l) (auto simp: row_spec_def update_spec_def ok_no_def)

lemma parse_request_label:
  "parse_request line = Label i n \<Longrightarrow> valid_label n"
  "parse_request line = Add n \<Longrightarrow> valid_label n"
  by (auto simp: parse_request_def Let_def split: list.splits if_splits)

lemma admin_spec_placed:
  assumes "placed_spec t d d' t'" and "valid_key (dev_key d)" and "dev_status d = 1"
  shows "admin_spec t (Add (c_str (dev_note d))) (''OK '' @ dev_id d' @ '' '' @ dev_key d' @ [nl]) t'"
proof -
  from assms(1) obtain i ts where i: "d' = d\<lparr>dev_id := i\<rparr>" "valid_device_id i" "t i = None"
      "sql_datetime ts" "t' = t(i \<mapsto> new_row d ts)"
    unfolding placed_spec_def by blast
  show ?thesis
    unfolding admin_spec_def admin_request.case
    by (rule disjI2, rule exI [of _ i], rule exI [of _ "dev_key d"], rule exI [of _ ts])
       (use i assms(2,3) in \<open>simp add: new_row_def\<close>)
qed

context sqlite_keystore
begin

lemma handle_add_spec:
  assumes "csprng R" and "valid_label l" and "handle_add P R l r db = (res, r', db')"
  shows "case res of
      Inr out \<Rightarrow> admin_spec (tbl db) (Add l) out (tbl db')
    | Inl e \<Rightarrow> tbl db' = tbl db"
proof -
  obtain k r1 where k: "generate_key R r = (k, r1)" by fastforce
  show ?thesis
  proof (cases k)
    case (Inl e)
    with assms(2,3) k show ?thesis by (auto simp: handle_add_def)
  next
    case (Inr key)
    let ?d = "device_default\<lparr>dev_status := 1, dev_note := l, dev_key := key\<rparr>"
    have key: "valid_key key" using generate_key_valid [OF assms(1)] k Inr by blast
    obtain dres r2 db2 where d: "draw_until_free P R 4 16 ?d r1 db = (dres, r2, db2)"
      by (metis prod_cases3)
    from assms(2,3) k Inr d have res: "res = map_sum id add_reply dres" "r' = r2" "db' = db2"
      by (simp_all add: handle_add_def add_attempts_eq)
    show ?thesis
    proof (cases dres)
      case (Inl e)
      with draw_until_free_spec [OF d] show ?thesis by (simp add: res)
    next
      case (Inr pd)
      obtain placed d' where pd: "pd = (placed, d')" by fastforce
      show ?thesis
        using draw_until_free_spec [OF d] admin_spec_placed [of "tbl db" ?d d' "tbl db2"] key assms(2)
        by (cases placed) (simp add: res Inr pd add_reply_def,
            simp add: res Inr pd add_reply_def admin_spec_def)
    qed
  qed
qed

lemma admin_refines:
  assumes "csprng R" and "admin_handle_request P R line r db = (res, r', db')"
  shows "case res of
      Inr out \<Rightarrow> admin_spec (tbl db) (parse_request line) out (tbl db')
    | Inl e \<Rightarrow> tbl db' = tbl db"
proof (cases "parse_request line")
  case List_devices
  with assms(2) show ?thesis
    by (auto simp: admin_handle_request_eq admin_dispatch_def handle_list_def admin_spec_def
        listing_text_def o_def split: prod.splits if_splits dest!: list_devices_refines)
next
  case (Add l)
  with assms(2) have "handle_add P R l r db = (res, r', db')"
    by (simp add: admin_handle_request_eq admin_dispatch_def)
  from handle_add_spec [OF assms(1) parse_request_label(2) [OF Add] this] show ?thesis
    by (cases res) (simp_all add: Add)
next
  case (Revoke i)
  with assms(2) show ?thesis
    by (auto simp: admin_handle_request_eq admin_dispatch_def admin_spec_def intro: row_spec_update
        split: prod.splits dest!: set_device_status_refines)
next
  case (Activate i)
  with assms(2) show ?thesis
    by (auto simp: admin_handle_request_eq admin_dispatch_def admin_spec_def intro: row_spec_update
        split: prod.splits dest!: set_device_status_refines)
next
  case (Label i n)
  with assms(2) parse_request_label(1) [OF Label] show ?thesis
    by (auto simp: admin_handle_request_eq admin_dispatch_def admin_spec_def intro: row_spec_update
        split: prod.splits dest!: set_device_note_refines)
next
  case Malformed
  with assms(2) show ?thesis
    by (auto simp: admin_handle_request_eq admin_dispatch_def admin_spec_def)
qed

end

lemma wf_table_admin_spec:
  assumes "wf_table t" and "admin_spec t (parse_request line) out t'"
  shows "wf_table t'"
proof -
  have upd: "wf_table t'" if "row_spec t i f out t'" and "\<And>k. wf_row i k \<Longrightarrow> wf_row i (f k)" for i f
    using that(1) wf_table_upd [OF assms(1) that(2)] wf_tableD [OF assms(1)] assms(1)
    unfolding row_spec_def by blast
  show ?thesis
  proof (cases "parse_request line")
    case (Add l)
    with assms parse_request_label(2) [OF Add] show ?thesis
      by (auto simp: admin_spec_def wf_row_def intro!: wf_table_upd)
  next
    case (Revoke i)
    with assms(2) upd [of i "\<lambda>k. k\<lparr>r_status := 0\<rparr>"] show ?thesis
      by (simp add: admin_spec_def wf_row_def)
  next
    case (Activate i)
    with assms(2) upd [of i "\<lambda>k. k\<lparr>r_status := 1\<rparr>"] show ?thesis
      by (simp add: admin_spec_def wf_row_def)
  next
    case (Label i n)
    with assms(2) upd [of i "\<lambda>k. k\<lparr>r_note := n\<rparr>"] show ?thesis
      by (simp add: admin_spec_def wf_row_def)
  qed (use assms in \<open>auto simp: admin_spec_def\<close>)
qed

section \<open>The listing as it leaves the daemon\<close>

text \<open>A line as it leaves the daemon: one token for the time the device was provisioned.\<close>

definition token_date :: "string \<Rightarrow> string" where
  "token_date ts = (if ts = [] then ''-'' else ts[10 := CHR ''T''])"

definition token_line :: "device \<Rightarrow> string" where
  "token_line d =
     ''DEVICE '' @ dev_id d @ '' '' @ (if dev_status d = 1 then ''active'' else ''revoked'') @ '' '' @
     token_date (dev_created d) @ '' '' @ dev_note d @ [nl]"

definition listable :: "device \<Rightarrow> bool" where
  "listable d \<longleftrightarrow> CHR '' '' \<notin> set (dev_id d) \<and> nl \<notin> set (dev_id d) \<and> nl \<notin> set (dev_note d) \<and>
     (dev_created d = [] \<or> sql_datetime (dev_created d))"

lemma str_find_at:
  "c \<notin> set as \<Longrightarrow> n = length pre \<Longrightarrow> str_find (pre @ as @ c # bs) c n = Some (length pre + length as)"
  by (simp add: str_find_append)

lemma join_date_line:
  assumes "listable d"
  shows "join_date (pre @ device_line d @ rest) (length pre) = pre @ token_line d @ rest"
proof -
  define st where "st = (if dev_status d = 1 then ''active'' else ''revoked'')"
  have st: "CHR '' '' \<notin> set st" by (simp add: st_def)
  define date where "date = (if dev_created d = [] then ''-'' else dev_created d)"
  define tail where "tail = date @ '' '' @ dev_note d @ [nl] @ rest"
  define s where "s = pre @ device_line d @ rest"
  have s1: "s = (pre @ ''DEVICE '') @ dev_id d @ CHR '' '' # st @ '' '' @ tail"
    by (simp add: s_def device_line_def st_def date_def tail_def)
  define pre2 where "pre2 = pre @ ''DEVICE '' @ dev_id d @ '' ''"
  have s2: "s = pre2 @ st @ CHR '' '' # tail" by (simp add: s1 pre2_def)
  have a: "str_find s (CHR '' '') (length pre + 7) = Some (length pre + 7 + length (dev_id d))"
    unfolding s1 by (subst str_find_at) (use assms in \<open>simp_all add: listable_def\<close>)
  have b: "str_find s (CHR '' '') (length pre + 7 + length (dev_id d) + 1) =
      Some (length pre2 + length st)"
    unfolding s2 by (subst str_find_at) (use st in \<open>simp_all add: pre2_def\<close>)
  define pre3 where "pre3 = pre2 @ st @ '' ''"
  have s3: "s = pre3 @ tail" by (simp add: s2 pre3_def)
  have len3: "length pre2 + length st + k = length pre3 + (k - 1)" if "0 < k" for k
    using that by (simp add: pre3_def)
  have join: "join_date s (length pre) =
      (if 10 < length tail \<and> tail ! 10 = CHR '' '' \<and> tail ! 0 \<noteq> CHR ''-''
       then pre3 @ tail[10 := CHR ''T''] else s)"
    unfolding join_date_def a b Let_def option.case
    by (subst (1 2 3 4) len3) (simp_all add: s3 nth_append list_update_append)
  show ?thesis
  proof (cases "dev_created d = []")
    case True
    then have "tail ! 0 = CHR ''-''" by (simp add: tail_def date_def)
    with join True show ?thesis
      by (simp add: s_def device_line_def token_line_def token_date_def)
  next
    case False
    with assms have "sql_datetime (dev_created d)" by (simp add: listable_def)
    then obtain x t where ts: "dev_created d = x @ '' '' @ t" "length x = 10" "length t = 8"
        "is_digit (hd x)"
      unfolding sql_datetime_def by blast
    then obtain x0 x' where x: "x = x0 # x'" by (cases x) auto
    have "tail ! 10 = CHR '' ''" "10 < length tail" "tail ! 0 \<noteq> CHR ''-''"
      using ts by (auto simp: tail_def date_def nth_append x is_digit_def)
    moreover have "tail[10 := CHR ''T''] = token_date (dev_created d) @ '' '' @ dev_note d @ [nl] @ rest"
      using ts False by (simp add: tail_def date_def token_date_def list_update_append)
    ultimately show ?thesis
      using join by (simp add: s_def pre3_def pre2_def token_line_def st_def)
  qed
qed

lemma sql_datetime_parts:
  assumes "sql_datetime ts"
  obtains d t where "ts = d @ '' '' @ t" "length d = 10"
    "CHR '' '' \<notin> set d" "CHR '' '' \<notin> set t" "nl \<notin> set ts" "CHR 0x00 \<notin> set ts"
proof -
  from assms obtain d t where ts: "ts = d @ '' '' @ t" "length d = 10"
      "\<forall>c \<in> set d. is_digit c \<or> c = CHR ''-''" "\<forall>c \<in> set t. is_digit c \<or> c = CHR '':''"
    unfolding sql_datetime_def by blast
  then have "\<forall>c \<in> set d. c \<noteq> CHR 0x00 \<and> c \<noteq> nl \<and> c \<noteq> CHR '' ''"
    and "\<forall>c \<in> set t. c \<noteq> CHR 0x00 \<and> c \<noteq> nl \<and> c \<noteq> CHR '' ''"
    using is_digit_special by fastforce+
  then show thesis using that [OF ts(1,2)] unfolding ts(1) set_append by fastforce
qed

lemma nl_token_line:
  assumes "listable d"
  shows "\<exists>l. token_line d = l @ [nl] \<and> nl \<notin> set l"
proof -
  have "nl \<notin> set (dev_created d)" if "sql_datetime (dev_created d)"
    using that by (rule sql_datetime_parts)
  then have "nl \<notin> set (token_date (dev_created d))"
    using assms set_update_subset_insert [of "dev_created d" 10 "CHR ''T''"]
    by (auto simp: token_date_def listable_def)
  with assms show ?thesis
    by (intro exI [of _ "butlast (token_line d)"])
       (simp add: token_line_def listable_def butlast_append)
qed

lemma sub_index_device [simp]:
  "sub_index ''DEVICE '' (device_line d @ rest) = Some 0"
  "sub_index ''DEVICE '' (nl # device_line d @ rest) = Some (Suc 0)"
  by (simp_all add: device_line_def)

lemma date_loop_lines:
  "\<forall>d \<in> set ds. listable d \<Longrightarrow> u = [] \<or> u = [nl] \<Longrightarrow>
   date_loop (pre @ u @ concat (map device_line ds) @ ''END'' @ [nl]) (length pre) =
     pre @ u @ concat (map token_line ds) @ ''END'' @ [nl]"
proof (induction ds arbitrary: pre u)
  case Nil
  then have "sub_index ''DEVICE '' (u @ ''END'' @ [nl]) = None" by auto
  then show ?case by (subst date_loop.simps) (simp add: str_find_str_def)
next
  case (Cons d ds)
  define rest where "rest = concat (map device_line ds) @ ''END'' @ [nl]"
  have s: "pre @ u @ concat (map device_line (d # ds)) @ ''END'' @ [nl] = (pre @ u) @ device_line d @ rest"
    by (simp add: rest_def)
  from Cons.prems have listable: "listable d" by simp
  have f: "str_find_str ((pre @ u) @ device_line d @ rest) ''DEVICE '' (length pre) = Some (length (pre @ u))"
    using Cons.prems(2) by (auto simp: str_find_str_def)
  obtain l where l: "token_line d = l @ [nl]" "nl \<notin> set l" using nl_token_line [OF listable] by blast
  have q: "str_find ((pre @ u) @ token_line d @ rest) nl (length (pre @ u)) = Some (length ((pre @ u) @ l))"
    unfolding l(1) append_assoc append.simps
    using str_find_at [OF l(2) refl, of "pre @ u" rest] by simp
  have "date_loop ((pre @ u) @ device_line d @ rest) (length pre) =
      date_loop ((pre @ u) @ token_line d @ rest) (length ((pre @ u) @ l))"
    by (subst date_loop.simps) (simp only: f q option.case Let_def join_date_line [OF listable])
  also have "(pre @ u) @ token_line d @ rest =
      ((pre @ u) @ l) @ [nl] @ concat (map device_line ds) @ ''END'' @ [nl]"
    by (simp add: l(1) rest_def)
  also have "date_loop \<dots> (length ((pre @ u) @ l)) =
      ((pre @ u) @ l) @ [nl] @ concat (map token_line ds) @ ''END'' @ [nl]"
    by (rule Cons.IH) (use Cons.prems(1) in simp_all)
  finally show ?case unfolding s by (simp add: l(1))
qed

lemma single_token_dates_listing:
  assumes "\<forall>d \<in> set ds. listable d"
  shows "single_token_dates (concat (map device_line ds) @ ''END'' @ [nl]) =
    concat (map token_line ds) @ ''END'' @ [nl]"
  using date_loop_lines [OF assms, of "''''" "''''"] by (simp add: single_token_dates_def)

text \<open>Every other reply passes through unchanged: it has no \<open>I\<close>, so no \<open>DEVICE\<close>.\<close>

lemma sub_index_no_char: "c \<in> set pat \<Longrightarrow> c \<notin> set s \<Longrightarrow> sub_index pat s = None"
  by (induction pat s rule: sub_index.induct) (auto dest!: set_mono_prefix)

lemma single_token_dates_other: "CHR ''I'' \<notin> set s \<Longrightarrow> single_token_dates s = s"
  unfolding single_token_dates_def
  by (subst date_loop.simps) (simp add: str_find_str_def sub_index_no_char [of "CHR ''I''"])

lemma listable_listed:
  assumes wf: "wf_row i r"
  shows "listable (listed (i, r))"
proof -
  from wf have "CHR '' '' \<notin> set i" "nl \<notin> set i" "c_str i = i" "nl \<notin> set (r_note r)"
      "c_str (r_note r) = r_note r"
    by (simp_all add: wf_row_def valid_device_id_chars valid_label_chars)
  moreover have "dev_created (listed (i, r)) = [] \<or> sql_datetime (dev_created (listed (i, r)))"
  proof (cases "r_created r")
    case None
    then show ?thesis by (simp add: listed_def c_str_def)
  next
    case (Some ts)
    with wf have dt: "sql_datetime ts" by (simp add: wf_row_def)
    then have "CHR 0x00 \<notin> set ts" by (rule sql_datetime_parts)
    with dt Some show ?thesis by (simp add: listed_def c_str_id)
  qed
  ultimately show ?thesis by (simp add: listable_def listed_def)
qed

lemma set_table_rows_mem: "finite (dom t) \<Longrightarrow> (i, r) \<in> set (table_rows t) \<Longrightarrow> t i = Some r"
  by (auto simp: table_rows_def)

lemma split_listing:
  assumes "\<forall>d \<in> set ds. listable d"
  shows "\<exists>ls. map (\<lambda>l. l @ [nl]) ls = map token_line ds \<and>
    split_on nl (concat (map token_line ds) @ rest) = ls @ split_on nl rest"
  using assms
proof (induction ds)
  case Nil
  then show ?case by simp
next
  case (Cons d ds)
  obtain ls where ls: "map (\<lambda>l. l @ [nl]) ls = map token_line ds"
      "split_on nl (concat (map token_line ds) @ rest) = ls @ split_on nl rest"
    using Cons by auto
  obtain l where l: "token_line d = l @ [nl]" "nl \<notin> set l" using nl_token_line Cons.prems by auto
  show ?case
    using ls l split_on_append [OF l(2)]
    by (intro exI [of _ "l # ls"]) simp
qed

lemma those_all_Some: "\<forall>x \<in> set xs. f x = Some (g x) \<Longrightarrow> those (map f xs) = Some (map g xs)"
  by (induction xs) simp_all

section \<open>A run of the daemon\<close>

text \<open>
  The accept loop on a sequence of connections, until an exception ends the process; the outcome
  of each connection in order.
\<close>

fun admin_run ::
    "'db platform \<Rightarrow> 'r rng \<Rightarrow> int \<Rightarrow> conn list \<Rightarrow> 'r \<Rightarrow> 'db \<Rightarrow> served list \<times> 'r \<times> 'db" where
  "admin_run P R allow_uid [] r db = ([], r, db)"
| "admin_run P R allow_uid (c # cs) r db =
     (case admin_serve P R allow_uid c r db of
        (Terminated e, n, r', db') \<Rightarrow> ([Terminated e], r', db')
      | (Closed s, n, r', db') \<Rightarrow>
          (let (ss, r'', db'') = admin_run P R allow_uid cs r' db' in (Closed s # ss, r'', db'')))"

lemma keys_kept_admin_spec: "admin_spec t req out t' \<Longrightarrow> keys_kept t t'"
  by (auto simp: admin_spec_def row_spec_def keys_kept_def split: admin_request.splits)

context sqlite_keystore
begin

lemma admin_handle_keeps:
  assumes "csprng R" and "admin_handle_request P R line r db = (res, r', db')"
  shows "(wf_table (tbl db) \<longrightarrow> wf_table (tbl db')) \<and> keys_kept (tbl db) (tbl db')"
proof (cases res)
  case (Inl e)
  with admin_refines [OF assms] show ?thesis by simp
next
  case (Inr out)
  with admin_refines [OF assms] have "admin_spec (tbl db) (parse_request line) out (tbl db')" by simp
  then show ?thesis using wf_table_admin_spec keys_kept_admin_spec by blast
qed

lemma admin_serve_keeps:
  assumes "csprng R" and "admin_serve P R allow_uid c r db = (s, n, r', db')"
  shows "(wf_table (tbl db) \<longrightarrow> wf_table (tbl db')) \<and> keys_kept (tbl db) (tbl db')"
  using assms(2) admin_handle_keeps [OF assms(1)]
  by (auto simp: admin_serve_def split: if_splits prod.splits option.splits sum.splits)

lemma admin_run_keeps:
  assumes "csprng R"
  shows "admin_run P R allow_uid cs r db = (ss, r', db') \<Longrightarrow>
    (wf_table (tbl db) \<longrightarrow> wf_table (tbl db')) \<and> keys_kept (tbl db) (tbl db')"
proof (induction cs arbitrary: r db ss)
  case Nil
  then show ?case by simp
next
  case (Cons c cs)
  obtain s n r1 db1 where s: "admin_serve P R allow_uid c r db = (s, n, r1, db1)"
    by (metis prod_cases4)
  obtain ss2 r2 db2 where t: "admin_run P R allow_uid cs r1 db1 = (ss2, r2, db2)"
    by (metis prod_cases3)
  note one = admin_serve_keeps [OF assms s]
  show ?case
  proof (cases s)
    case (Closed x)
    with Cons.prems s t have "(ss2, r2, db2) = (ss2, r', db')" by simp
    with Cons.IH t have "(wf_table (tbl db1) \<longrightarrow> wf_table (tbl db')) \<and> keys_kept (tbl db1) (tbl db')"
      by blast
    with one show ?thesis using keys_kept_trans by blast
  next
    case (Terminated e)
    with Cons.prems s one show ?thesis by simp
  qed
qed

end

section \<open>Secrecy of the keys\<close>

text \<open>Two tables that differ in nothing but the keys they hold.\<close>

definition open_part :: "krow \<Rightarrow> int \<times> string \<times> string option" where
  "open_part k = (r_status k, r_note k, r_created k)"

definition same_but_keys :: "table \<Rightarrow> table \<Rightarrow> bool" where
  "same_but_keys t u \<longleftrightarrow> (\<forall>i. map_option open_part (t i) = map_option open_part (u i))"

lemma same_but_keysD:
  assumes "same_but_keys t u"
  shows "t i = None \<longleftrightarrow> u i = None" "t i = Some k \<Longrightarrow> u i = Some k' \<Longrightarrow> open_part k = open_part k'"
proof -
  have "map_option open_part (t i) = map_option open_part (u i)"
    using assms by (simp add: same_but_keys_def)
  then show "t i = None \<longleftrightarrow> u i = None" "t i = Some k \<Longrightarrow> u i = Some k' \<Longrightarrow> open_part k = open_part k'"
    by (cases "t i"; cases "u i"; simp)+
qed

lemma same_but_keys_dom: "same_but_keys t u \<Longrightarrow> dom t = dom u"
  by (rule set_eqI) (simp add: domIff same_but_keysD(1))

lemma same_but_keys_upd:
  "same_but_keys t u \<Longrightarrow> open_part k = open_part k' \<Longrightarrow> same_but_keys (t(i \<mapsto> k)) (u(i \<mapsto> k'))"
  by (simp add: same_but_keys_def)

lemma listed_open_part: "open_part k = open_part k' \<Longrightarrow> listed (i, k) = listed (i, k')"
  by (simp add: listed_def open_part_def)

lemma listing_text_same:
  assumes "same_but_keys t u" and "finite (dom t)"
  shows "listing_text t = listing_text u"
proof -
  let ?line = "\<lambda>t i. device_line (listed (i, the (t i)))"
  have shown: "listing_text v = concat (map (?line v) (sorted_list_of_set (dom v))) @ ''END'' @ [nl]" for v
    by (simp add: listing_text_def table_rows_def comp_def)
  have "?line t i = ?line u i" if i: "i \<in> dom t" for i
  proof -
    from i obtain k where k: "t i = Some k" by blast
    moreover from i same_but_keys_dom [OF assms(1)] obtain k' where k': "u i = Some k'" by blast
    moreover have "listed (i, k) = listed (i, k')"
      by (rule listed_open_part) (rule same_but_keysD(2) [OF assms(1) k k'])
    ultimately show ?thesis by simp
  qed
  then have "map (?line t) (sorted_list_of_set (dom t)) = map (?line u) (sorted_list_of_set (dom t))"
    using assms(2) by (intro map_cong) simp_all
  then show ?thesis by (simp only: shown same_but_keys_dom [OF assms(1)])
qed

lemma row_spec_same:
  assumes "same_but_keys t u" and "row_spec t i f out1 t'" and "row_spec u i f out2 u'"
    and "out1 \<noteq> ''ERR'' @ [nl]" and "out2 \<noteq> ''ERR'' @ [nl]"
    and "\<And>k k'. open_part k = open_part k' \<Longrightarrow> open_part (f k) = open_part (f k')"
  shows "out1 = out2 \<and> same_but_keys t' u'"
proof (cases "t i")
  case None
  then have "u i = None" using same_but_keysD(1) [OF assms(1)] by simp
  with None assms(1-5) show ?thesis by (simp add: row_spec_def)
next
  case (Some k)
  then obtain k' where k': "u i = Some k'" using same_but_keysD(1) [OF assms(1), of i] by auto
  have "open_part (f k) = open_part (f k')"
    by (rule assms(6)) (rule same_but_keysD(2) [OF assms(1) Some k'])
  then have "same_but_keys (t(i \<mapsto> f k)) (u(i \<mapsto> f k'))" by (rule same_but_keys_upd [OF assms(1)])
  with Some k' assms(1-5) show ?thesis
    by (cases "valid_device_id i") (simp_all add: row_spec_def)
qed

lemma admin_spec_same:
  assumes "same_but_keys t u" and "finite (dom t)" and "admin_spec t req out1 t'" and "admin_spec u req out2 u'"
    and "out1 \<noteq> ''ERR'' @ [nl]" and "out2 \<noteq> ''ERR'' @ [nl]" and "\<And>l. req \<noteq> Add l"
  shows "out1 = out2 \<and> same_but_keys t' u'"
proof (cases req)
  case List_devices
  with assms(3-6) listing_text_same [OF assms(1,2)] assms(1) show ?thesis
    by (auto simp: admin_spec_def)
next
  case (Revoke i)
  with assms(3,4) have "row_spec t i (\<lambda>k. k\<lparr>r_status := 0\<rparr>) out1 t'"
    "row_spec u i (\<lambda>k. k\<lparr>r_status := 0\<rparr>) out2 u'" by (simp_all add: admin_spec_def)
  from row_spec_same [OF assms(1) this assms(5,6)] show ?thesis by (simp add: open_part_def)
next
  case (Activate i)
  with assms(3,4) have "row_spec t i (\<lambda>k. k\<lparr>r_status := 1\<rparr>) out1 t'"
    "row_spec u i (\<lambda>k. k\<lparr>r_status := 1\<rparr>) out2 u'" by (simp_all add: admin_spec_def)
  from row_spec_same [OF assms(1) this assms(5,6)] show ?thesis by (simp add: open_part_def)
next
  case (Label i n)
  with assms(3,4) have "row_spec t i (\<lambda>k. k\<lparr>r_note := n\<rparr>) out1 t'"
    "row_spec u i (\<lambda>k. k\<lparr>r_note := n\<rparr>) out2 u'" by (simp_all add: admin_spec_def)
  from row_spec_same [OF assms(1) this assms(5,6)] show ?thesis by (simp add: open_part_def)
qed (use assms in \<open>auto simp: admin_spec_def\<close>)

section \<open>Adding a device\<close>

text \<open>A reply to \<open>ADD\<close> reaches the client as it is: it has no \<open>I\<close>.\<close>

lemma add_reply_no_I:
  assumes "valid_device_id i" and "valid_key key"
  shows "CHR ''I'' \<notin> set (''OK '' @ i @ '' '' @ key @ [nl])"
proof -
  have "crockford_char c \<Longrightarrow> c \<noteq> CHR ''I''" for c by (auto simp: crockford_char_def)
  then have "CHR ''I'' \<notin> set i" using assms(1) unfolding valid_device_id_iff by blast
  moreover have "hex_char c \<Longrightarrow> c \<noteq> CHR ''I''" for c by (auto simp: hex_char_def hex_alphabet_def)
  then have "CHR ''I'' \<notin> set key" using assms(2) unfolding valid_key_def by blast
  ultimately show ?thesis by simp
qed

context sqlite_available
begin

lemma list_request_up:
  assumes "up db"
  shows "\<exists>db'. admin_handle_request P R ''LIST'' r db = (Inr (listing_text (tbl db)), r, db') \<and> up db'"
proof -
  obtain ok ds db' where l: "list_devices P [] db = (ok, ds, db')" by (metis prod_cases3)
  from list_devices_up [OF assms l] list_devices_refines [OF l] l show ?thesis
    by (simp add: admin_handle_request_def str_find_def handle_list_def listing_text_def comp_def)
qed

lemma handle_add_up:
  assumes "csprng R" and "up db" and "valid_label l" and "generate_key R r = (Inr key, r1)"
    and "drawn_ids R 4 16 r1 = Some ids"
  shows "\<exists>r' db'. handle_add P R l r db =
    (Inr (case List.find (\<lambda>i. tbl db i = None) ids of
            None \<Rightarrow> ''ERR'' @ [nl]
          | Some i \<Rightarrow> ''OK '' @ i @ '' '' @ key @ [nl]), r', db')"
proof -
  let ?d = "device_default\<lparr>dev_status := 1, dev_note := l, dev_key := key\<rparr>"
  obtain d' r' db' where d: "draw_until_free P R 4 16 ?d r1 db =
      (Inr (List.find (\<lambda>i. tbl db i = None) ids \<noteq> None, d'), r', db')"
    and id: "\<forall>i. List.find (\<lambda>i. tbl db i = None) ids = Some i \<longrightarrow> d' = ?d\<lparr>dev_id := i\<rparr>"
    using draw_until_free_up [OF assms(1) _ _ assms(2) _ assms(5), of ?d] by auto
  have "handle_add P R l r db =
      (Inr (add_reply (List.find (\<lambda>i. tbl db i = None) ids \<noteq> None, d')), r', db')"
    using assms(3,4) d by (simp add: handle_add_def add_attempts_eq)
  then show ?thesis
    using id by (cases "List.find (\<lambda>i. tbl db i = None) ids") (simp_all add: add_reply_def)
qed

end

lemma parse_request_revoke:
  "ident \<noteq> [] \<Longrightarrow> parse_request (''REVOKE '' @ ident) = Revoke ident"
  using split_on_append [of "CHR '' ''" "''REVOKE''" ident] join_split_on [of "CHR '' ''" ident]
  by (simp add: parse_request_def)

context sqlite_available
begin

lemma revoke_up:
  assumes "up db" and "valid_device_id i" and "tbl db i = Some k"
  shows "\<exists>db'. admin_handle_request P R (''REVOKE '' @ i) r db = (Inr (''OK'' @ [nl]), r, db') \<and> up db' \<and>
    tbl db' = (tbl db)(i \<mapsto> k\<lparr>r_status := 0\<rparr>)"
proof -
  obtain l db' where s: "set_device_status P i 0 db = (l, db')" by fastforce
  have "l \<noteq> Error \<and> up db'" by (rule set_device_status_up [OF assms(1) _ s]) simp
  moreover have "update_spec (tbl db) i (\<lambda>k. k\<lparr>r_status := 0\<rparr>) l (tbl db')"
    using set_device_status_refines [OF s] by (rule conjunct1)
  ultimately have "l = Found" "up db'" "tbl db' = (tbl db)(i \<mapsto> k\<lparr>r_status := 0\<rparr>)"
    using assms(2,3) by (cases l; auto simp: update_spec_def)+
  moreover have "i \<noteq> []" using assms(2) by (auto simp: valid_device_id_iff)
  from parse_request_revoke [OF this]
  have "admin_handle_request P R (''REVOKE '' @ i) r db = admin_dispatch P R (Revoke i) r db"
    by (simp only: admin_handle_request_eq)
  ultimately show ?thesis using s by (simp add: admin_dispatch_def ok_no_def)
qed

end

text \<open>A request that arrives whole, in whatever chunks, is read as one line.\<close>

lemma admin_read_line_stream:
  "fst (admin_read_line ins) =
     map_option (\<lambda>i. take i (stream_of ins)) (index_of nl (take 129 (stream_of ins)))"
  by (simp add: admin_read_line_def ADMIN_MAX_REQUEST_def read_line_loop_stream split: option.splits)

lemma admin_read_line_sent:
  assumes "stream_of ins = line @ [nl]" and "nl \<notin> set line" and "length line \<le> 128"
  shows "fst (admin_read_line ins) = Some line"
  using assms index_of_append [of nl line "[]"] by (simp add: admin_read_line_stream)

lemma valid_sample_ids: "valid_device_id ''7Q5V''" "valid_device_id ''AB12''"
  by (simp_all add: valid_device_id_iff crockford_char_def)

lemma drawn_ids_valid:
  assumes "csprng R" and "4 \<le> len" and "len \<le> 8"
  shows "drawn_ids R len n r = Some ids \<Longrightarrow> i \<in> set ids \<Longrightarrow> valid_device_id i"
  by (induction n arbitrary: r ids)
     (auto split: prod.splits sum.splits dest: generate_device_id_valid(1) [OF assms(1) _ assms(2,3)])

section \<open>Properties\<close>

text \<open>
  C6. Refinement. Each request does what the protocol says and nothing else: \<open>ADD\<close> inserts an
  active row with a new key under an identifier nobody had and replies with exactly that
  identifier and key; \<open>REVOKE\<close>, \<open>ACTIVATE\<close> and \<open>LABEL\<close> change the one field of the one row
  and say whether there is such a row; \<open>LIST\<close> and malformed lines change nothing; and any
  \<open>ERR\<close> leaves the table as it was.
\<close>

theorem admin_request_refines:
  assumes "sqlite_keystore P tbl" and "csprng R"
    and "admin_handle_request P R line r db = (Inr out, r', db')"
  shows "admin_spec (tbl db) (parse_request line) out (tbl db')"
  using sqlite_keystore.admin_refines [OF assms] by simp

theorem admin_request_refines_witness:
  "admin_spec (mem_tbl sample_db) (parse_request ''LABEL 7Q5V'') (''ERR'' @ [nl]) (mem_tbl sample_db)"
proof -
  have "admin_handle_request mem_platform list_rng ''LABEL 7Q5V'' [] sample_db =
      (Inr (''ERR'' @ [nl]), [], sample_db)"
    by (simp add: admin_handle_request_def str_find_def Let_def)
  from admin_request_refines [OF mem.sqlite_keystore_axioms csprng_list_rng this] show ?thesis .
qed

text \<open>
  Whatever connections the daemon serves, in whatever order, whichever calls fail and
  whether or not it dies on the way: a well-formed table stays well-formed, no device
  disappears, and no device's key ever changes.
\<close>

theorem admin_run_invariant:
  assumes "sqlite_keystore P tbl" and "csprng R" and "wf_table (tbl db)"
    and "admin_run P R allow_uid cs r db = (ss, r', db')"
  shows "wf_table (tbl db') \<and> keys_kept (tbl db) (tbl db')"
  using sqlite_keystore.admin_run_keeps [OF assms(1,2,4)] assms(3) by blast

theorem admin_run_invariant_witness:
  "wf_table (mem_tbl (snd (snd (admin_run mem_platform list_rng (-1)
    [\<lparr>peer = None, incoming = [Bytes (''REVOKE 7Q5V'' @ [nl])], outgoing = []\<rparr>] [] sample_db))))"
proof -
  obtain ss r' db' where run: "admin_run mem_platform list_rng (-1)
      [\<lparr>peer = None, incoming = [Bytes (''REVOKE 7Q5V'' @ [nl])], outgoing = []\<rparr>] [] sample_db =
      (ss, r', db')"
    by (metis prod_cases3)
  from admin_run_invariant [OF mem.sqlite_keystore_axioms csprng_list_rng wf_table_sample run]
  show ?thesis by (simp only: run snd_conv)
qed

text \<open>
  C29. Secrecy. No request but \<open>ADD\<close> reveals anything of a key: on two tables that differ in
  their keys only, the replies are the same (or one of the two runs failed with \<open>ERR\<close>), and
  the tables afterwards still differ in their keys only.
\<close>

theorem admin_replies_independent_of_keys:
  assumes "sqlite_keystore P tbl" and "csprng R" and "\<And>l. parse_request line \<noteq> Add l"
    and "same_but_keys (tbl db1) (tbl db2)"
    and "admin_handle_request P R line r1 db1 = (Inr out1, r1', db1')"
    and "admin_handle_request P R line r2 db2 = (Inr out2, r2', db2')"
  shows "out1 = ''ERR'' @ [nl] \<or> out2 = ''ERR'' @ [nl] \<or>
    out1 = out2 \<and> same_but_keys (tbl db1') (tbl db2')"
  using admin_spec_same [OF assms(4) sqlite_keystore.finite_keys [OF assms(1)] _ _ _ _ assms(3)]
    sqlite_keystore.admin_refines [OF assms(1,2,5)] sqlite_keystore.admin_refines [OF assms(1,2,6)]
  by auto

theorem admin_replies_independent_of_keys_witness:
  "fst (admin_handle_request mem_platform list_rng ''LIST'' [] sample_db) =
    fst (admin_handle_request mem_platform list_rng ''LIST'' []
      (sample_db\<lparr>mem_rows := map (\<lambda>(i, k). (i, k\<lparr>r_key := ''b''\<rparr>)) (mem_rows sample_db)\<rparr>))"
proof -
  let ?db2 = "sample_db\<lparr>mem_rows := map (\<lambda>(i, k). (i, k\<lparr>r_key := ''b''\<rparr>)) (mem_rows sample_db)\<rparr>"
  have up: "mem_up ?db2" by (simp add: mem_up_def sample_db_def)
  have same: "same_but_keys (mem_tbl sample_db) (mem_tbl ?db2)"
    by (simp add: same_but_keys_def open_part_def mem_tbl_def sample_db_def)
  have req: "parse_request ''LIST'' \<noteq> Add l" for l by (simp add: parse_request_def)
  have noerr: "listing_text t \<noteq> ''ERR'' @ [nl]" for t
    by (cases "table_rows t") (simp_all add: listing_text_def device_line_def)
  show ?thesis
    using mem.list_request_up [OF sample_db_up] mem.list_request_up [OF up] noerr
      admin_replies_independent_of_keys [OF mem.sqlite_keystore_axioms csprng_list_rng req same]
    by (metis fst_conv)
qed

lemma parse_request_add:
  "valid_label label \<Longrightarrow> parse_request (''ADD '' @ label) = Add label"
  using split_on_append [of "CHR '' ''" "''ADD''" label] join_split_on [of "CHR '' ''" label]
  by (simp add: parse_request_def)

text \<open>A generator that gives only zeros: the key and the identifiers drawn from it.\<close>

lemma zero_draws:
  shows "generate_key list_rng (replicate 128 0) = (Inr (hex_of (replicate 64 0)), replicate 64 0)"
    and "drawn_ids list_rng 4 16 (replicate 64 0) = Some (replicate 16 ''0000'')"
proof -
  show "generate_key list_rng (replicate 128 0) = (Inr (hex_of (replicate 64 0)), replicate 64 0)"
    by (simp add: generate_key_def list_rng_def)
  have "generate_device_id list_rng 4 (replicate (4 + n) 0) = (Inr ''0000'', replicate n 0)" for n
    by (simp add: generate_device_id_def list_rng_def id_char_def id_alphabet_def eval_simps)
  then have "drawn_ids list_rng 4 k (replicate (4 * k) 0) = Some (replicate k ''0000'')" for k
    by (induction k) simp_all
  from this [of 16] show "drawn_ids list_rng 4 16 (replicate 64 0) = Some (replicate 16 ''0000'')" by simp
qed

text \<open>
  C32. Adding. While the keystore answers and the generator delivers, \<open>ADD\<close> succeeds exactly if
  one of sixteen drawn identifiers is free, takes the first such, and the client receives that
  identifier with the generated key, unchanged by the pass over the dates.
\<close>

theorem admin_add_first_free:
  assumes "sqlite_available P tbl up" and "csprng R" and "up db" and "valid_label label"
    and "generate_key R r = (Inr key, r1)" and "drawn_ids R 4 16 r1 = Some ids"
  shows "\<exists>out r' db'. admin_handle_request P R (''ADD '' @ label) r db = (Inr out, r', db') \<and>
    single_token_dates out =
      (case List.find (\<lambda>i. tbl db i = None) ids of
         None \<Rightarrow> ''ERR'' @ [nl]
       | Some i \<Rightarrow> ''OK '' @ i @ '' '' @ key @ [nl])"
proof -
  have req: "admin_handle_request P R (''ADD '' @ label) r db = handle_add P R label r db"
    by (simp only: admin_handle_request_eq parse_request_add [OF assms(4)] admin_dispatch_def admin_request.case)
  obtain r' db' where add: "handle_add P R label r db =
      (Inr (case List.find (\<lambda>i. tbl db i = None) ids of
              None \<Rightarrow> ''ERR'' @ [nl]
            | Some i \<Rightarrow> ''OK '' @ i @ '' '' @ key @ [nl]), r', db')"
    using sqlite_available.handle_add_up [OF assms(1-6)] by blast
  have "valid_device_id i" if "List.find (\<lambda>i. tbl db i = None) ids = Some i" for i
    using that drawn_ids_valid [OF assms(2) _ _ assms(6)] by (auto simp: find_Some_iff)
  then have "CHR ''I'' \<notin> set (case List.find (\<lambda>i. tbl db i = None) ids of
      None \<Rightarrow> ''ERR'' @ [nl] | Some i \<Rightarrow> ''OK '' @ i @ '' '' @ key @ [nl])"
    using add_reply_no_I generate_key_valid [OF assms(2,5)] by (auto split: option.splits)
  then show ?thesis
    unfolding req add by (intro exI conjI) (rule refl, rule single_token_dates_other)
qed

theorem admin_add_first_free_witness:
  "\<exists>out r' db'. admin_handle_request mem_platform list_rng ''ADD desk'' (replicate 128 0) sample_db =
      (Inr out, r', db') \<and>
    single_token_dates out = ''OK 0000 '' @ hex_of (replicate 64 0) @ [nl]"
proof -
  have "valid_label ''desk''" by (simp add: valid_label_iff label_char_def)
  from admin_add_first_free [OF mem.sqlite_available_axioms csprng_list_rng sample_db_up this zero_draws]
  show ?thesis by (simp add: eval_simps)
qed



end
