(* ===== verification/Provision.thy ===== *)
theory Provision
  imports Enrolment
begin

text \<open>
  The provisioning tool, \<open>tools/provision/main.cpp\<close>: its arguments, the five commands, the
  firmware header file and the exit status.

  \<open>P\<close> is the platform of the keystore, \<open>R\<close> the random generator, and the record \<open>files\<close> the
  calls on the header file; its state \<open>'f\<close> is the file system. What the tool prints is a list of
  outputs; the lines that \<open>core/keystore.cpp\<close> logs are not part of it.
\<close>

section \<open>Arguments\<close>

text \<open>
  \<open>std::stoi\<close>: white space, a sign, digits; what follows them is ignored. \<open>None\<close> is either
  exception.
\<close>

definition stoi :: "string \<Rightarrow> int option" where
  "stoi s =
     (let (neg, ds) = number_prefix is_digit s;
          v = (if neg then - int (dec_value ds) else int (dec_value ds))
      in if ds = [] then None
         else if - (2 ^ 31) \<le> v \<and> v < 2 ^ 31 then Some v else None)"

text \<open>The loop over the arguments of \<open>add\<close>: label, header path and length. \<open>None\<close> is \<open>usage\<close>.\<close>

fun add_args :: "string list \<Rightarrow> string \<Rightarrow> string \<Rightarrow> int \<Rightarrow> (string \<times> string \<times> int) option" where
  "add_args [] label header id_length = Some (label, header, id_length)"
| "add_args [a] label header id_length = None"
| "add_args (a # v # args) label header id_length =
     (if a = ''--label'' then add_args args v header id_length
      else if a = ''--firmware-header'' then add_args args label v id_length
      else if a = ''--id-length'' then
        (case stoi v of None \<Rightarrow> None | Some n \<Rightarrow> add_args args label header n)
      else None)"

section \<open>The header file\<close>

text \<open>
  \<open>create_file\<close> is \<open>open\<close> with \<open>O_WRONLY | O_CREAT | O_TRUNC | O_NOFOLLOW\<close> and a mode,
  \<open>write_file\<close> one \<open>write\<close> with what it returns, \<open>file_error\<close> the text of \<open>errno\<close>.
\<close>

record 'f files =
  create_file :: "string \<Rightarrow> nat \<Rightarrow> 'f \<Rightarrow> bool \<times> 'f"
  chmod_file :: "string \<Rightarrow> nat \<Rightarrow> 'f \<Rightarrow> 'f"
  write_file :: "string \<Rightarrow> string \<Rightarrow> 'f \<Rightarrow> int \<times> 'f"
  file_error :: "'f \<Rightarrow> string"

datatype printed = Cout string | Cerr string

text \<open>The mode 0600.\<close>

definition MODE_0600 :: nat where "MODE_0600 = 6 * 8 * 8"

definition write_firmware_header ::
    "'f files \<Rightarrow> string \<Rightarrow> device \<Rightarrow> 'f \<Rightarrow> bool \<times> printed list \<times> 'f" where
  "write_firmware_header F path d f =
     (case create_file F (c_str path) MODE_0600 f of
        (False, f1) \<Rightarrow>
          (False, [Cerr (''cannot write '' @ path @ '': '' @ file_error F f1 @ [nl])], f1)
      | (True, f1) \<Rightarrow>
        let f2 = chmod_file F (c_str path) MODE_0600 f1;
            body = firmware_header (dev_id d) (dev_key d);
            (n, f3) = write_file F (c_str path) body f2;
            ok = (n = int (length body))
        in (ok, if ok then [] else [Cerr (''short write to '' @ path @ [nl])], f3))"

lemma write_firmware_header_complete:
  assumes "write_firmware_header F path d f = (True, msgs, f')"
  shows "\<exists>f1. fst (write_file F (c_str path) (firmware_header (dev_id d) (dev_key d)) f1) =
    int (length (firmware_header (dev_id d) (dev_key d)))"
proof -
  obtain n f1 where "write_file F (c_str path) (firmware_header (dev_id d) (dev_key d))
      (chmod_file F (c_str path) MODE_0600 (snd (create_file F (c_str path) MODE_0600 f))) = (n, f1)"
    by fastforce
  moreover from this assms have "n = int (length (firmware_header (dev_id d) (dev_key d)))"
    by (auto simp: write_firmware_header_def Let_def split: prod.splits bool.splits)
  ultimately show ?thesis by (metis fst_conv)
qed

section \<open>The commands\<close>

definition usage_text :: string where
  "usage_text =
     ''usage:'' @ [nl] @
     ''  provision add [--label TEXT] [--id-length N] [--firmware-header PATH]'' @ [nl] @
     ''  provision list'' @ [nl] @ ''  provision revoke ID'' @ [nl] @
     ''  provision activate ID'' @ [nl] @ ''  provision label ID TEXT'' @ [nl]"

definition report_result :: "lookup \<Rightarrow> string \<Rightarrow> string \<Rightarrow> int \<times> printed list" where
  "report_result r ident done_text =
     (if r = Found then (0, [Cout (ident @ '' '' @ done_text @ [nl])])
      else if r = NotFound then (1, [Cerr (''no device '' @ ident @ [nl])])
      else (1, []))"

definition bad_label_text :: string where
  "bad_label_text = ''label must be 1-64 printable ASCII characters, no quotes or backslashes'' @ [nl]"

type_synonym ('r, 'f, 'db) tool = "(int \<times> printed list) cxx \<times> 'r \<times> 'f \<times> 'db"

text \<open>The end of \<open>cmd_add\<close>, behind the draw loop: what it does with \<open>placed\<close> and the device.\<close>

definition finish_add ::
    "'db platform \<Rightarrow> 'f files \<Rightarrow> string \<Rightarrow> bool \<Rightarrow> device \<Rightarrow> 'f \<Rightarrow> 'db \<Rightarrow> (int \<times> printed list) \<times> 'f \<times> 'db" where
  "finish_add P F header placed d f db =
     (if \<not> placed then
        ((1, [Cerr (''provisioning failed -- device not written'' @ [nl])]), f, db)
      else let (written, msgs, f1) =
          (if header = [] then (True, [], f) else write_firmware_header F header d f)
        in if \<not> written then
          (let (l, db1) = set_device_status P (dev_id d) 0 db
           in ((1, msgs @ [Cerr (''device '' @ dev_id d @
                     '' written but header failed; revoked it'' @ [nl])]), f1, db1))
        else ((0, [Cout (dev_id d @ [nl])] @
                  (if header = [] then []
                   else [Cerr (''firmware header written to '' @ header @ [nl])])), f1, db))"

definition cmd_add ::
    "'db platform \<Rightarrow> 'r rng \<Rightarrow> 'f files \<Rightarrow> string list \<Rightarrow> 'r \<Rightarrow> 'f \<Rightarrow> 'db \<Rightarrow> ('r, 'f, 'db) tool" where
  "cmd_add P R F args r f db =
     (case add_args args ''OK'' '''' (int DEVICE_ID_MIN) of
        None \<Rightarrow> (Inr (2, [Cerr usage_text]), r, f, db)
      | Some (label, header, id_length) \<Rightarrow>
        if \<not> valid_label label then (Inr (2, [Cerr bad_label_text]), r, f, db)
        else if id_length < int DEVICE_ID_MIN \<or> int DEVICE_ID_MAX < id_length then
          (Inr (2, [Cerr (''--id-length must be '' @ nat_to_string DEVICE_ID_MIN @ ''-'' @
                          nat_to_string DEVICE_ID_MAX @ [nl])]), r, f, db)
        else case generate_key R r of
          (Inl e, r1) \<Rightarrow> (Inl e, r1, f, db)
        | (Inr key, r1) \<Rightarrow>
          (case draw_until_free P R id_length 16
                  (device_default\<lparr>dev_status := 1, dev_note := label, dev_key := key\<rparr>) r1 db of
             (Inl e, r2, db1) \<Rightarrow> (Inl e, r2, f, db1)
           | (Inr (placed, d), r2, db1) \<Rightarrow>
             let (res, f1, db2) = finish_add P F header placed d f db1
             in (Inr res, r2, f1, db2)))"

text \<open>\<open>std::left << std::setw(w)\<close>.\<close>

definition set_width :: "nat \<Rightarrow> string \<Rightarrow> string" where
  "set_width w s = s @ replicate (w - length s) (CHR '' '')"

definition list_line :: "device \<Rightarrow> string" where
  "list_line d =
     set_width 10 (dev_id d) @ set_width 10 (if dev_status d = 1 then ''active'' else ''revoked'') @
     set_width 21 (if dev_created d = [] then ''-'' else dev_created d) @ dev_note d @ [nl]"

definition cmd_list :: "'db platform \<Rightarrow> 'db \<Rightarrow> (int \<times> printed list) \<times> 'db" where
  "cmd_list P db =
     (let (ok, devices, db') = list_devices P [] db
      in if \<not> ok then ((1, []), db')
         else ((0, Cout (set_width 10 ''ID'' @ set_width 10 ''STATUS'' @ set_width 21 ''CREATED (UTC)'' @
                         ''LABEL'' @ [nl]) # map (\<lambda>d. Cout (list_line d)) devices), db'))"

text \<open>The commands behind the migration; an exception leaves as an \<open>Inl\<close>.\<close>

definition provision_command ::
    "'db platform \<Rightarrow> 'r rng \<Rightarrow> 'f files \<Rightarrow> string \<Rightarrow> string list \<Rightarrow> 'r \<Rightarrow> 'f \<Rightarrow> 'db \<Rightarrow>
     ('r, 'f, 'db) tool" where
  "provision_command P R F cmd args r f db =
     (if cmd = ''add'' then cmd_add P R F args r f db
      else if cmd = ''list'' \<and> args = [] then
        (let (res, db1) = cmd_list P db in (Inr res, r, f, db1))
      else if cmd = ''revoke'' \<and> length args = 1 then
        (let (l, db1) = set_device_status P (args ! 0) 0 db
         in (Inr (report_result l (args ! 0) ''revoked''), r, f, db1))
      else if cmd = ''activate'' \<and> length args = 1 then
        (let (l, db1) = set_device_status P (args ! 0) 1 db
         in (Inr (report_result l (args ! 0) ''active''), r, f, db1))
      else if cmd = ''label'' \<and> length args = 2 then
        (if \<not> valid_label (args ! 1) then (Inr (2, [Cerr bad_label_text]), r, f, db)
         else let (l, db1) = set_device_note P (args ! 0) (args ! 1) db
              in (Inr (report_result l (args ! 0) ''relabelled''), r, f, db1))
      else (Inr (2, [Cerr usage_text]), r, f, db))"

text \<open>
  \<open>main\<close>, with the arguments after the program's name. \<open>Undefined_behaviour\<close>, which no
  \<open>catch\<close> can handle, stays an \<open>Inl\<close>.
\<close>

definition provision_main ::
    "'db platform \<Rightarrow> 'r rng \<Rightarrow> 'f files \<Rightarrow> string list \<Rightarrow> 'r \<Rightarrow> 'f \<Rightarrow> 'db \<Rightarrow> ('r, 'f, 'db) tool" where
  "provision_main P R F argv r f db =
     (case argv of
        [] \<Rightarrow> (Inr (2, [Cerr usage_text]), r, f, db)
      | cmd # args \<Rightarrow>
        (case migrate_keystore P db of
           (False, db1) \<Rightarrow> (Inr (1, []), r, f, db1)
         | (True, db1) \<Rightarrow>
           (case provision_command P R F cmd args r f db1 of
              (Inl (Runtime_error what), rest) \<Rightarrow>
                (Inr (1, [Cerr (''provision: '' @ what @ [nl])]), rest)
            | res \<Rightarrow> res)))"
section \<open>What the commands do to the table\<close>

definition status_zero :: "krow \<Rightarrow> krow" where
  "status_zero r = r\<lparr>r_status := 0\<rparr>"

text \<open>The table after a run: kept well-formed, and no device or key lost.\<close>

definition safe_change :: "table \<Rightarrow> table \<Rightarrow> bool" where
  "safe_change t t' \<longleftrightarrow> (wf_table t \<longrightarrow> wf_table t') \<and> keys_kept t t'"

lemma safe_change_refl [simp]: "safe_change t t"
  by (simp add: safe_change_def)

lemma safe_change_trans: "safe_change t u \<Longrightarrow> safe_change u v \<Longrightarrow> safe_change t v"
  using keys_kept_trans unfolding safe_change_def by blast

lemma safe_change_placed:
  "placed_spec t d d' t' \<Longrightarrow> valid_key (dev_key d) \<Longrightarrow> valid_label (dev_note d) \<Longrightarrow> safe_change t t'"
  using wf_table_placed keys_kept_placed unfolding safe_change_def by blast

text \<open>The end of the run is a success with the table as it is, or an attempt to revoke.\<close>

lemma finish_add_cases:
  assumes "finish_add P F header True d f db = (out, f', db')"
  obtains (complete) "db' = db" "header \<noteq> [] \<longrightarrow> (\<exists>msgs. write_firmware_header F header d f = (True, msgs, f'))"
      "out = (0, Cout (dev_id d @ [nl]) # (if header = [] then []
         else [Cerr (''firmware header written to '' @ header @ [nl])]))"
  | (revoked) msgs l where "header \<noteq> []" "write_firmware_header F header d f = (False, msgs, f')"
      "set_device_status P (dev_id d) 0 db = (l, db')"
      "out = (1, msgs @ [Cerr (''device '' @ dev_id d @ '' written but header failed; revoked it'' @ [nl])])"
  using assms by (auto simp: finish_add_def split: if_splits prod.splits)

context sqlite_keystore
begin

lemma safe_change_status:
  assumes "set_device_status P i s db = (l, db')"
  shows "safe_change (tbl db) (tbl db')"
proof -
  have upd: "update_spec (tbl db) i (\<lambda>r. r\<lparr>r_status := s\<rparr>) l (tbl db')" "l = Found \<longrightarrow> s \<in> {0, 1}"
    using set_device_status_refines [OF assms] by blast+
  then show ?thesis
    using wf_table_status [OF _ upd] keys_kept_status [OF upd(1)] by (simp add: safe_change_def)
qed

lemma safe_change_note:
  assumes "set_device_note P i n db = (l, db')" and "valid_label n"
  shows "safe_change (tbl db) (tbl db')"
  using wf_table_note [OF _ set_device_note_refines [OF assms(1)] assms(2)]
    keys_kept_note [OF set_device_note_refines [OF assms(1)]]
  by (simp add: safe_change_def)

text \<open>The outcomes of \<open>add\<close>, by what happened.\<close>

lemma cmd_add_outcome:
  assumes "csprng R" and "cmd_add P R F args r f db = (res, r', f', db')"
  obtains (nothing) "tbl db' = tbl db" "\<And>outs. res \<noteq> Inr (0, outs)"
  | (placed) label header id_length key d db1 out
    where "add_args args ''OK'' '''' 4 = Some (label, header, id_length)" "valid_label label" "valid_key key"
      "placed_spec (tbl db) (device_default\<lparr>dev_status := 1, dev_note := label, dev_key := key\<rparr>) d (tbl db1)"
      "finish_add P F header True d f db1 = (out, f', db')" "res = Inr out"
proof (cases "\<exists>label header n. add_args args ''OK'' '''' 4 = Some (label, header, n) \<and>
    valid_label label \<and> 4 \<le> n \<and> n \<le> 8")
  case False
  show thesis
    by (rule nothing) (use False assms(2) in
      \<open>auto simp: cmd_add_def DEVICE_ID_MIN_def DEVICE_ID_MAX_def split: option.splits if_splits\<close>)
next
  case True
  then obtain label header n where args: "add_args args ''OK'' '''' 4 = Some (label, header, n)"
    "valid_label label" "\<not> n < 4" "\<not> 8 < n" by auto
  note eqs = cmd_add_def DEVICE_ID_MIN_def DEVICE_ID_MAX_def args
  obtain kr r1 where k: "generate_key R r = (kr, r1)" by fastforce
  show thesis
  proof (cases kr)
    case (Inl e)
    show thesis by (rule nothing) (use Inl assms(2) k in \<open>auto simp: eqs\<close>)
  next
    case (Inr key)
    let ?d = "device_default\<lparr>dev_status := 1, dev_note := label, dev_key := key\<rparr>"
    have key: "valid_key key" using generate_key_valid [OF assms(1)] k Inr by blast
    obtain dr r2 db1 where dr: "draw_until_free P R n 16 ?d r1 db = (dr, r2, db1)"
      by (metis prod_cases3)
    note spec = draw_until_free_spec [OF dr]
    consider (threw) e where "dr = Inl e" | (gave_up) d where "dr = Inr (False, d)"
      | (found) d where "dr = Inr (True, d)" by (metis (full_types) prod.exhaust sum.exhaust)
    then show thesis
    proof cases
      case threw
      show thesis by (rule nothing) (use threw assms(2) spec k Inr dr in \<open>auto simp: eqs\<close>)
    next
      case gave_up
      show thesis by (rule nothing)
        (use gave_up assms(2) spec k Inr dr in \<open>auto simp: eqs finish_add_def\<close>)
    next
      case found
      obtain out f1 db2 where fin: "finish_add P F header True d f db1 = (out, f1, db2)"
        by (metis prod_cases3)
      show thesis
        by (rule placed [OF args(1,2) key]) (use found assms(2) spec k Inr dr fin in \<open>auto simp: eqs\<close>)
    qed
  qed
qed

end

context sqlite_keystore
begin

lemma safe_change_add:
  assumes "csprng R" and "cmd_add P R F args r f db = (res, r', f', db')"
  shows "safe_change (tbl db) (tbl db')"
  using assms
proof (cases rule: cmd_add_outcome)
  case nothing
  then show ?thesis by simp
next
  case (placed label header id_length key d db1 out)
  have "safe_change (tbl db) (tbl db1)"
    by (rule safe_change_placed [OF placed(4)]) (use placed(2,3) in simp_all)
  moreover have "safe_change (tbl db1) (tbl db')"
    using placed(5) by (cases rule: finish_add_cases) (auto intro: safe_change_status)
  ultimately show ?thesis by (rule safe_change_trans)
qed

lemma safe_change_command:
  assumes "csprng R" and "provision_command P R F cmd args r f db = (res, r', f', db')"
  shows "safe_change (tbl db) (tbl db')"
proof -
  consider (add) "cmd = ''add''" | (list) "cmd = ''list''" "args = []"
    | (revoke) "cmd = ''revoke''" "length args = 1" | (activate) "cmd = ''activate''" "length args = 1"
    | (label) "cmd = ''label''" "length args = 2" "valid_label (args ! 1)"
    | (other) "provision_command P R F cmd args r f db = (res, r, f, db)"
    using assms(2) by (auto simp: provision_command_def split: if_splits)
  then show ?thesis
  proof cases
    case add
    with assms show ?thesis using safe_change_add by (simp add: provision_command_def)
  next
    case list
    with assms(2) show ?thesis
      by (auto simp: provision_command_def cmd_list_def split: prod.splits if_splits
          dest!: list_devices_refines)
  next
    case revoke
    with assms(2) show ?thesis
      by (auto simp: provision_command_def split: prod.splits dest: safe_change_status)
  next
    case activate
    with assms(2) show ?thesis
      by (auto simp: provision_command_def split: prod.splits dest: safe_change_status)
  next
    case label
    with assms(2) show ?thesis
      by (auto simp: provision_command_def split: prod.splits dest: safe_change_note)
  next
    case other
    with assms(2) show ?thesis by simp
  qed
qed

lemma safe_change_main:
  assumes "csprng R" and "provision_main P R F argv r f db = (res, r', f', db')"
  shows "safe_change (tbl db) (tbl db')"
proof (cases argv)
  case Nil
  with assms(2) show ?thesis by (simp add: provision_main_def)
next
  case (Cons cmd args)
  obtain ok db1 where m: "migrate_keystore P db = (ok, db1)" by fastforce
  obtain res1 r1 f1 db2 where c: "provision_command P R F cmd args r f db1 = (res1, r1, f1, db2)"
    by (metis prod_cases4)
  have "db' = db1 \<or> db' = db2"
    using assms(2) Cons m c
    by (auto simp: provision_main_def split: bool.splits sum.splits cxx_error.splits)
  then show ?thesis
    using safe_change_command [OF assms(1) c] migrate_keystore_tbl [OF m] by auto
qed

end

section \<open>A concrete file system\<close>

text \<open>
  Files by name, with a limit on what one \<open>write\<close> accepts: enough to run the tool on, with and
  without a failing header.
\<close>

record disk =
  disk_files :: "(string \<times> string) list"
  disk_space :: nat

definition disk_calls :: "disk files" where
  "disk_calls =
     \<lparr>create_file = (\<lambda>path mode f. (path \<noteq> [], f\<lparr>disk_files := (path, '''') # disk_files f\<rparr>)),
      chmod_file = (\<lambda>path mode f. f),
      write_file = (\<lambda>path body f.
        (int (min (disk_space f) (length body)),
         f\<lparr>disk_files := (path, take (disk_space f) body) # disk_files f\<rparr>)),
      file_error = (\<lambda>f. ''No such file or directory'')\<rparr>"

lemma provision_add_spec:
  assumes "sqlite_keystore P tbl" and "csprng R"
    and "provision_main P R F (''add'' # args) r f db = (Inr (0, outs), r', f', db')"
  shows "\<exists>label header n ident key ts. add_args args ''OK'' '''' 4 = Some (label, header, n) \<and>
    valid_device_id ident \<and> valid_key key \<and> tbl db ident = None \<and>
    tbl db' = (tbl db)(ident \<mapsto> \<lparr>r_key = key, r_status = 1, r_note = label, r_created = Some ts\<rparr>) \<and>
    outs = Cout (ident @ [nl]) # (if header = [] then []
             else [Cerr (''firmware header written to '' @ header @ [nl])]) \<and>
    (header \<noteq> [] \<longrightarrow> (\<exists>f1. fst (write_file F (c_str header) (firmware_header ident key) f1) =
       int (length (firmware_header ident key))))"
proof -
  obtain ok db1 where m: "migrate_keystore P db = (ok, db1)" by fastforce
  have c: "cmd_add P R F args r f db1 = (Inr (0, outs), r', f', db')"
    using assms(3) m
    by (auto simp: provision_main_def provision_command_def split: bool.splits prod.splits sum.splits
        cxx_error.splits)
  have t: "tbl db1 = tbl db" by (rule sqlite_keystore.migrate_keystore_tbl [OF assms(1) m])
  show ?thesis
  proof (cases rule: sqlite_keystore.cmd_add_outcome [OF assms(1,2) c, case_names nothing placed])
    case nothing
    then show ?thesis by blast
  next
    case (placed label header n key d db2 out)
    have out: "fst out = 0" using placed(6) by auto
    have w: "db' = db2" "header \<noteq> [] \<longrightarrow> (\<exists>msgs. write_firmware_header F header d f = (True, msgs, f'))"
        "outs = Cout (dev_id d @ [nl]) # (if header = [] then []
             else [Cerr (''firmware header written to '' @ header @ [nl])])"
      using placed(5,6) out by (cases rule: finish_add_cases; simp)+
    from placed(4) obtain i ts where i: "valid_device_id i" "tbl db i = None" "dev_id d = i" "dev_key d = key"
        "tbl db2 = (tbl db)(i \<mapsto> \<lparr>r_key = key, r_status = 1, r_note = label, r_created = Some ts\<rparr>)"
      using placed(2,3) by (auto simp: placed_spec_def t new_row_def)
    show ?thesis
      by (rule exI [of _ label], rule exI [of _ header], rule exI [of _ n], rule exI [of _ i],
          rule exI [of _ key], rule exI [of _ ts])
         (use placed(1,3) i w write_firmware_header_complete [where F = F and path = header and d = d] in auto)
  qed
qed

text \<open>Sixty-eight random bytes: a key and one identifier.\<close>

lemma sample_draw:
  "generate_key list_rng (replicate 68 0) = (Inr (hex_of (replicate 64 0)), replicate 4 0)"
  "generate_device_id list_rng 4 (replicate 4 0) = (Inr ''0000'', [])"
  by (simp_all add: generate_key_def generate_device_id_def list_rng_def id_char_def id_alphabet_def
      eval_simps)

definition sample_enrolled :: "bool list \<Rightarrow> mem_db" where
  "sample_enrolled faults =
     sample_db\<lparr>mem_faults := faults,
       mem_rows := (''0000'', \<lparr>r_key = hex_of (replicate 64 0), r_status = 1, r_note = ''OK'',
                               r_created = Some ''2026-09-18 12:00:00''\<rparr>) # mem_rows sample_db\<rparr>"

lemma valid_key_zero: "valid_key (hex_of (replicate 64 0))"
  by (simp add: valid_key_def hex_of_chars)

text \<open>The platform calls of one enrolment, with the faults that come after them.\<close>

lemma sample_migrate:
  "migrate_keystore mem_platform (sample_db\<lparr>mem_faults := replicate 9 False @ fs\<rparr>) =
     (True, sample_db\<lparr>mem_faults := replicate 6 False @ fs\<rparr>)"
  by (simp add: migrate_keystore_def open_db_def db_path_def mem_open_def mem_prepare_def mem_run_def
      mem_stmt_defs mem_fault_def sample_db_def eval_simps column_text_def sqlite3_column_text_def c_str_def)

lemma sample_place:
  "draw_until_free mem_platform list_rng 4 16
     (device_default\<lparr>dev_status := 1, dev_note := ''OK'', dev_key := hex_of (replicate 64 0)\<rparr>)
     (replicate 4 0) (sample_db\<lparr>mem_faults := replicate 6 False @ fs\<rparr>) =
   (Inr (True, device_default\<lparr>dev_status := 1, dev_note := ''OK'', dev_key := hex_of (replicate 64 0),
      dev_id := ''0000''\<rparr>), [], sample_enrolled fs)"
proof -
  have i: "valid_device_id ''0000''" by (simp add: valid_device_id_iff crockford_char_def)
  have f: "find_device mem_platform ''0000'' device_default (sample_db\<lparr>mem_faults := replicate 6 False @ fs\<rparr>) =
      (NotFound, device_default, sample_db\<lparr>mem_faults := replicate 3 False @ fs\<rparr>)"
    using i by (simp add: find_device_def open_db_def db_path_def mem_open_def mem_prepare_def
        mem_stmt_defs mem_fault_def sample_db_def eval_simps first_step_def)
  have a: "add_device mem_platform (device_default\<lparr>dev_status := 1, dev_note := ''OK'',
        dev_key := hex_of (replicate 64 0), dev_id := ''0000''\<rparr>)
        (sample_db\<lparr>mem_faults := replicate 3 False @ fs\<rparr>) = (True, sample_enrolled fs)"
    using i valid_key_zero
    by (simp add: add_device_def open_db_def db_path_def mem_open_def mem_prepare_def
        mem_stmt_defs mem_fault_def sample_db_def eval_simps first_step_def sample_enrolled_def c_str_id [of "''OK''"])
  have n: "(16 :: nat) = Suc 15" by simp
  show ?thesis unfolding n draw_until_free.simps sample_draw sum.case prod.case Let_def f
    using a by simp
qed

section \<open>Properties\<close>

text \<open>
  Whatever the arguments, whichever call of the keystore, the generator or the file system
  fails: a run of the tool leaves a well-formed table well-formed, removes no device and changes
  no device's key.
\<close>

theorem provision_keeps_table:
  assumes "sqlite_keystore P tbl" and "csprng R" and "wf_table (tbl db)"
    and "provision_main P R F argv r f db = (res, r', f', db')"
  shows "wf_table (tbl db') \<and> keys_kept (tbl db) (tbl db')"
  using sqlite_keystore.safe_change_main [OF assms(1,2,4)] assms(3) by (simp add: safe_change_def)

theorem provision_keeps_table_witness:
  "\<exists>res r' f' db'. provision_main mem_platform list_rng disk_calls [''label'', ''7Q5V'', ''desk''] [] 
      \<lparr>disk_files = [], disk_space = 0\<rparr> sample_db = (res, r', f', db') \<and> wf_table (mem_tbl db')"
proof -
  let ?f = "\<lparr>disk_files = [], disk_space = 0\<rparr>"
  obtain res r' f' db' where run: "provision_main mem_platform list_rng disk_calls
      [''label'', ''7Q5V'', ''desk''] [] ?f sample_db = (res, r', f', db')"
    by (metis prod_cases4)
  from provision_keeps_table [OF mem.sqlite_keystore_axioms csprng_list_rng wf_table_sample run] run
  show ?thesis by blast
qed



text \<open>
  A failed header does not always revoke. When the header cannot be written the tool calls
  \<open>set_device_status\<close> and reports \<open>revoked it\<close> without looking at the result: if the keystore
  fails at that moment, the run exits with that message and the new device stays active.
\<close>

theorem provision_claims_revocation:
  "\<exists>msg r' f' db'. provision_main mem_platform list_rng disk_calls
      [''add'', ''--firmware-header'', ''h''] (replicate 68 0) \<lparr>disk_files = [], disk_space = 0\<rparr>
      (sample_db\<lparr>mem_faults := replicate 9 False @ [True]\<rparr>) =
      (Inr (1, [msg, Cerr (''device 0000 written but header failed; revoked it'' @ [nl])]), r', f', db') \<and>
    map_option r_status (mem_tbl db' ''0000'') = Some 1"
proof -
  let ?f = "\<lparr>disk_files = [], disk_space = 0\<rparr>"
  let ?d = "device_default\<lparr>dev_status := 1, dev_note := ''OK'', dev_key := hex_of (replicate 64 0),
      dev_id := ''0000''\<rparr>"
  have label: "valid_label ''OK''" by (simp add: valid_label_iff label_char_def)
  have i: "valid_device_id ''0000''" by (simp add: valid_device_id_iff crockford_char_def)
  have "firmware_header x y \<noteq> []" for x y by (simp add: firmware_header_def)
  then obtain f1 where h: "write_firmware_header disk_calls ''h'' ?d ?f =
      (False, [Cerr (''short write to h'' @ [nl])], f1)"
    by (simp add: write_firmware_header_def disk_calls_def c_str_def Let_def)
  have s: "set_device_status mem_platform ''0000'' 0 (sample_enrolled [True]) = (Error, sample_enrolled [])"
    using i by (simp add: set_device_status_def update_one_def open_db_def mem_open_def mem_fault_def
        sample_enrolled_def)
  have "provision_main mem_platform list_rng disk_calls [''add'', ''--firmware-header'', ''h'']
      (replicate 68 0) ?f (sample_db\<lparr>mem_faults := replicate 9 False @ [True]\<rparr>) =
      (Inr (1, [Cerr (''short write to h'' @ [nl]),
        Cerr (''device 0000 written but header failed; revoked it'' @ [nl])]), [], f1, sample_enrolled [])"
    using sample_migrate [of "[True]"] sample_place [of "[True]"] label h s
    by (simp add: provision_main_def provision_command_def cmd_add_def finish_add_def sample_draw DEVICE_ID_MIN_def
        DEVICE_ID_MAX_def)
  moreover have "map_option r_status (mem_tbl (sample_enrolled []) ''0000'') = Some 1"
    by (simp add: mem_tbl_def sample_enrolled_def)
  ultimately show ?thesis by blast
qed

end
