(* ===== verification/Otp.thy ===== *)
theory Otp
  imports Prelude
begin

text \<open>
  The OTP arithmetic of \<open>core/otp.cpp\<close> and \<open>core/otp.hpp\<close>: the HMAC call, dynamic
  truncation, the window counter of a time, the code of a counter and its decimal form.

  The HMAC itself is OpenSSL's and is a parameter \<open>H\<close>: key bytes and message bytes to the
  digest, or \<open>None\<close> where \<open>HMAC()\<close> returns a null pointer. What the code relies on is that
  SHA-256 digests are 32 bytes long (\<open>hmac_digest_32\<close>).
\<close>

type_synonym hmac_fn = "byte list \<Rightarrow> byte list \<Rightarrow> byte list option"

text \<open>\<open>time_t\<close> is a 64-bit two's complement integer; the code only casts it to \<open>uint64_t\<close>.\<close>

type_synonym time_t = "64 word"

definition OTP_SIZE :: nat where "OTP_SIZE = 8"

definition OTP_STEP_SECONDS :: int where "OTP_STEP_SECONDS = 90"

definition hmac_digest_32 :: "hmac_fn \<Rightarrow> bool" where
  "hmac_digest_32 H \<longleftrightarrow> (\<forall>key msg. \<exists>d. H key msg = Some d \<and> length d = 32)"

section \<open>The code\<close>

definition hmac_sha256 :: "hmac_fn \<Rightarrow> string \<Rightarrow> byte list \<Rightarrow> byte list cxx" where
  "hmac_sha256 H key msg =
     (case H (bytes_of key) msg of
        None \<Rightarrow> Inl (Runtime_error ''HMAC failed'')
      | Some digest \<Rightarrow> Inr digest)"

text \<open>\<open>uint32_t mod = 1; for (int i = 0; i < digits; i++) mod *= 10;\<close>, wrapping.\<close>

fun mod_loop :: "nat \<Rightarrow> u32 \<Rightarrow> u32" where
  "mod_loop 0 m = m"
| "mod_loop (Suc i) m = mod_loop i (m * 10)"

definition dynamic_truncate :: "byte list \<Rightarrow> int \<Rightarrow> u32 cxx" where
  "dynamic_truncate hmac digits =
     (if hmac = [] then Inl Undefined_behaviour
      else let offset = unat (last hmac AND 0x0F) in
        if length hmac \<le> offset + 3 then Inl Undefined_behaviour
        else let
            bin_code = push_bit 24 (ucast (hmac ! offset AND 0x7F) :: u32) OR
                       push_bit 16 (ucast (hmac ! (offset + 1) AND 0xFF)) OR
                       push_bit 8 (ucast (hmac ! (offset + 2) AND 0xFF)) OR
                       ucast (hmac ! (offset + 3) AND 0xFF);
            modulus = mod_loop (nat digits) 1
          in if modulus = 0 then Inl Undefined_behaviour else Inr (bin_code mod modulus))"

definition counter_for_time :: "time_t \<Rightarrow> int \<Rightarrow> u64 cxx" where
  "counter_for_time now step_seconds =
     (let step = of_int step_seconds :: u64 in
      if step = 0 then Inl Undefined_behaviour else Inr (now div step))"

text \<open>
  \<open>fill_be n\<close> is the loop \<open>for (int i = 7; i >= 0; i--)\<close> with \<open>i = n - 1\<close> next: it stores the
  low byte of the counter at \<open>i\<close> and shifts the counter right.
\<close>

fun fill_be :: "nat \<Rightarrow> u64 \<Rightarrow> byte list \<Rightarrow> byte list" where
  "fill_be 0 counter buf = buf"
| "fill_be (Suc i) counter buf =
     fill_be i (drop_bit 8 counter) (buf[i := ucast (counter AND 0xFF)])"

definition counter_bytes :: "u64 \<Rightarrow> byte list" where
  "counter_bytes counter = fill_be 8 counter (replicate 8 0)"

definition totp_for_counter :: "hmac_fn \<Rightarrow> string \<Rightarrow> u64 \<Rightarrow> int \<Rightarrow> u32 cxx" where
  "totp_for_counter H key counter digits =
     bind_cxx (hmac_sha256 H key (counter_bytes counter))
       (\<lambda>mac. dynamic_truncate mac digits)"

definition totp :: "hmac_fn \<Rightarrow> string \<Rightarrow> time_t \<Rightarrow> int \<Rightarrow> int \<Rightarrow> u32 cxx" where
  "totp H key now step_seconds digits =
     bind_cxx (counter_for_time now step_seconds)
       (\<lambda>counter. totp_for_counter H key counter digits)"

text \<open>\<open>setfill('0') << setw(OTP_SIZE) << code\<close>: padded on the left, never cut.\<close>

definition zero_pad :: "nat \<Rightarrow> string \<Rightarrow> string" where
  "zero_pad w s = replicate (w - length s) (CHR ''0'') @ s"

definition pad_and_convert :: "u32 \<Rightarrow> string" where
  "pad_and_convert code = zero_pad OTP_SIZE (nat_to_string (unat code))"

section \<open>Padding\<close>

lemma zero_pad_digits: "c \<in> set (zero_pad w (nat_to_string n)) \<Longrightarrow> is_digit c"
  by (auto simp: zero_pad_def is_digit_def dest: nat_to_string_digits)

lemma dec_value_zero_pad [simp]: "dec_value (zero_pad w s) = dec_value s"
  by (simp add: zero_pad_def)

lemma length_zero_pad: "0 < w \<Longrightarrow> n < 10 ^ w \<Longrightarrow> length (zero_pad w (nat_to_string n)) = w"
  using length_nat_to_string_le [of w n] by (simp add: zero_pad_def)

section \<open>The counter's bytes\<close>

text \<open>What a big-endian byte list stands for.\<close>

definition be_value :: "byte list \<Rightarrow> nat" where
  "be_value bs = foldl (\<lambda>a b. 256 * a + unat b) 0 bs"

lemma be_value_snoc [simp]: "be_value (bs @ [b]) = 256 * be_value bs + unat b"
  by (simp add: be_value_def)

lemma length_fill_be [simp]: "length (fill_be n c buf) = length buf"
  by (induction n c buf rule: fill_be.induct) simp_all

lemma fill_be_above: "n \<le> i \<Longrightarrow> i < length buf \<Longrightarrow> fill_be n c buf ! i = buf ! i"
  by (induction n c buf rule: fill_be.induct) simp_all

lemma unat_low_byte: "unat (ucast (c AND 0xFF :: u64) :: byte) = unat c mod 256"
proof -
  have "c AND mask 8 = take_bit 8 c" by (simp only: take_bit_eq_mask)
  then show ?thesis
    by (simp add: mask_eq_exp_minus_1 unsigned_ucast_eq unat_mod take_bit_eq_mod)
qed

lemma be_value_fill_be:
  "n \<le> length buf \<Longrightarrow> be_value (take n (fill_be n c buf)) = unat c mod 256 ^ n"
proof (induction n arbitrary: c buf)
  case 0
  then show ?case by (simp add: be_value_def)
next
  case (Suc n)
  let ?buf = "buf[n := ucast (c AND 0xFF)]"
  let ?r = "fill_be n (drop_bit 8 c) ?buf"
  have "take (Suc n) ?r = take n ?r @ [ucast (c AND 0xFF)]"
    using Suc.prems by (simp add: take_Suc_conv_app_nth fill_be_above)
  moreover have "be_value (take n ?r) = unat c div 256 mod 256 ^ n"
    using Suc by (simp add: drop_bit_eq_div unat_div)
  ultimately show ?case
    by (simp add: unat_low_byte mod_mult2_eq)
qed

lemma length_counter_bytes [simp]: "length (counter_bytes c) = 8"
  by (simp add: counter_bytes_def)

lemma be_value_counter_bytes [simp]: "be_value (counter_bytes c) = unat c"
proof -
  have "unat c < 256 ^ 8"
    using unsigned_less [of c, where 'a = nat] by simp
  then show ?thesis
    using be_value_fill_be [of 8 "replicate 8 0" c] by (simp add: counter_bytes_def)
qed

lemma counter_bytes_inj: "counter_bytes c = counter_bytes d \<Longrightarrow> c = d"
  by (metis be_value_counter_bytes unsigned_word_eqI)

section \<open>Dynamic truncation\<close>

text \<open>
  The truncation of RFC 4226, section 5.3, on numbers: four bytes at the offset the low nibble
  of the last byte names, the top bit dropped.
\<close>

definition rfc4226_dt :: "byte list \<Rightarrow> nat" where
  "rfc4226_dt hmac =
     (let offset = unat (last hmac) mod 16
      in (unat (hmac ! offset) mod 128) * 2 ^ 24 + unat (hmac ! (offset + 1)) * 2 ^ 16 +
         unat (hmac ! (offset + 2)) * 2 ^ 8 + unat (hmac ! (offset + 3)))"

lemma unat_mod_loop: "unat (mod_loop n m) = unat m * 10 ^ n mod 2 ^ 32"
proof (induction n m rule: mod_loop.induct)
  case (1 m)
  then show ?case using unsigned_less [of m, where 'a = nat] by simp
next
  case (2 i m)
  then show ?case by (simp add: unat_word_ariths mod_mult_left_eq mult.assoc)
qed


lemma unat_and_0x7F: "unat ((b :: byte) AND 0x7F) = unat b mod 128"
proof -
  have "b AND mask 7 = take_bit 7 b" by (simp only: take_bit_eq_mask)
  then show ?thesis by (simp add: mask_eq_exp_minus_1 unat_mod take_bit_eq_mod)
qed

lemma unat_and_0x0F: "unat ((b :: byte) AND 0x0F) = unat b mod 16"
proof -
  have "b AND mask 4 = take_bit 4 b" by (simp only: take_bit_eq_mask)
  then show ?thesis by (simp add: mask_eq_exp_minus_1 unat_mod take_bit_eq_mod)
qed

lemma byte_and_0xFF [simp]: "(b :: byte) AND 0xFF = b"
proof -
  have "b AND mask 8 = b" by (simp flip: take_bit_eq_mask add: take_bit_word_eq_self)
  then show ?thesis by (simp add: mask_eq_exp_minus_1)
qed

lemma unat_push_byte:
  assumes "n \<le> 24"
  shows "unat (push_bit n (ucast (b :: byte) :: u32)) = unat b * 2 ^ n"
proof -
  have "unat b < 2 ^ 8" using unsigned_less [of b, where 'a = nat] by simp
  then have "unat b * 2 ^ n < 2 ^ (8 + n)" by (simp add: power_add)
  also have "\<dots> \<le> 2 ^ 32" using assms by (intro power_increasing) simp_all
  finally show ?thesis
    by (simp only: unsigned_push_bit_eq unsigned_ucast_eq) (simp add: push_bit_eq_mult take_bit_eq_mod mod_mult_left_eq)
qed

lemma or_eq_add_below:
  fixes a b :: nat
  assumes "b < 2 ^ n"
  shows "(a * 2 ^ n) OR b = a * 2 ^ n + b"
proof -
  have "take_bit n b = b" using assms by (simp add: take_bit_nat_eq_self)
  then have "a * 2 ^ n AND b = push_bit n a AND take_bit n b" by (simp add: push_bit_eq_mult)
  also have "\<dots> = 0" by (rule bit_eqI) (auto simp: bit_simps)
  finally show ?thesis by (rule disjunctive_add_eq_or [symmetric])
qed

lemma unat_byte_less [simp]: "unat (b :: byte) < 256"
  using unsigned_less [of b, where 'a = nat] by simp

lemma unat_or4:
  fixes b0 b1 b2 b3 :: byte
  shows "unat (push_bit 24 (ucast b0 :: u32) OR push_bit 16 (ucast b1) OR push_bit 8 (ucast b2) OR ucast b3)
     = unat b0 * 2 ^ 24 + unat b1 * 2 ^ 16 + unat b2 * 2 ^ 8 + unat b3"
proof -
  have b: "unat b1 < 256" "unat b2 < 256" "unat b3 < 256" by simp_all
  have 3: "unat b2 * 2 ^ 8 OR unat b3 = unat b2 * 2 ^ 8 + unat b3"
    by (rule or_eq_add_below) (use b in simp)
  have 2: "unat b1 * 2 ^ 16 OR (unat b2 * 2 ^ 8 + unat b3) = unat b1 * 2 ^ 16 + (unat b2 * 2 ^ 8 + unat b3)"
    by (rule or_eq_add_below) (use b in \<open>simp; linarith\<close>)
  have 1: "unat b0 * 2 ^ 24 OR (unat b1 * 2 ^ 16 + (unat b2 * 2 ^ 8 + unat b3)) =
      unat b0 * 2 ^ 24 + (unat b1 * 2 ^ 16 + (unat b2 * 2 ^ 8 + unat b3))"
    by (rule or_eq_add_below) (use b in \<open>simp; linarith\<close>)
  have 0: "unat (ucast b3 :: u32) = unat b3"
    using unat_push_byte [of 0 b3] by simp
  have "unat (push_bit 24 (ucast b0 :: u32) OR (push_bit 16 (ucast b1) OR (push_bit 8 (ucast b2) OR ucast b3)))
     = unat b0 * 2 ^ 24 + (unat b1 * 2 ^ 16 + (unat b2 * 2 ^ 8 + unat b3))"
    by (simp only: unsigned_or_eq unat_push_byte 0 1 2 3 numeral_le_iff semiring_norm order_refl)
  then show ?thesis by (simp only: or.assoc add.assoc)
qed

lemma dynamic_truncate_eq:
  assumes "hmac \<noteq> []" and "unat (last hmac) mod 16 + 3 < length hmac"
    and "0 \<le> digits" and "digits \<le> 9"
  shows "dynamic_truncate hmac digits =
    Inr (word_of_nat (rfc4226_dt hmac mod 10 ^ nat digits))"
proof -
  let ?o = "unat (last hmac) mod 16"
  let ?bin = "push_bit 24 (ucast (hmac ! ?o AND 0x7F) :: u32) OR push_bit 16 (ucast (hmac ! (?o + 1)))
    OR push_bit 8 (ucast (hmac ! (?o + 2))) OR ucast (hmac ! (?o + 3))"
  have bin: "unat ?bin = rfc4226_dt hmac"
    by (simp only: unat_or4 rfc4226_dt_def Let_def unat_and_0x7F)
  have "(10 :: nat) ^ nat digits \<le> 10 ^ 9"
    using assms by (intro power_increasing) auto
  then have modulus: "unat (mod_loop (nat digits) 1) = 10 ^ nat digits"
    by (simp add: unat_mod_loop)
  then have nz: "mod_loop (nat digits) 1 \<noteq> 0" by (metis unat_0 power_not_zero zero_neq_numeral)
  have "?bin mod mod_loop (nat digits) 1 = word_of_nat (rfc4226_dt hmac mod 10 ^ nat digits)"
    by (simp only: word_arith_nat_mod bin modulus)
  then show ?thesis
    using assms nz by (simp only: dynamic_truncate_def Let_def unat_and_0x0F byte_and_0xFF) simp
qed

text \<open>
  The modulus is \<open>10 ^ digits\<close> modulo \<open>2 ^ 32\<close>: exact up to nine digits, zero from 32 on, where
  the remainder is undefined.
\<close>

lemma mod_loop_eq_0_iff: "mod_loop n 1 = 0 \<longleftrightarrow> 32 \<le> n"
proof -
  have "coprime (2 :: nat) 5" by (simp add: coprime_left_2_iff_odd)
  then have cop: "coprime ((2 :: nat) ^ 32) (5 ^ n)"
    by (simp only: coprime_power_left_iff coprime_power_right_iff simp_thms)
  have ten: "(10 :: nat) ^ n = 2 ^ n * 5 ^ n" by (simp flip: power_mult_distrib)
  have "mod_loop n 1 = 0 \<longleftrightarrow> 10 ^ n mod 2 ^ 32 = (0 :: nat)"
    using unat_mod_loop [of n 1] by (metis nat_mult_1 unat_1 unat_eq_zero)
  also have "\<dots> \<longleftrightarrow> (2 :: nat) ^ 32 dvd 2 ^ n * 5 ^ n"
    by (simp only: dvd_eq_mod_eq_0 ten)
  also have "\<dots> \<longleftrightarrow> (2 :: nat) ^ 32 dvd 2 ^ n"
    by (rule coprime_dvd_mult_left_iff [OF cop])
  also have "\<dots> \<longleftrightarrow> 32 \<le> n"
    by (simp only: dvd_power_iff_le [of 2])
  finally show ?thesis .
qed

lemma totp_for_counter_eq:
  assumes "H (bytes_of key) (counter_bytes counter) = Some d" and "length d = 32"
  shows "totp_for_counter H key counter 8 = Inr (word_of_nat (rfc4226_dt d mod 10 ^ 8))"
proof -
  have "unat (last d) mod 16 < 16" by simp
  with assms(2) have "unat (last d) mod 16 + 3 < length d" by linarith
  moreover have "d \<noteq> []" using assms(2) by auto
  ultimately have "dynamic_truncate d 8 = Inr (word_of_nat (rfc4226_dt d mod 10 ^ nat 8))"
    by (intro dynamic_truncate_eq) simp_all
  then show ?thesis
    by (simp only: totp_for_counter_def hmac_sha256_def assms(1) option.case bind_cxx_simps
        nat_numeral)
qed

lemma totp_for_counter_string:
  assumes "H (bytes_of key) (counter_bytes counter) = Some d" and "length d = 32"
  shows "\<exists>code. totp_for_counter H key counter 8 = Inr code \<and>
    unat code = rfc4226_dt d mod 10 ^ 8 \<and>
    length (pad_and_convert code) = 8 \<and> (\<forall>c \<in> set (pad_and_convert code). is_digit c) \<and>
    dec_value (pad_and_convert code) = rfc4226_dt d mod 10 ^ 8"
proof -
  define n where "n = rfc4226_dt d mod 10 ^ 8"
  then have n: "n < 10 ^ 8" by simp
  then have u: "unat (word_of_nat n :: u32) = n"
    by (simp add: unat_of_nat)
  have "totp_for_counter H key counter 8 = Inr (word_of_nat n)"
    using totp_for_counter_eq [where H = H, OF assms] by (simp only: n_def)
  then show ?thesis
    using n length_zero_pad [of 8 n] unfolding n_def [symmetric]
    by (intro exI [of _ "word_of_nat n"])
       (auto simp: u pad_and_convert_def OTP_SIZE_def dest: zero_pad_digits)
qed

section \<open>Window counters\<close>

lemma counter_for_time_eq [simp]: "counter_for_time now OTP_STEP_SECONDS = Inr (now div 90)"
  by (simp add: counter_for_time_def OTP_STEP_SECONDS_def)

lemma unat_div_90: "unat ((now :: u64) div 90) = unat now div 90"
  by (simp add: unat_div)

section \<open>A concrete digest\<close>

text \<open>
  A total function with 32-byte results, to instantiate \<open>H\<close>: four copies of the message,
  each byte combined with the exclusive or of the key's bytes. It shows that the hypotheses on
  \<open>H\<close> can hold; nothing rests on what it computes.
\<close>

definition sample_hmac :: hmac_fn where
  "sample_hmac key msg =
     (let k = foldl (XOR) 0 key
      in Some (map (\<lambda>b. b XOR k) (take 32 (concat (replicate 4 msg) @ replicate 32 0))))"

lemma hmac_digest_32_sample: "hmac_digest_32 sample_hmac"
  unfolding hmac_digest_32_def sample_hmac_def Let_def by (auto simp: min_def)

lemma fill_be_numeral [eval_simps]:
  "fill_be (numeral k) c buf =
     fill_be (pred_numeral k) (drop_bit 8 c) (buf[pred_numeral k := ucast (c AND 0xFF)])"
  by (simp add: numeral_eq_Suc)

lemma mod_loop_numeral [eval_simps]:
  "mod_loop (numeral k) m = mod_loop (pred_numeral k) (m * 10)"
  by (simp add: numeral_eq_Suc)

lemmas otp_eval [eval_simps] =
  totp_def totp_for_counter_def hmac_sha256_def counter_bytes_def dynamic_truncate_def
  pad_and_convert_def zero_pad_def OTP_SIZE_def sample_hmac_def bytes_of_def byte_of_char_def
  counter_for_time_def OTP_STEP_SECONDS_def rfc4226_dt_def

section \<open>Properties\<close>

text \<open>
  The code of a counter is the RFC 4226 truncation of the counter's HMAC modulo
  \<open>10 ^ 8\<close>: for every 32-byte digest the code is returned (no exception, no undefined
  behaviour), its printed form has exactly eight characters, all of them digits, and reads back
  as that number.
\<close>

theorem totp_for_counter_code:
  assumes "H (bytes_of key) (counter_bytes counter) = Some d" and "length d = 32"
  shows "\<exists>code. totp_for_counter H key counter 8 = Inr code \<and>
    unat code = rfc4226_dt d mod 10 ^ 8 \<and>
    length (pad_and_convert code) = 8 \<and> (\<forall>c \<in> set (pad_and_convert code). is_digit c) \<and>
    dec_value (pad_and_convert code) = rfc4226_dt d mod 10 ^ 8"
  by (rule totp_for_counter_string [where H = H, OF assms])

theorem totp_for_counter_code_witness:
  "\<exists>code. totp_for_counter sample_hmac ''ab'' 20194884 8 = Inr code \<and>
    length (pad_and_convert code) = 8"
proof -
  obtain d where d: "sample_hmac (bytes_of ''ab'') (counter_bytes 20194884) = Some d" "length d = 32"
    using hmac_digest_32_sample by (auto simp: hmac_digest_32_def)
  show ?thesis
    using totp_for_counter_code [where H = sample_hmac, OF d] by blast
qed

text \<open>
  The message an HMAC is taken of determines the counter: the eight bytes are the counter's
  big-endian form, so two windows never share a message.
\<close>

theorem counter_bytes_roundtrip:
  "length (counter_bytes c) = 8 \<and> be_value (counter_bytes c) = unat c"
  by simp

text \<open>
  \<open>dynamic_truncate\<close> runs into undefined behaviour exactly on an empty digest, on one too
  short for the offset its last byte names, and for 32 digits or more, where the wrapped modulus
  is zero.
\<close>

theorem dynamic_truncate_undefined_iff:
  "dynamic_truncate hmac digits = Inl Undefined_behaviour \<longleftrightarrow>
     hmac = [] \<or> length hmac \<le> unat (last hmac) mod 16 + 3 \<or> 32 \<le> digits"
  by (auto simp: dynamic_truncate_def Let_def unat_and_0x0F mod_loop_eq_0_iff)

text \<open>
  The counter of a time is the number of the 90-second window it lies in: the windows
  partition the time line.
\<close>

theorem counter_for_time_window:
  "counter_for_time now OTP_STEP_SECONDS = Inr c \<longleftrightarrow>
     90 * unat c \<le> unat now \<and> unat now < 90 * (unat c + 1)"
proof -
  have "now div 90 = c \<longleftrightarrow> unat now div 90 = unat c"
    by (metis unat_div_90 unsigned_word_eqI)
  then show ?thesis by (simp only: counter_for_time_eq sum.inject div_eq_window)
qed

text \<open>
  Printing a code loses nothing: the string reads back as the code, and it has exactly
  eight characters when the code is below \<open>10 ^ 8\<close> (a longer code is never cut).
\<close>

theorem pad_and_convert_roundtrip:
  "dec_value (pad_and_convert code) = unat code \<and>
   (length (pad_and_convert code) = 8 \<longleftrightarrow> unat code < 10 ^ 8)"
proof -
  have "unat code < 10 ^ 8" if "length (pad_and_convert code) = 8"
    using dec_value_less [of "pad_and_convert code"] that
    by (auto simp: pad_and_convert_def dest: zero_pad_digits)
  moreover have "length (pad_and_convert code) = 8" if "unat code < 10 ^ 8"
    using that by (simp only: pad_and_convert_def OTP_SIZE_def) (rule length_zero_pad, simp_all)
  ultimately show ?thesis by (auto simp: pad_and_convert_def)
qed

end
