(* ===== verification/Verifier.thy ===== *)
theory Verifier
  imports Otp Keygen Wire Memory_Sqlite
begin

text \<open>
  The verifier daemon, \<open>verifier/main.cpp\<close>: checking a code against the three windows, the
  request line, one connection, and the accept loop with its bound on concurrent connections.

  \<open>P\<close> is the platform of the keystore, \<open>H\<close> the HMAC, \<open>dummy_key\<close> the process-wide dummy key
  and \<open>now\<close> what \<open>time(nullptr)\<close> returns. The calls whose cost depends on the input, one HMAC and
  one comparison per window, are logged, so that a property can say that the log never depends on
  the identifier, the code or the keystore. \<open>OPENSSL_cleanse\<close> wipes memory no later
  statement reads and has no counterpart here, nor has the operator's log on \<open>std::cerr\<close>.
\<close>

section \<open>Codes\<close>

definition VERIFIER_MAX_REQUEST :: nat where "VERIFIER_MAX_REQUEST = 64"
definition MAX_IN_FLIGHT :: int where "MAX_IN_FLIGHT = 32"
definition KEY_HEX_LEN :: nat where "KEY_HEX_LEN = 128"

definition all_digits :: "string \<Rightarrow> bool" where
  "all_digits s = list_all (\<lambda>c. \<not> (c < CHR ''0'' \<or> CHR ''9'' < c)) s"

text \<open>\<open>std::exit(1)\<close> is the \<open>None\<close> of \<open>random_hex_key\<close>.\<close>

definition random_hex_key :: "'r rng \<Rightarrow> 'r \<Rightarrow> string option \<times> 'r" where
  "random_hex_key R r =
     (case R (KEY_HEX_LEN div 2) r of
        (None, r') \<Rightarrow> (None, r')
      | (Some buf, r') \<Rightarrow> (Some (hex_of buf), r'))"

datatype work = Hmac_of nat nat | Memcmp nat

text \<open>
  The loop \<open>for (int offset = -1; offset <= 1; offset++)\<close>. \<open>CRYPTO_memcmp\<close> runs only on strings
  of equal length; its result is whether they are equal.
\<close>

fun check_windows ::
    "hmac_fn \<Rightarrow> string \<Rightarrow> string \<Rightarrow> u64 \<Rightarrow> int list \<Rightarrow> bool \<Rightarrow> u64 \<Rightarrow> work list \<Rightarrow>
     (bool \<times> u64 \<times> work list) cxx" where
  "check_windows H key submitted now [] any matched log = Inr (any, matched, log)"
| "check_windows H key submitted now (offset # offsets) any matched log =
     (let counter = now + of_int offset in
      bind_cxx (totp_for_counter H key counter (int OTP_SIZE)) (\<lambda>code.
        let expected = pad_and_convert code;
            same_size = (length expected = length submitted);
            eq = (same_size \<and> expected = submitted);
            log' = log @ [Hmac_of (length key) 8] @
                   (if same_size then [Memcmp (length expected)] else [])
        in if eq \<and> \<not> any then check_windows H key submitted now offsets True counter log'
           else check_windows H key submitted now offsets any matched log'))"

text \<open>\<open>real\<close>, the fail-closed decision whether the device's own key is used.\<close>

definition real_device :: "lookup \<Rightarrow> device \<Rightarrow> bool" where
  "real_device found d \<longleftrightarrow> found = Found \<and> dev_status d = 1 \<and> length (dev_key d) = KEY_HEX_LEN"

definition verify_code ::
    "'db platform \<Rightarrow> hmac_fn \<Rightarrow> string \<Rightarrow> time_t \<Rightarrow> string \<Rightarrow> string \<Rightarrow> 'db \<Rightarrow>
     (bool \<times> u64 \<times> work list) cxx \<times> 'db" where
  "verify_code P H dummy_key now ident code db =
     (let code_ok = (length code = OTP_SIZE \<and> all_digits code);
          (found, device, db') = find_device P ident device_default db;
          real = real_device found device;
          key = (if real then dev_key device else dummy_key);
          submitted = (if code_ok then code else replicate OTP_SIZE (CHR ''x''))
      in (bind_cxx (counter_for_time now OTP_STEP_SECONDS) (\<lambda>counter.
            bind_cxx (check_windows H key submitted counter [-1, 0, 1] False 0 [])
              (\<lambda>(any, matched, log). Inr (real \<and> code_ok \<and> any, matched, log))),
          db'))"

section \<open>Requests\<close>

text \<open>
  \<open>split_request k line start\<close> is the \<open>while\<close> loop with \<open>4 - k\<close> parts found: at most four
  parts, cut at single spaces; the fourth part ends at the next space too.
\<close>

fun split_request :: "nat \<Rightarrow> string \<Rightarrow> nat \<Rightarrow> string list" where
  "split_request 0 line start = []"
| "split_request (Suc k) line start =
     (case str_find line (CHR '' '') start of
        None \<Rightarrow> [drop start line]
      | Some sp \<Rightarrow> take (sp - start) (drop start line) # split_request k line (sp + 1))"

definition verifier_handle_request ::
    "'db platform \<Rightarrow> hmac_fn \<Rightarrow> string \<Rightarrow> time_t \<Rightarrow> string \<Rightarrow> 'db \<Rightarrow> string cxx \<times> 'db" where
  "verifier_handle_request P H dummy_key now line db =
     (let parts = split_request 4 line 0; n = length parts in
      if n = 3 \<and> parts ! 0 = ''VERIFY'' then
        (let (res, db') = verify_code P H dummy_key now (parts ! 1) (parts ! 2) db
         in (bind_cxx res (\<lambda>(ok, matched, log).
               Inr (if ok then ''OK '' @ nat_to_string (unat matched) @ [nl] else ''NO'' @ [nl])),
             db'))
      else if n = 2 \<and> parts ! 0 = ''STATUS'' then
        (let (found, device, db') = find_device P (parts ! 1) device_default db
         in if found = Error then (Inr (''ERR'' @ [nl]), db')
            else (Inr (if found = Found \<and> dev_status device = 1
                       then ''ACTIVE'' @ [nl] else ''INACTIVE'' @ [nl]), db'))
      else (Inr (''ERR'' @ [nl]), db))"

definition verifier_read_line :: "read_event list \<Rightarrow> string option \<times> read_event list" where
  "verifier_read_line evs = read_line_loop (VERIFIER_MAX_REQUEST + 1) '''' evs"

text \<open>
  \<open>serve\<close>, apart from the decrement of \<open>in_flight\<close>, which the accept loop below models. After
  the reply the connection is drained and closed.
\<close>

definition verifier_serve ::
    "'db platform \<Rightarrow> hmac_fn \<Rightarrow> string \<Rightarrow> int \<Rightarrow> time_t \<Rightarrow> conn \<Rightarrow> 'db \<Rightarrow> served \<times> nat \<times> 'db" where
  "verifier_serve P H dummy_key allow_uid now c db =
     (if \<not> peer_allowed (peer c) allow_uid
      then (Closed '''', fst (drain_loop 512 0 (incoming c)), db)
      else case verifier_read_line (incoming c) of
        (Some line, evs) \<Rightarrow>
          (case verifier_handle_request P H dummy_key now line db of
             (Inl e, db') \<Rightarrow> (Terminated e, 0, db')
           | (Inr reply, db') \<Rightarrow>
               (Closed (write_all reply (outgoing c)), fst (drain_loop 512 0 evs), db'))
      | (None, evs) \<Rightarrow>
          (Closed (write_all (''ERR'' @ [nl]) (outgoing c)), fst (drain_loop 512 0 evs), db))"

section \<open>The request line\<close>

lemma split_request_eq:
  "split_request k line start = take k (split_on (CHR '' '') (drop start line))"
proof (induction k arbitrary: start)
  case 0
  then show ?case by simp
next
  case (Suc k)
  show ?case
  proof (cases "index_of (CHR '' '') (drop start line)")
    case None
    then show ?thesis
      using index_of_None_iff [of "CHR '' ''" "drop start line"]
      by (simp add: str_find_def split_on_no_sep)
  next
    case (Some i)
    have "drop start line = take i (drop start line) @ CHR '' '' # drop (Suc (start + i)) line"
      using index_of_split [OF Some] by (simp add: add.commute)
    moreover have "CHR '' '' \<notin> set (take i (drop start line))"
      using index_of_SomeD [OF Some] by simp
    ultimately have "split_on (CHR '' '') (drop start line) =
        take i (drop start line) # split_on (CHR '' '') (drop (Suc (start + i)) line)"
      by (metis split_on_append)
    then show ?thesis
      using Suc.IH [of "Suc (start + i)"] by (simp add: str_find_def Some)
  qed
qed

lemma split_request_3:
  "split_request 4 line 0 = [a, b, c] \<longleftrightarrow>
     line = a @ '' '' @ b @ '' '' @ c \<and> CHR '' '' \<notin> set a \<and> CHR '' '' \<notin> set b \<and> CHR '' '' \<notin> set c"
proof
  assume "split_request 4 line 0 = [a, b, c]"
  then have "take 4 (split_on (CHR '' '') line) = [a, b, c]" by (simp add: split_request_eq)
  then have s: "split_on (CHR '' '') line = [a, b, c]" by (rule take_short) simp
  then show "line = a @ '' '' @ b @ '' '' @ c \<and> CHR '' '' \<notin> set a \<and> CHR '' '' \<notin> set b \<and> CHR '' '' \<notin> set c"
    using join_split_on [of "CHR '' ''" line] split_on_no_sep_in [of _ "CHR '' ''" line] by simp
next
  assume "line = a @ '' '' @ b @ '' '' @ c \<and> CHR '' '' \<notin> set a \<and> CHR '' '' \<notin> set b \<and> CHR '' '' \<notin> set c"
  then show "split_request 4 line 0 = [a, b, c]"
    by (simp add: split_request_eq split_on_append split_on_no_sep)
qed

lemma split_request_2:
  "split_request 4 line 0 = [a, b] \<longleftrightarrow>
     line = a @ '' '' @ b \<and> CHR '' '' \<notin> set a \<and> CHR '' '' \<notin> set b"
proof
  assume "split_request 4 line 0 = [a, b]"
  then have "take 4 (split_on (CHR '' '') line) = [a, b]" by (simp add: split_request_eq)
  then have s: "split_on (CHR '' '') line = [a, b]" by (rule take_short) simp
  then show "line = a @ '' '' @ b \<and> CHR '' '' \<notin> set a \<and> CHR '' '' \<notin> set b"
    using join_split_on [of "CHR '' ''" line] split_on_no_sep_in [of _ "CHR '' ''" line] by simp
next
  assume "line = a @ '' '' @ b \<and> CHR '' '' \<notin> set a \<and> CHR '' '' \<notin> set b"
  then show "split_request 4 line 0 = [a, b]"
    by (simp add: split_request_eq split_on_append split_on_no_sep)
qed

section \<open>What the verifier accepts\<close>

text \<open>
  The specification: the code a key shows in a window, and the first of the windows around the
  current one, if any, that shows a given code.
\<close>

definition code_string :: "hmac_fn \<Rightarrow> string \<Rightarrow> u64 \<Rightarrow> string" where
  "code_string H key counter =
     (case totp_for_counter H key counter 8 of Inr code \<Rightarrow> pad_and_convert code | Inl _ \<Rightarrow> '''')"

lemma totp_for_counter_total:
  assumes "hmac_digest_32 H"
  obtains code where "totp_for_counter H key counter 8 = Inr code"
    "code_string H key counter = pad_and_convert code"
    "length (pad_and_convert code) = 8" "\<forall>c \<in> set (pad_and_convert code). is_digit c"
proof -
  obtain d where d: "H (bytes_of key) (counter_bytes counter) = Some d" "length d = 32"
    using assms unfolding hmac_digest_32_def by blast
  obtain code where code: "totp_for_counter H key counter 8 = Inr code"
    "length (pad_and_convert code) = 8" "\<forall>c \<in> set (pad_and_convert code). is_digit c"
    using totp_for_counter_string [where H = H, OF d] by blast
  with that show thesis by (simp add: code_string_def)
qed

definition window_match :: "hmac_fn \<Rightarrow> string \<Rightarrow> u64 \<Rightarrow> string \<Rightarrow> u64 option" where
  "window_match H key w code =
     List.find (\<lambda>c. code_string H key c = code) [w - 1, w, w + 1]"

lemma check_windows_eq:
  assumes "hmac_digest_32 H" and "length submitted = 8"
  shows "check_windows H key submitted now offsets any matched log =
    Inr (let hit = List.find (\<lambda>c. code_string H key c = submitted)
                    (map (\<lambda>k. now + of_int k) offsets)
         in (any \<or> hit \<noteq> None,
             if any then matched else (case hit of None \<Rightarrow> matched | Some c \<Rightarrow> c),
             log @ concat (replicate (length offsets) [Hmac_of (length key) 8, Memcmp 8])))"
proof (induction offsets arbitrary: any matched log)
  case Nil
  then show ?case by simp
next
  case (Cons k offsets)
  obtain code where code: "totp_for_counter H key (now + of_int k) 8 = Inr code"
    "code_string H key (now + of_int k) = pad_and_convert code" "length (pad_and_convert code) = 8"
    using totp_for_counter_total [OF assms(1)] .
  show ?case
    using assms(2) code
    by (simp add: Let_def OTP_SIZE_def Cons.IH split: option.splits)
qed

lemma all_digits_iff: "all_digits s \<longleftrightarrow> (\<forall>c \<in> set s. is_digit c)"
  by (auto simp: all_digits_def is_digit_def list_all_iff not_less)

lemma window_match_SomeD:
  assumes "window_match H key w code = Some c"
  shows "c \<in> {w - 1, w, w + 1}" "code_string H key c = code"
  using assms by (auto simp: window_match_def split: if_splits)

lemma code_string_wellformed:
  assumes "hmac_digest_32 H"
  shows "length (code_string H key c) = 8" "all_digits (code_string H key c)"
  using totp_for_counter_total [OF assms, of key c] by (metis all_digits_iff)+

lemma window_match_wellformed:
  assumes "hmac_digest_32 H" and "window_match H key w code = Some c"
  shows "length code = 8" "all_digits code"
  using window_match_SomeD [OF assms(2)] code_string_wellformed [OF assms(1)] by metis+

text \<open>The whole outcome of a check, by the result of the lookup.\<close>

definition accepted_window :: "hmac_fn \<Rightarrow> lookup \<Rightarrow> device \<Rightarrow> u64 \<Rightarrow> string \<Rightarrow> u64 option" where
  "accepted_window H found d w code =
     (if real_device found d then window_match H (dev_key d) w code else None)"

definition window_work :: "nat \<Rightarrow> work list" where
  "window_work n = [Hmac_of n 8, Memcmp 8, Hmac_of n 8, Memcmp 8, Hmac_of n 8, Memcmp 8]"

lemma verify_code_eq:
  assumes "hmac_digest_32 H" and "find_device P ident device_default db = (found, d, db')"
  shows "\<exists>matched. verify_code P H dummy_key now ident code db =
      (Inr (accepted_window H found d (now div 90) code \<noteq> None, matched,
            window_work (length (if real_device found d then dev_key d else dummy_key))), db')
    \<and> (\<forall>c. accepted_window H found d (now div 90) code = Some c \<longrightarrow> matched = c)"
proof -
  let ?real = "real_device found d"
  let ?key = "if ?real then dev_key d else dummy_key"
  let ?ok = "length code = OTP_SIZE \<and> all_digits code"
  let ?sub = "if ?ok then code else replicate OTP_SIZE (CHR ''x'')"
  have len: "length ?sub = 8" by (simp add: OTP_SIZE_def)
  have "map (\<lambda>k. now div 90 + of_int k) [-1, 0, 1] = [now div 90 - 1, now div 90, now div 90 + 1]"
    by simp
  then have loop: "check_windows H ?key ?sub (now div 90) [-1, 0, 1] False 0 [] =
    Inr (window_match H ?key (now div 90) ?sub \<noteq> None,
         case window_match H ?key (now div 90) ?sub of None \<Rightarrow> 0 | Some c \<Rightarrow> c,
         window_work (length ?key))"
    by (simp only: check_windows_eq [OF assms(1) len] window_match_def window_work_def Let_def) simp
  have hit: "(?real \<and> ?ok \<and> window_match H ?key (now div 90) ?sub \<noteq> None) =
      (accepted_window H found d (now div 90) code \<noteq> None)"
    using window_match_wellformed [OF assms(1)]
    by (auto simp: accepted_window_def OTP_SIZE_def)
  have val: "(case window_match H ?key (now div 90) ?sub of None \<Rightarrow> 0 | Some c \<Rightarrow> c) = c"
    if "accepted_window H found d (now div 90) code = Some c" for c
    using that window_match_wellformed [OF assms(1)]
    by (auto simp: accepted_window_def OTP_SIZE_def split: if_splits)
  show ?thesis
    using val
    by (simp only: verify_code_def Let_def assms(2) prod.case counter_for_time_eq bind_cxx_simps
        loop hit) simp
qed

lemma verify_reply:
  assumes "hmac_digest_32 H" and "find_device P ident device_default db = (found, d, db')"
    and "CHR '' '' \<notin> set ident" and "CHR '' '' \<notin> set code"
  shows "verifier_handle_request P H dummy_key now (''VERIFY '' @ ident @ '' '' @ code) db =
    (Inr (case accepted_window H found d (now div 90) code of
            None \<Rightarrow> ''NO'' @ [nl]
          | Some c \<Rightarrow> ''OK '' @ nat_to_string (unat c) @ [nl]), db')"
proof -
  have "split_request 4 (''VERIFY '' @ ident @ '' '' @ code) 0 = [''VERIFY'', ident, code]"
    unfolding split_request_3 using assms(3,4) by simp
  moreover obtain matched log where "verify_code P H dummy_key now ident code db =
      (Inr (accepted_window H found d (now div 90) code \<noteq> None, matched, log), db')"
    and "\<forall>c. accepted_window H found d (now div 90) code = Some c \<longrightarrow> matched = c"
    using verify_code_eq [OF assms(1,2)] by metis
  ultimately show ?thesis
    by (auto simp: verifier_handle_request_def Let_def split: option.splits)
qed

lemma status_reply:
  assumes "find_device P ident device_default db = (found, d, db')" and "CHR '' '' \<notin> set ident"
  shows "verifier_handle_request P H dummy_key now (''STATUS '' @ ident) db =
    (Inr (if found = Error then ''ERR'' @ [nl]
          else if found = Found \<and> dev_status d = 1 then ''ACTIVE'' @ [nl] else ''INACTIVE'' @ [nl]), db')"
proof -
  have "split_request 4 (''STATUS '' @ ident) 0 = [''STATUS'', ident]"
    unfolding split_request_2 using assms(2) by simp
  then show ?thesis
    by (simp add: verifier_handle_request_def Let_def assms(1))
qed

text \<open>Every line is a \<open>VERIFY\<close>, a \<open>STATUS\<close> or neither.\<close>

definition other_request :: "string \<Rightarrow> bool" where
  "other_request line \<longleftrightarrow> (let parts = split_request 4 line 0 in
     \<not> (length parts = 3 \<and> parts ! 0 = ''VERIFY'') \<and>
     \<not> (length parts = 2 \<and> parts ! 0 = ''STATUS''))"

lemma other_reply:
  "other_request line \<Longrightarrow>
   verifier_handle_request P H dummy_key now line db = (Inr (''ERR'' @ [nl]), db)"
  by (auto simp: other_request_def verifier_handle_request_def Let_def)

lemma request_cases:
  obtains (verify) ident code where "line = ''VERIFY '' @ ident @ '' '' @ code"
    "CHR '' '' \<notin> set ident" "CHR '' '' \<notin> set code"
  | (status) ident where "line = ''STATUS '' @ ident" "CHR '' '' \<notin> set ident"
  | (other) "other_request line"
proof -
  let ?parts = "split_request 4 line 0"
  consider (v) "length ?parts = 3 \<and> ?parts ! 0 = ''VERIFY''"
    | (s) "length ?parts = 2 \<and> ?parts ! 0 = ''STATUS''"
    | (o) "other_request line"
    by (auto simp: other_request_def Let_def)
  then show thesis
  proof cases
    case v
    then obtain i c where "?parts = [''VERIFY'', i, c]"
      by (auto simp: length_Suc_conv numeral_eq_Suc)
    then show thesis using verify unfolding split_request_3 by simp
  next
    case s
    then obtain i where "?parts = [''STATUS'', i]"
      by (auto simp: length_Suc_conv numeral_eq_Suc)
    then show thesis using status unfolding split_request_2 by simp
  next
    case o
    then show thesis by (rule other)
  qed
qed

lemma verify_code_work:
  assumes "hmac_digest_32 H" and "length dummy_key = 128"
  shows "\<exists>ok matched. fst (verify_code P H dummy_key now ident code db) =
    Inr (ok, matched, [Hmac_of 128 8, Memcmp 8, Hmac_of 128 8, Memcmp 8, Hmac_of 128 8, Memcmp 8])"
proof -
  obtain found d db' where f: "find_device P ident device_default db = (found, d, db')"
    by (metis prod_cases3)
  have "length (if real_device found d then dev_key d else dummy_key) = 128"
    using assms(2) by (simp add: real_device_def KEY_HEX_LEN_def)
  with verify_code_eq [OF assms(1) f, of dummy_key now code] show ?thesis
    by (auto simp: window_work_def)
qed

section \<open>The verifier and the table\<close>

definition verifier_replies :: "string set" where
  "verifier_replies =
     {''NO'' @ [nl], ''ERR'' @ [nl], ''ACTIVE'' @ [nl], ''INACTIVE'' @ [nl]} \<union>
     range (\<lambda>c :: u64. ''OK '' @ nat_to_string (unat c) @ [nl])"

lemma verifier_reply_total:
  assumes "hmac_digest_32 H"
  shows "\<exists>reply \<in> verifier_replies.
    \<exists>db'. verifier_handle_request P H dummy_key now line db = (Inr reply, db')"
proof (cases line rule: request_cases)
  case (verify ident code)
  obtain found d db' where "find_device P ident device_default db = (found, d, db')"
    by (metis prod_cases3)
  from verify_reply [OF assms this verify(2,3)] show ?thesis
    by (auto simp: verify(1) verifier_replies_def split: option.splits)
next
  case (status ident)
  obtain found d db' where "find_device P ident device_default db = (found, d, db')"
    by (metis prod_cases3)
  from status_reply [OF this status(2)] show ?thesis
    by (auto simp: status(1) verifier_replies_def)
next
  case other
  then show ?thesis by (auto simp: other_reply verifier_replies_def)
qed

context sqlite_keystore
begin

lemma verifier_read_only:
  assumes "hmac_digest_32 H" and "verifier_handle_request P H dummy_key now line db = (res, db')"
  shows "tbl db' = tbl db"
proof (cases line rule: request_cases)
  case (verify ident code)
  obtain found d db2 where f: "find_device P ident device_default db = (found, d, db2)"
    by (metis prod_cases3)
  from verify_reply [OF assms(1) f verify(2,3)] assms(2) ks.find_tbl [OF f] show ?thesis
    by (simp add: verify(1))
next
  case (status ident)
  obtain found d db2 where f: "find_device P ident device_default db = (found, d, db2)"
    by (metis prod_cases3)
  from status_reply [OF f status(2)] assms(2) ks.find_tbl [OF f] show ?thesis
    by (simp add: status(1))
next
  case other
  with assms(2) show ?thesis by (simp add: other_reply)
qed

text \<open>What a real device is, by the table.\<close>

lemma accepted_window_row:
  assumes "find_device P ident device_default db = (found, d, db')"
    and "accepted_window H found d w code = Some c"
  shows "valid_device_id ident" 
    "\<exists>r. tbl db ident = Some r \<and> r_status r = 1 \<and> length (c_str (r_key r)) = 128 \<and>
       window_match H (c_str (r_key r)) w code = Some c"
proof -
  have real: "real_device found d" "window_match H (dev_key d) w code = Some c"
    using assms(2) by (auto simp: accepted_window_def split: if_splits)
  then have "found = Found" by (simp add: real_device_def)
  with assms(1) have f: "find_device P ident device_default db = (Found, d, db')" by simp
  show "valid_device_id ident" by (rule ks.find_FoundD(1) [OF f])
  show "\<exists>r. tbl db ident = Some r \<and> r_status r = 1 \<and> length (c_str (r_key r)) = 128 \<and>
       window_match H (c_str (r_key r)) w code = Some c"
    using ks.find_FoundD(2) [OF f] real
    by (auto simp: real_device_def found_device_def KEY_HEX_LEN_def)
qed

lemma verify_sound:
  assumes "hmac_digest_32 H"
    and "verifier_handle_request P H dummy_key now line db = (Inr reply, db')"
    and "prefix ''OK'' reply"
  shows "\<exists>ident code r c. line = ''VERIFY '' @ ident @ '' '' @ code \<and>
    reply = ''OK '' @ nat_to_string (unat c) @ [nl] \<and>
    valid_device_id ident \<and> tbl db ident = Some r \<and> r_status r = 1 \<and>
    length (c_str (r_key r)) = 128 \<and>
    window_match H (c_str (r_key r)) (now div 90) code = Some c"
proof (cases line rule: request_cases)
  case (verify ident code)
  obtain found d db2 where f: "find_device P ident device_default db = (found, d, db2)"
    by (metis prod_cases3)
  from verify_reply [OF assms(1) f verify(2,3)] assms(2,3)
  obtain c where c: "accepted_window H found d (now div 90) code = Some c"
      "reply = ''OK '' @ nat_to_string (unat c) @ [nl]"
    by (auto simp: verify(1) split: option.splits)
  from accepted_window_row [OF f c(1)] c(2) verify(1) show ?thesis by blast
next
  case (status ident)
  obtain found d db2 where f: "find_device P ident device_default db = (found, d, db2)"
    by (metis prod_cases3)
  from status_reply [OF f status(2)] assms(2,3) show ?thesis
    by (auto simp: status(1) split: if_splits)
next
  case other
  with assms(2,3) show ?thesis by (auto simp: other_reply)
qed

text \<open>No code of a device that is not active, or not there, is accepted.\<close>

lemma verify_inactive:
  assumes "hmac_digest_32 H" and "CHR '' '' \<notin> set ident" and "CHR '' '' \<notin> set code"
    and "\<And>r. tbl db ident = Some r \<Longrightarrow> r_status r \<noteq> 1"
  shows "fst (verifier_handle_request P H dummy_key now (''VERIFY '' @ ident @ '' '' @ code) db) =
    Inr (''NO'' @ [nl])"
proof -
  obtain found d db2 where f: "find_device P ident device_default db = (found, d, db2)"
    by (metis prod_cases3)
  have "accepted_window H found d (now div 90) code = None"
    using accepted_window_row(2) [OF f] assms(4) by (meson option.exhaust)
  then show ?thesis using verify_reply [OF assms(1) f assms(2,3)] by simp
qed

lemma status_inactive:
  assumes "CHR '' '' \<notin> set ident" and "\<And>r. tbl db ident = Some r \<Longrightarrow> r_status r \<noteq> 1"
  shows "fst (verifier_handle_request P H dummy_key now (''STATUS '' @ ident) db) \<in>
    {Inr (''INACTIVE'' @ [nl]), Inr (''ERR'' @ [nl])}"
proof -
  obtain found d db2 where f: "find_device P ident device_default db = (found, d, db2)"
    by (metis prod_cases3)
  have "\<not> (found = Found \<and> dev_status d = 1)"
    using ks.find_FoundD(2) [of ident device_default db d db2] f assms(2)
    by (auto simp: found_device_def)
  then show ?thesis using status_reply [OF f assms(1)] by auto
qed

end

context sqlite_available
begin

lemma verify_complete_up:
  assumes "hmac_digest_32 H" and "up db" and "valid_device_id ident" and "tbl db ident = Some r"
    and "r_status r = 1" and "length (c_str (r_key r)) = 128"
    and "window_match H (c_str (r_key r)) (now div 90) code = Some c"
  shows "\<exists>db'. verifier_handle_request P H dummy_key now (''VERIFY '' @ ident @ '' '' @ code) db =
    (Inr (''OK '' @ nat_to_string (unat c) @ [nl]), db') \<and> tbl db' = tbl db \<and> up db'"
proof -
  obtain db' where f: "find_device P ident device_default db =
      (Found, found_device ident r device_default, db')" "tbl db' = tbl db" "up db'"
    using ks.find_present [OF assms(2-4)] by blast
  have "accepted_window H Found (found_device ident r device_default) (now div 90) code = Some c"
    using assms(5-7)
    by (simp add: accepted_window_def real_device_def found_device_def KEY_HEX_LEN_def)
  moreover have "CHR '' '' \<notin> set code"
    using window_match_wellformed(2) [OF assms(1,7)] by (auto simp: all_digits_iff is_digit_def)
  ultimately show ?thesis
    using valid_device_id_chars(3) [OF assms(3)]
      verify_reply [OF assms(1) f(1), of code dummy_key now] f(2,3) by simp
qed

lemma verify_complete:
  assumes "hmac_digest_32 H" and "up db" and "valid_device_id ident" and "tbl db ident = Some r"
    and "r_status r = 1" and "length (c_str (r_key r)) = 128"
    and "window_match H (c_str (r_key r)) (now div 90) code = Some c"
  shows "fst (verifier_handle_request P H dummy_key now (''VERIFY '' @ ident @ '' '' @ code) db) =
    Inr (''OK '' @ nat_to_string (unat c) @ [nl])"
  using verify_complete_up [OF assms, of dummy_key] by auto

end

section \<open>The accept loop\<close>

text \<open>
  The main thread and the detached threads share the atomic counter \<open>in_flight\<close>. \<open>live\<close> counts
  the threads between \<open>std::thread(serve, ...)\<close> and the decrement at the end of \<open>serve\<close>;
  \<open>refusing\<close> says that the main thread is between its \<open>fetch_add\<close> and the decrement of the
  busy branch. Each rule is one atomic step; threads finish in any order between them.
\<close>

record daemon =
  in_flight :: int
  live :: nat
  refusing :: bool

definition daemon_init :: daemon where
  "daemon_init = \<lparr>in_flight = 0, live = 0, refusing = False\<rparr>"

inductive accept_step :: "daemon \<Rightarrow> daemon \<Rightarrow> bool" where
  accept_failed: "\<not> refusing s \<Longrightarrow> accept_step s s"
| accept_served: "\<not> refusing s \<Longrightarrow> in_flight s < MAX_IN_FLIGHT \<Longrightarrow>
    accept_step s (s\<lparr>in_flight := in_flight s + 1, live := live s + 1\<rparr>)"
| accept_busy: "\<not> refusing s \<Longrightarrow> MAX_IN_FLIGHT \<le> in_flight s \<Longrightarrow>
    accept_step s (s\<lparr>in_flight := in_flight s + 1, refusing := True\<rparr>)"
| refused: "refusing s \<Longrightarrow>
    accept_step s (s\<lparr>in_flight := in_flight s - 1, refusing := False\<rparr>)"
| served: "0 < live s \<Longrightarrow>
    accept_step s (s\<lparr>in_flight := in_flight s - 1, live := live s - 1\<rparr>)"

definition daemon_inv :: "daemon \<Rightarrow> bool" where
  "daemon_inv s \<longleftrightarrow>
     in_flight s = int (live s) + (if refusing s then 1 else 0) \<and> live s \<le> 32"

inductive_cases accept_stepE: "accept_step s t"

interpretation accept: invariant_system "\<lambda>s. s = daemon_init" accept_step daemon_inv
  by unfold_locales
     (auto simp: daemon_init_def daemon_inv_def MAX_IN_FLIGHT_def elim!: accept_stepE)

section \<open>Properties\<close>

text \<open>
  C3. Soundness. Whatever line arrives, a reply that starts with \<open>OK\<close> means that the line was
  \<open>VERIFY id code\<close>, that the keystore holds an active row for that well-formed identifier with
  a key of full length, and that the code is the one this key shows in the previous, the
  current or the next window; the reply names that window and nothing else.
\<close>

theorem verifier_sound:
  assumes "sqlite_keystore P tbl" and "hmac_digest_32 H"
    and "verifier_handle_request P H dummy_key now line db = (Inr reply, db')"
    and "prefix ''OK'' reply"
  shows "\<exists>ident r c. line = ''VERIFY '' @ ident @ '' '' @ code_string H (c_str (r_key r)) c \<and>
    valid_device_id ident \<and> tbl db ident = Some r \<and> r_status r = 1 \<and>
    length (c_str (r_key r)) = 128 \<and>
    c \<in> {now div 90 - 1, now div 90, now div 90 + 1} \<and>
    reply = ''OK '' @ nat_to_string (unat c) @ [nl]"
proof -
  obtain ident code r c where v: "line = ''VERIFY '' @ ident @ '' '' @ code"
      "reply = ''OK '' @ nat_to_string (unat c) @ [nl]"
      "valid_device_id ident" "tbl db ident = Some r" "r_status r = 1"
      "length (c_str (r_key r)) = 128"
    and m: "window_match H (c_str (r_key r)) (now div 90) code = Some c"
    using sqlite_keystore.verify_sound [OF assms] by blast
  note w = window_match_SomeD [OF m]
  show ?thesis
    by (rule exI [of _ ident], rule exI [of _ r], rule exI [of _ c])
       (use v w in simp)
qed

theorem verifier_sound_witness:
  "\<exists>ident r c. ''VERIFY '' @ ''7Q5V'' @ '' '' @ code_string sample_hmac sample_key 20 =
      ''VERIFY '' @ ident @ '' '' @ code_string sample_hmac (c_str (r_key r)) c \<and>
    valid_device_id ident \<and> mem_tbl sample_db ident = Some r \<and> r_status r = 1"
proof -
  define line where "line = ''VERIFY '' @ ''7Q5V'' @ '' '' @ code_string sample_hmac sample_key 20"
  have "window_match sample_hmac sample_key (1800 div 90) (code_string sample_hmac sample_key 20) \<noteq> None"
    by (simp add: window_match_def)
  then obtain c where "window_match sample_hmac (c_str (r_key (sample_row 1))) (1800 div 90)
      (code_string sample_hmac sample_key 20) = Some c" by auto
  then have "fst (verifier_handle_request mem_platform sample_hmac '''' 1800 line sample_db) =
      Inr (''OK '' @ nat_to_string (unat c) @ [nl])"
    unfolding line_def
    by (intro mem.verify_complete [OF hmac_digest_32_sample, where r = "sample_row 1"]) simp_all
  then obtain db' where
    "verifier_handle_request mem_platform sample_hmac '''' 1800 line sample_db =
      (Inr (''OK '' @ nat_to_string (unat c) @ [nl]), db')"
    by (metis prod.collapse)
  from verifier_sound [OF mem.sqlite_keystore_axioms hmac_digest_32_sample this]
  have "\<exists>ident r c. line = ''VERIFY '' @ ident @ '' '' @ code_string sample_hmac (c_str (r_key r)) c \<and>
    valid_device_id ident \<and> mem_tbl sample_db ident = Some r \<and> r_status r = 1"
    by (simp only: append.simps Cons_prefix_Cons Nil_prefix simp_thms) blast
  then show ?thesis by (simp only: line_def)
qed

text \<open>
  C4. Completeness. While the keystore answers, the code an active device's key, of the 128 digits
  every key has, shows in any of the three windows around the server's current one is accepted, and the reply names one of the
  windows that show it.
\<close>

theorem verifier_complete:
  assumes "sqlite_available P tbl up" and "hmac_digest_32 H" and "up db"
    and "valid_device_id ident" and "tbl db ident = Some r" and "r_status r = 1"
    and "length (c_str (r_key r)) = 128"
    and "c \<in> {now div 90 - 1, now div 90, now div 90 + 1}"
  shows "\<exists>m \<in> {now div 90 - 1, now div 90, now div 90 + 1}.
    code_string H (c_str (r_key r)) m = code_string H (c_str (r_key r)) c \<and>
    fst (verifier_handle_request P H dummy_key now
      (''VERIFY '' @ ident @ '' '' @ code_string H (c_str (r_key r)) c) db) =
    Inr (''OK '' @ nat_to_string (unat m) @ [nl])"
proof -
  let ?code = "code_string H (c_str (r_key r)) c"
  have "window_match H (c_str (r_key r)) (now div 90) ?code \<noteq> None"
    using assms(8) by (auto simp: window_match_def)
  then obtain m where m: "window_match H (c_str (r_key r)) (now div 90) ?code = Some m" by blast
  show ?thesis
    using window_match_SomeD [OF m]
      sqlite_available.verify_complete [OF assms(1-7) m, of dummy_key] by blast
qed

theorem verifier_complete_witness:
  "\<exists>m \<in> {19, 20, 21 :: u64}. fst (verifier_handle_request mem_platform sample_hmac '''' 1800
      (''VERIFY '' @ ''7Q5V'' @ '' '' @ code_string sample_hmac sample_key 21) sample_db) =
    Inr (''OK '' @ nat_to_string (unat m) @ [nl])"
  using verifier_complete [OF mem.sqlite_available_axioms hmac_digest_32_sample sample_db_up,
      of "''7Q5V''" "sample_row 1" 21 1800 "''''"] by auto

text \<open>
  A lookup that fails, an unknown, revoked or malformed identifier and a malformed or wrong
  code all cost the same: three HMACs over a 128-character key and an 8-byte message and three
  8-byte comparisons, always, and then a plain verdict.
\<close>

theorem verify_code_uniform_work:
  assumes "hmac_digest_32 H" and "length dummy_key = 128"
  shows "\<exists>ok matched. fst (verify_code P H dummy_key now ident code db) =
    Inr (ok, matched, [Hmac_of 128 8, Memcmp 8, Hmac_of 128 8, Memcmp 8, Hmac_of 128 8, Memcmp 8])"
  by (rule verify_code_work [OF assms])

theorem verify_code_uniform_work_witness:
  "\<exists>ok matched. fst (verify_code mem_platform sample_hmac sample_key 1800 ''../x'' ''1'' sample_db) =
    Inr (ok, matched, [Hmac_of 128 8, Memcmp 8, Hmac_of 128 8, Memcmp 8, Hmac_of 128 8, Memcmp 8])"
  by (rule verify_code_uniform_work [OF hmac_digest_32_sample length_sample_key])

text \<open>
  Revocation. Once \<open>set_device_status\<close> has reported success, every later \<open>VERIFY\<close> for
  that identifier on an unchanged table is \<open>NO\<close>, whatever code it carries, and a \<open>STATUS\<close> is
  never \<open>ACTIVE\<close>, even while the keystore fails.
\<close>

theorem revoked_device_rejected:
  assumes "sqlite_keystore P tbl" and "hmac_digest_32 H"
    and "set_device_status P ident 0 db = (Found, db1)" and "tbl db2 = tbl db1"
    and "CHR '' '' \<notin> set code"
  shows "fst (verifier_handle_request P H dummy_key now (''VERIFY '' @ ident @ '' '' @ code) db2) =
      Inr (''NO'' @ [nl]) \<and>
    fst (verifier_handle_request P H dummy_key now (''STATUS '' @ ident) db2) \<in>
      {Inr (''INACTIVE'' @ [nl]), Inr (''ERR'' @ [nl])}"
proof -
  have upd: "update_spec (tbl db) ident (\<lambda>r. r\<lparr>r_status := 0\<rparr>) Found (tbl db1)"
    using sqlite_keystore.set_device_status_refines [OF assms(1,3)] by blast
  then have "CHR '' '' \<notin> set ident" by (auto simp: update_spec_def valid_device_id_chars)
  moreover have "r_status r \<noteq> 1" if "tbl db2 ident = Some r" for r
    using upd that assms(4) by (auto simp: update_spec_def)
  ultimately show ?thesis
    using sqlite_keystore.verify_inactive [OF assms(1,2) _ assms(5)]
      sqlite_keystore.status_inactive [OF assms(1)] by blast
qed

theorem revoked_device_rejected_witness:
  "fst (verifier_handle_request mem_platform sample_hmac '''' 1800 (''VERIFY '' @ ''7Q5V'' @ '' '' @ ''00000000'')
     (snd (set_device_status mem_platform ''7Q5V'' 0 sample_db))) = Inr (''NO'' @ [nl])"
proof -
  obtain l db1 where s: "set_device_status mem_platform ''7Q5V'' 0 sample_db = (l, db1)" by fastforce
  have "l \<noteq> Error" using mem.set_device_status_up [OF sample_db_up _ s] by simp
  moreover have "l \<noteq> NotFound"
    using mem.set_device_status_refines [OF s] by (auto simp: update_spec_def)
  ultimately have "l = Found" by (cases l) simp_all
  with s have "set_device_status mem_platform ''7Q5V'' 0 sample_db = (Found, db1)" by simp
  from revoked_device_rejected [OF mem.sqlite_keystore_axioms hmac_digest_32_sample this refl]
  show ?thesis by (simp add: s)
qed

text \<open>
  C25. One connection. As long as the HMAC returns digests, serving a connection never ends the
  process, leaves the table as it is, drains a bounded amount, and sends a prefix of one of the
  replies the protocol has; a peer that is not allowed gets nothing at all.
\<close>

theorem verifier_serve_safe:
  assumes "sqlite_keystore P tbl" and "hmac_digest_32 H"
  shows "\<exists>sent n db'. verifier_serve P H dummy_key allow_uid now c db = (Closed sent, n, db') \<and>
    tbl db' = tbl db \<and> n < 4608 \<and> (\<exists>reply \<in> verifier_replies. prefix sent reply) \<and>
    (peer_allowed (peer c) allow_uid \<or> sent = '''')"
proof -
  have drain: "fst (drain_loop 512 0 evs) < 4608" for evs
    using drain_loop_bound [of 0 512 evs] by simp
  obtain lo evs where rl: "verifier_read_line (incoming c) = (lo, evs)" by fastforce
  show ?thesis
  proof (cases lo)
    case None
    then show ?thesis
      using rl drain by (auto simp: verifier_serve_def verifier_replies_def write_all_prefix
          intro!: exI [of _ "''NO'' @ [nl]"] bexI [of _ "''ERR'' @ [nl]"])
  next
    case (Some line)
    obtain reply db' where r: "reply \<in> verifier_replies"
      "verifier_handle_request P H dummy_key now line db = (Inr reply, db')"
      using verifier_reply_total [OF assms(2)] by metis
    then show ?thesis
      using rl drain Some sqlite_keystore.verifier_read_only [OF assms r(2)]
      by (auto simp: verifier_serve_def write_all_prefix intro: bexI [of _ reply])
  qed
qed

theorem verifier_serve_safe_witness:
  "\<exists>sent n db'. verifier_serve mem_platform sample_hmac '''' 10001 1800
      \<lparr>peer = Some 7, incoming = [Bytes (''STATUS 7Q5V'' @ [nl])], outgoing = [Wrote 64]\<rparr> sample_db =
      (Closed sent, n, db') \<and> sent = ''''"
  using verifier_serve_safe [OF mem.sqlite_keystore_axioms hmac_digest_32_sample, of "''''" 10001 1800
      "\<lparr>peer = Some 7, incoming = [Bytes (''STATUS 7Q5V'' @ [nl])], outgoing = [Wrote 64]\<rparr>" sample_db]
  by (auto simp: peer_allowed_def)



end
