(* ===== verification/Startup.thy ===== *)
theory Startup
  imports Verifier
begin

text \<open>
  How the two daemons start: \<open>main\<close> of \<open>verifier/main.cpp\<close> and of \<open>admin/main.cpp\<close> up to
  their accept loops, with the arguments, the checks of the keystore and the creation of the
  socket. The two share most of the code; the parts they do not share are separate here.

  The kernel's answers to the calls of one start are the record \<open>os_answers\<close>; what the model
  returns beside the outcome is the list of the calls made, in order.
\<close>

section \<open>Arguments\<close>

definition is_octal :: "char \<Rightarrow> bool" where
  "is_octal c \<longleftrightarrow> CHR ''0'' \<le> c \<and> c \<le> CHR ''7''"

definition oct_value :: "string \<Rightarrow> nat" where
  "oct_value s = foldl (\<lambda>a c. 8 * a + digit_value c) 0 s"

text \<open>
  \<open>std::stoul(val, nullptr, 8)\<close> and \<open>std::stol(val)\<close>, for a 64-bit \<open>long\<close>; \<open>None\<close> is either
  exception. A sign is accepted by both, and negates modulo \<open>2 ^ 64\<close> in the first.
\<close>

definition stoul8 :: "string \<Rightarrow> u64 option" where
  "stoul8 s =
     (let (neg, ds) = number_prefix is_octal s; n = oct_value ds
      in if ds = [] \<or> 2 ^ 64 \<le> n then None
         else Some (if neg then - word_of_nat n else word_of_nat n))"

definition stol :: "string \<Rightarrow> int option" where
  "stol s =
     (let (neg, ds) = number_prefix is_digit s;
          v = (if neg then - int (dec_value ds) else int (dec_value ds))
      in if ds = [] then None
         else if - (2 ^ 63) \<le> v \<and> v < 2 ^ 63 then Some v else None)"

record daemon_args =
  arg_path :: string
  arg_mode :: u32
  arg_uid :: int

definition daemon_defaults :: daemon_args where
  "daemon_defaults = \<lparr>arg_path = '''', arg_mode = 0x1B0, arg_uid = -1\<rparr>"

text \<open>0660 is 0x1B0, 0177 is 0x7F and 0770 is 0x1F8. The loop over \<open>argv\<close>; \<open>None\<close> is the call of \<open>usage\<close>.\<close>

fun parse_args :: "string list \<Rightarrow> daemon_args \<Rightarrow> daemon_args option" where
  "parse_args [] a = Some a"
| "parse_args [arg] a = None"
| "parse_args (arg # val # argv) a =
     (if arg = ''--socket'' then parse_args argv (a\<lparr>arg_path := val\<rparr>)
      else if arg = ''--mode'' then
        (case stoul8 val of
           None \<Rightarrow> None
         | Some m \<Rightarrow> parse_args argv (a\<lparr>arg_mode := ucast m\<rparr>))
      else if arg = ''--allow-uid'' then
        (case stol val of
           None \<Rightarrow> None
         | Some u \<Rightarrow> parse_args argv (a\<lparr>arg_uid := u\<rparr>))
      else None)"

text \<open>\<open>sizeof(sockaddr_un::sun_path)\<close> on Linux.\<close>

definition SUN_PATH :: nat where "SUN_PATH = 108"

text \<open>The arguments with the checks on the path: an exit status or the arguments.\<close>

definition check_args :: "string list \<Rightarrow> int + daemon_args" where
  "check_args argv =
     (case parse_args argv daemon_defaults of
        None \<Rightarrow> Inl 2
      | Some a \<Rightarrow>
          if arg_path a = [] then Inl 2
          else if SUN_PATH \<le> length (arg_path a) then Inl 2
          else Inr a)"

section \<open>The socket\<close>

datatype file_kind = Socket_file | Other_file

record os_answers =
  lstat_answer :: "file_kind option"
  socket_ok :: bool
  bind_ok :: bool
  chmod_ok :: bool
  listen_ok :: bool

datatype os_call =
    No_core_dumps | Not_dumpable | Ignore_sigpipe | Handle_sigterm | Handle_sigint
  | Rand_bytes nat | Keystore_probe | Keystore_migrate
  | Lstat string | Unlink string | New_socket | Umask u32 | Bind string | Restore_umask
  | Chmod string u32 | Listen nat

text \<open>
  From \<open>lstat\<close> to \<open>listen\<close>: \<open>None\<close> is a listening socket, \<open>Some\<close> an exit status.
\<close>

definition open_listener ::
    "nat \<Rightarrow> string \<Rightarrow> u32 \<Rightarrow> os_answers \<Rightarrow> os_call list \<times> int option" where
  "open_listener backlog path mode os =
     (if lstat_answer os = Some Other_file then ([Lstat path], Some 1)
      else let c1 = [Lstat path] @ (if lstat_answer os = Some Socket_file then [Unlink path] else []);
               c2 = c1 @ [New_socket]
      in if \<not> socket_ok os then (c2, Some 1)
      else let c3 = c2 @ [Umask 0x7F, Bind path, Restore_umask]
      in if \<not> bind_ok os then (c3, Some 1)
      else let c4 = c3 @ [Chmod path (mode AND 0x1F8)]
      in if \<not> chmod_ok os then (c4, Some 1)
      else let c5 = c4 @ [Listen backlog]
      in if \<not> listen_ok os then (c5, Some 1) else (c5, None))"

section \<open>Hardening and signals\<close>

text \<open>\<open>harden_process\<close>, as on Linux; the admin daemon makes the same calls in its \<open>main\<close>.\<close>

definition harden_process :: "os_call list" where
  "harden_process = [No_core_dumps, Not_dumpable, Ignore_sigpipe, Handle_sigterm, Handle_sigint]"

text \<open>The handler: what it does before the process is gone, and the exit status.\<close>

definition on_signal :: "string \<Rightarrow> os_call list \<times> int" where
  "on_signal socket_path = ([Unlink socket_path], 0)"

text \<open>
  A start that \<open>SIGTERM\<close> ends after \<open>n\<close> of its calls: the handler runs if it is installed by
  then, otherwise the process just ends.
\<close>

definition interrupted :: "nat \<Rightarrow> string \<Rightarrow> os_call list \<Rightarrow> os_call list" where
  "interrupted n socket_path calls =
     take n calls @ (if Handle_sigterm \<in> set (take n calls) then fst (on_signal socket_path) else [])"

section \<open>The two daemons\<close>

text \<open>
  What a start comes to: an exit status, or a daemon that listens with a user to check for (and,
  for the verifier, its dummy key).
\<close>

datatype started = Exited int | Listening_verifier int string | Listening_admin int

definition verifier_start ::
    "'db platform \<Rightarrow> 'r rng \<Rightarrow> string list \<Rightarrow> os_answers \<Rightarrow> 'r \<Rightarrow> 'db \<Rightarrow>
     started \<times> os_call list \<times> 'r \<times> 'db" where
  "verifier_start P R argv os r db =
     (case check_args argv of
        Inl rc \<Rightarrow> (Exited rc, [], r, db)
      | Inr a \<Rightarrow>
        (case random_hex_key R r of
           (None, r1) \<Rightarrow> (Exited 1, harden_process @ [Rand_bytes 64], r1, db)
         | (Some dummy_key, r1) \<Rightarrow>
           let (l, probe, db1) = find_device P ''0000'' device_default db;
               before = harden_process @ [Rand_bytes 64, Keystore_probe]
           in if l = Error then (Exited 1, before, r1, db1)
              else (case open_listener 64 (arg_path a) (arg_mode a) os of
                      (calls, Some rc) \<Rightarrow> (Exited rc, before @ calls, r1, db1)
                    | (calls, None) \<Rightarrow>
                        (Listening_verifier (arg_uid a) dummy_key, before @ calls, r1, db1))))"

definition admin_start ::
    "'db platform \<Rightarrow> string list \<Rightarrow> os_answers \<Rightarrow> 'db \<Rightarrow> started \<times> os_call list \<times> 'db" where
  "admin_start P argv os db =
     (case check_args argv of
        Inl rc \<Rightarrow> (Exited rc, [], db)
      | Inr a \<Rightarrow>
        (case migrate_keystore P db of
           (False, db1) \<Rightarrow> (Exited 1, harden_process @ [Keystore_migrate], db1)
         | (True, db1) \<Rightarrow>
           let before = harden_process @ [Keystore_migrate]
           in (case open_listener 16 (arg_path a) (arg_mode a) os of
                 (calls, Some rc) \<Rightarrow> (Exited rc, before @ calls, db1)
               | (calls, None) \<Rightarrow> (Listening_admin (arg_uid a), before @ calls, db1))))"

section \<open>What a start guarantees\<close>

lemma check_args_path: "check_args argv = Inr a \<Longrightarrow> arg_path a \<noteq> [] \<and> length (arg_path a) < 108"
  by (auto simp: check_args_def SUN_PATH_def split: option.splits if_splits)

lemma mode_no_others: "((m :: u32) AND 0x1F8) AND 7 = 0"
proof -
  have "(0x1F8 :: u32) AND 7 = 0" by simp
  then show ?thesis by (simp only: and.assoc and_zero_eq)
qed

text \<open>
  The calls of a start are safe: core dumps are off and the process is not dumpable before the
  first of the other calls, and the calls on the socket's path have the guards of the code.
\<close>

definition calls_safe :: "os_answers \<Rightarrow> string \<Rightarrow> os_call list \<Rightarrow> bool" where
  "calls_safe os path calls \<longleftrightarrow>
     (\<forall>p. Unlink p \<in> set calls \<longrightarrow> p = path \<and> lstat_answer os = Some Socket_file) \<and>
     (\<forall>p m. Chmod p m \<in> set calls \<longrightarrow> p = path \<and> m AND 7 = 0) \<and>
     (\<forall>p. Bind p \<in> set calls \<longrightarrow> p = path \<and>
        (\<exists>pre post. calls = pre @ [Umask 0x7F, Bind p, Restore_umask] @ post))"

lemma calls_safe_before:
  assumes "calls_safe os path calls"
    and "\<And>c. c \<in> set before \<Longrightarrow> (\<forall>p. c \<noteq> Unlink p \<and> c \<noteq> Bind p) \<and> (\<forall>p m. c \<noteq> Chmod p m)"
  shows "calls_safe os path (before @ calls)"
proof -
  have "\<exists>pre' post. before @ calls = pre' @ [Umask 0x7F, Bind p, Restore_umask] @ post"
    if "Bind p \<in> set calls" for p
    using assms(1) that unfolding calls_safe_def by (metis append.assoc)
  moreover have "Unlink p \<notin> set before" "Bind p \<notin> set before" "Chmod p m \<notin> set before" for p m
    using assms(2) by blast+
  ultimately show ?thesis using assms(1) unfolding calls_safe_def by simp
qed

lemma harden_not_socket:
  "c \<in> set (harden_process @ [Rand_bytes 64, Keystore_probe, Keystore_migrate]) \<Longrightarrow>
   (\<forall>p. c \<noteq> Unlink p \<and> c \<noteq> Bind p) \<and> (\<forall>p m. c \<noteq> Chmod p m)"
  by (auto simp: harden_process_def)

lemma calls_safe_Nil: "calls_safe os path []"
  by (simp add: calls_safe_def)

lemma open_listener_bind:
  assumes "open_listener b path mode os = (calls, res)" and "Bind p \<in> set calls"
  shows "\<exists>pre post. calls = pre @ [Umask 0x7F, Bind p, Restore_umask] @ post"
proof -
  let ?pre = "[Lstat path] @ (if lstat_answer os = Some Socket_file then [Unlink path] else []) @ [New_socket]"
  have "calls = ?pre @ [Umask 0x7F, Bind p, Restore_umask] @ drop (length ?pre + 3) calls"
    using assms by (auto simp: open_listener_def Let_def split: if_splits)
  then show ?thesis by blast
qed

lemma open_listener_safe:
  assumes "open_listener b path mode os = (calls, res)"
  shows "calls_safe os path calls"
  unfolding calls_safe_def
proof (intro conjI)
  show "\<forall>p. Unlink p \<in> set calls \<longrightarrow> p = path \<and> lstat_answer os = Some Socket_file"
    using assms by (auto simp: open_listener_def Let_def split: if_splits)
  show "\<forall>p m. Chmod p m \<in> set calls \<longrightarrow> p = path \<and> m AND 7 = 0"
    using assms mode_no_others by (auto simp: open_listener_def Let_def split: if_splits)
  have "\<forall>p. Bind p \<in> set calls \<longrightarrow> p = path"
    using assms by (auto simp: open_listener_def Let_def split: if_splits)
  then show "\<forall>p. Bind p \<in> set calls \<longrightarrow> p = path \<and>
      (\<exists>pre post. calls = pre @ [Umask 0x7F, Bind p, Restore_umask] @ post)"
    using open_listener_bind [OF assms] by blast
qed

text \<open>
  The shape of a start: nothing at all with bad arguments, otherwise the hardening, then calls
  that leave sockets alone, then, if the keystore answers, the calls on the socket.
\<close>

lemma verifier_start_calls:
  assumes "check_args argv = Inr a" and "verifier_start P R argv os r db = (st, calls, r', db')"
  obtains before sock where "calls = harden_process @ before @ sock"
    "set before \<subseteq> {Rand_bytes 64, Keystore_probe}" "before \<noteq> []"
    "sock = [] \<or> sock = fst (open_listener 64 (arg_path a) (arg_mode a) os)"
    "sock \<noteq> [] \<longrightarrow> fst (find_device P ''0000'' device_default db) \<noteq> Error"
proof -
  obtain k r1 where k: "random_hex_key R r = (k, r1)" by fastforce
  obtain l d db1 where f: "find_device P ''0000'' device_default db = (l, d, db1)" by (metis prod_cases3)
  obtain sock res where o: "open_listener 64 (arg_path a) (arg_mode a) os = (sock, res)" by fastforce
  show thesis
  proof (cases k)
    case None
    then show thesis using that [of "[Rand_bytes 64]" "[]"] assms k by (simp add: verifier_start_def)
  next
    case (Some dk)
    show thesis
    proof (cases "l = Error")
      case True
      then show thesis using that [of "[Rand_bytes 64, Keystore_probe]" "[]"] assms k f Some
        by (simp add: verifier_start_def)
    next
      case False
      then have "calls = harden_process @ [Rand_bytes 64, Keystore_probe] @ sock"
        using assms k f o Some by (auto simp: verifier_start_def Let_def split: option.splits)
      then show thesis using that [of "[Rand_bytes 64, Keystore_probe]" sock] f o False by simp
    qed
  qed
qed

lemma admin_start_calls:
  assumes "check_args argv = Inr a" and "admin_start P argv os db = (st, calls, db')"
  obtains sock where "calls = harden_process @ [Keystore_migrate] @ sock"
    "sock = [] \<or> sock = fst (open_listener 16 (arg_path a) (arg_mode a) os)"
    "sock \<noteq> [] \<longrightarrow> fst (migrate_keystore P db)"
proof -
  obtain ok db1 where m: "migrate_keystore P db = (ok, db1)" by fastforce
  obtain sock res where o: "open_listener 16 (arg_path a) (arg_mode a) os = (sock, res)" by fastforce
  show thesis
    using that [of "if ok then sock else []"] assms m o
    by (auto simp: admin_start_def Let_def split: bool.splits option.splits if_splits)
qed

section \<open>Properties\<close>


text \<open>
  A verifier that listens can do its work: its keystore answered, and its dummy key is 128
  hexadecimal digits, so every check it makes from then on, of any identifier and code, costs
  the same three HMACs and comparisons.
\<close>

theorem verifier_started_uniform:
  assumes "csprng R" and "hmac_digest_32 H"
    and "verifier_start P R argv os r db = (Listening_verifier uid dummy_key, calls, r', db')"
  shows "valid_key dummy_key \<and> (\<exists>ok matched. fst (verify_code P H dummy_key now ident code db2) =
    Inr (ok, matched, [Hmac_of 128 8, Memcmp 8, Hmac_of 128 8, Memcmp 8, Hmac_of 128 8, Memcmp 8]))"
proof -
  from assms(3) obtain r1 where d: "random_hex_key R r = (Some dummy_key, r1)"
    by (auto simp: verifier_start_def Let_def split: sum.splits prod.splits option.splits if_splits)
  then obtain buf where buf: "R 64 r = (Some buf, r1)" "dummy_key = hex_of buf"
    by (auto simp: random_hex_key_def KEY_HEX_LEN_def split: prod.splits option.splits)
  then have "valid_key dummy_key"
    using csprngD [OF assms(1)] by (auto simp: valid_key_def hex_of_chars)
  moreover from this have "length dummy_key = 128" by (simp add: valid_key_def)
  ultimately show ?thesis by (intro conjI verify_code_work [OF assms(2)])
qed

theorem verifier_started_uniform_witness:
  "\<exists>uid dummy_key calls r' db'. verifier_start mem_platform list_rng [''--socket'', ''/run/v'']
      \<lparr>lstat_answer = None, socket_ok = True, bind_ok = True, chmod_ok = True, listen_ok = True\<rparr>
      (replicate 64 7) sample_db = (Listening_verifier uid dummy_key, calls, r', db') \<and>
    valid_key dummy_key"
proof -
  let ?os = "\<lparr>lstat_answer = None, socket_ok = True, bind_ok = True, chmod_ok = True, listen_ok = True\<rparr>"
  have i: "valid_device_id ''0000''" by (simp add: valid_device_id_iff crockford_char_def)
  obtain l d db1 where f: "find_device mem_platform ''0000'' device_default sample_db = (l, d, db1)"
    by (metis prod_cases3)
  have "l \<noteq> Error" using mem.find_device_up [OF sample_db_up f] by blast
  then obtain uid dummy_key calls r' db' where
    s: "verifier_start mem_platform list_rng [''--socket'', ''/run/v''] ?os (replicate 64 7) sample_db =
      (Listening_verifier uid dummy_key, calls, r', db')"
    using f by (simp add: verifier_start_def check_args_def daemon_defaults_def SUN_PATH_def
        random_hex_key_def KEY_HEX_LEN_def list_rng_def open_listener_def)
  from verifier_started_uniform [OF csprng_list_rng hmac_digest_32_sample s] s show ?thesis by blast
qed


text \<open>
  C40. A signal while a daemon starts can delete a file. The handlers are installed first, and
  they unlink the path whatever is there: if the path is an ordinary file, a start that runs to
  its end leaves it alone, but a start that \<open>SIGTERM\<close> ends once the handler is installed unlinks it.
\<close>

theorem signal_during_startup:
  assumes "check_args argv = Inr a" and "lstat_answer os = Some Other_file"
    and "verifier_start P R argv os r db = (st, calls, r', db')"
  shows "Unlink (arg_path a) \<notin> set calls \<and>
    (Unlink (arg_path a) \<in> set (interrupted n (arg_path a) calls) \<longleftrightarrow> 4 \<le> n)"
proof -
  obtain before sock where v: "calls = harden_process @ before @ sock"
    "set before \<subseteq> {Rand_bytes 64, Keystore_probe}" "before \<noteq> []"
    "sock = [] \<or> sock = fst (open_listener 64 (arg_path a) (arg_mode a) os)"
    "sock \<noteq> [] \<longrightarrow> fst (find_device P ''0000'' device_default db) \<noteq> Error"
    by (rule verifier_start_calls [OF assms(1,3)])
  have none: "Unlink (arg_path a) \<notin> set calls"
    using v(2,4) assms(2) by (auto simp: v(1) harden_process_def open_listener_def)
  then have "Unlink (arg_path a) \<notin> set (take n calls)" by (meson in_set_takeD)
  moreover have "Handle_sigterm \<in> set (take n calls) \<longleftrightarrow> 4 \<le> n"
  proof -
    have "Handle_sigterm \<notin> set before" "Handle_sigterm \<notin> set sock"
      using v(2,4) assms(2) by (auto simp: open_listener_def)
    then have rest: "Handle_sigterm \<notin> set (take k (Handle_sigint # before @ sock))" for k
      using in_set_takeD [of Handle_sigterm k "Handle_sigint # before @ sock"] by auto
    have "n < 4 \<Longrightarrow> n = 0 \<or> n = 1 \<or> n = 2 \<or> n = 3" by arith
    then show ?thesis
      using rest by (cases "n < 4") (auto simp: v(1) harden_process_def take_Cons' numeral_eq_Suc)
  qed
  ultimately show ?thesis using none by (simp add: interrupted_def on_signal_def)
qed

theorem signal_during_startup_witness:
  "\<exists>st calls r' db'. verifier_start mem_platform list_rng [''--socket'', ''notes.txt'']
      \<lparr>lstat_answer = Some Other_file, socket_ok = True, bind_ok = True, chmod_ok = True, listen_ok = True\<rparr>
      (replicate 64 7) sample_db = (st, calls, r', db') \<and>
    Unlink ''notes.txt'' \<in> set (interrupted 6 ''notes.txt'' calls)"
proof -
  let ?os = "\<lparr>lstat_answer = Some Other_file, socket_ok = True, bind_ok = True, chmod_ok = True, listen_ok = True\<rparr>"
  have a: "check_args [''--socket'', ''notes.txt''] = Inr (daemon_defaults\<lparr>arg_path := ''notes.txt''\<rparr>)"
    by (simp add: check_args_def daemon_defaults_def SUN_PATH_def)
  obtain st calls r' db' where v: "verifier_start mem_platform list_rng [''--socket'', ''notes.txt''] ?os
      (replicate 64 7) sample_db = (st, calls, r', db')" by (metis prod_cases4)
  from signal_during_startup [OF a _ v, of 6] v show ?thesis by simp
qed

end
