(* ===== verification/Devcode.thy ===== *)
theory Devcode
  imports Verifier Provision
begin

text \<open>
  The development helper \<open>tools/devcode/main.cpp\<close>, which prints a device's current code from
  the keystore. An exception of the HMAC leaves \<open>main\<close> and is the \<open>Inl\<close>.
\<close>

definition devcode_main ::
    "'db platform \<Rightarrow> hmac_fn \<Rightarrow> string list \<Rightarrow> time_t \<Rightarrow> 'db \<Rightarrow> (int \<times> printed list) cxx \<times> 'db" where
  "devcode_main P H argv now db =
     (if length argv \<noteq> 1 then
        (Inr (2, [Cerr (''usage: devcode ID   (DEV ONLY -- reads the key from the keystore)'' @ [nl])]), db)
      else let (l, d, db1) = find_device P (argv ! 0) device_default db in
        if l \<noteq> Found then (Inr (1, [Cerr (''no device '' @ argv ! 0 @ [nl])]), db1)
        else
          (bind_cxx (totp H (dev_key d) now OTP_STEP_SECONDS (int OTP_SIZE)) (\<lambda>code.
             Inr (0, [Cerr (''devcode: DEV ONLY'' @
                        (if dev_status d = 1 then '''' else '' -- device is REVOKED'') @ [nl]),
                      Cout (pad_and_convert code @ [nl])])),
           db1))"

context sqlite_keystore
begin

lemma devcode_found:
  assumes "hmac_digest_32 H" and "find_device P ident device_default db = (Found, d, db1)"
  shows "devcode_main P H [ident] now db =
    (Inr (0, [Cerr (''devcode: DEV ONLY'' @ (if dev_status d = 1 then '''' else '' -- device is REVOKED'') @ [nl]),
              Cout (code_string H (dev_key d) (now div 90) @ [nl])]), db1)"
proof -
  obtain code where "totp_for_counter H (dev_key d) (now div 90) 8 = Inr code"
    "code_string H (dev_key d) (now div 90) = pad_and_convert code"
    using totp_for_counter_total [OF assms(1)] .
  then show ?thesis
    using assms(2) by (simp add: devcode_main_def totp_def OTP_SIZE_def)
qed

end

section \<open>Properties\<close>

text \<open>
  The helper tells the truth about the gate: a run that finds a device prints the code of
  the current window under the key in the table, and says so when the device is revoked.
\<close>

theorem devcode_prints_current_code:
  assumes "sqlite_keystore P tbl" and "hmac_digest_32 H"
    and "devcode_main P H [ident] now db = (Inr (0, outs), db')"
  shows "\<exists>r. tbl db ident = Some r \<and>
    outs = [Cerr (''devcode: DEV ONLY'' @ (if r_status r = 1 then '''' else '' -- device is REVOKED'') @ [nl]),
            Cout (code_string H (c_str (r_key r)) (now div 90) @ [nl])]"
proof -
  obtain l d db1 where f: "find_device P ident device_default db = (l, d, db1)" by (metis prod_cases3)
  with assms(3) have "l = Found" by (cases l) (simp_all add: devcode_main_def)
  with f have f: "find_device P ident device_default db = (Found, d, db1)" by simp
  then obtain r where "tbl db ident = Some r" "d = found_device ident r device_default"
    using sqlite_keystore.find_device_refines [OF assms(1) f] by (auto simp: find_spec_def)
  then show ?thesis
    using sqlite_keystore.devcode_found [OF assms(1,2) f, of now] assms(3) by (simp add: found_device_def)
qed

theorem devcode_prints_current_code_witness:
  "\<exists>outs db'. devcode_main mem_platform sample_hmac [''7Q5V''] 1800 sample_db = (Inr (0, outs), db') \<and>
    Cout (code_string sample_hmac sample_key 20 @ [nl]) \<in> set outs"
proof -
  obtain db1 where "find_device mem_platform ''7Q5V'' device_default sample_db =
      (Found, found_device ''7Q5V'' (sample_row 1) device_default, db1)"
    using mem.ks.find_present [OF sample_db_up, of "''7Q5V''" "sample_row 1"] by auto
  from mem.devcode_found [OF hmac_digest_32_sample this, of 1800] obtain outs db'
    where run: "devcode_main mem_platform sample_hmac [''7Q5V''] 1800 sample_db = (Inr (0, outs), db')"
    by blast
  from devcode_prints_current_code [OF mem.sqlite_keystore_axioms hmac_digest_32_sample run] run
  show ?thesis by auto
qed

end
