(* ===== verification/Server.thy ===== *)
theory Server
  imports Admin Provision Startup Devcode
begin

text \<open>
  The server side as a whole: the verifier daemon, the admin daemon and runs of the provisioning
  tool on one keystore, one operation after the other in any order. SQLite serialises the
  writers, and each operation of the verifier reads the table once, so a history of the keystore
  is a sequence of events. A daemon that an exception ended is started again by its supervisor;
  the start of the admin daemon, which migrates the keystore, is an event of its own.
\<close>

datatype event =
    Login conn time_t
  | Admin_conn conn
  | Tool "string list"
  | Admin_started "string list" os_answers

record ('r, 'f, 'db) server =
  srv_rng :: 'r
  srv_files :: 'f
  srv_db :: 'db

fun server_event ::
    "'db platform \<Rightarrow> hmac_fn \<Rightarrow> 'r rng \<Rightarrow> 'f files \<Rightarrow> string \<Rightarrow> int \<Rightarrow> int \<Rightarrow> event \<Rightarrow>
     ('r, 'f, 'db) server \<Rightarrow> ('r, 'f, 'db) server" where
  "server_event P H R F dummy_key vuid auid (Login c now) s =
     (case verifier_serve P H dummy_key vuid now c (srv_db s) of (out, n, db) \<Rightarrow> s\<lparr>srv_db := db\<rparr>)"
| "server_event P H R F dummy_key vuid auid (Admin_conn c) s =
     (case admin_serve P R auid c (srv_rng s) (srv_db s) of
        (out, n, r, db) \<Rightarrow> s\<lparr>srv_rng := r, srv_db := db\<rparr>)"
| "server_event P H R F dummy_key vuid auid (Tool argv) s =
     (case provision_main P R F argv (srv_rng s) (srv_files s) (srv_db s) of
        (out, r, f, db) \<Rightarrow> s\<lparr>srv_rng := r, srv_files := f, srv_db := db\<rparr>)"
| "server_event P H R F dummy_key vuid auid (Admin_started argv os) s =
     (case admin_start P argv os (srv_db s) of (st, calls, db) \<Rightarrow> s\<lparr>srv_db := db\<rparr>)"

definition server_run ::
    "'db platform \<Rightarrow> hmac_fn \<Rightarrow> 'r rng \<Rightarrow> 'f files \<Rightarrow> string \<Rightarrow> int \<Rightarrow> int \<Rightarrow> event list \<Rightarrow>
     ('r, 'f, 'db) server \<Rightarrow> ('r, 'f, 'db) server" where
  "server_run P H R F dummy_key vuid auid evs s =
     fold (server_event P H R F dummy_key vuid auid) evs s"

text \<open>
  The events that ask for the status \<open>v\<close> of a device: \<open>ACTIVATE id\<close> and \<open>activate id\<close> for 1,
  \<open>REVOKE id\<close> and \<open>revoke id\<close> for 0.
\<close>

definition asks_status :: "int \<Rightarrow> string \<Rightarrow> event \<Rightarrow> bool" where
  "asks_status v ident ev =
     (case ev of
        Login c now \<Rightarrow> False
      | Admin_conn c \<Rightarrow>
          (case fst (admin_read_line (incoming c)) of
             None \<Rightarrow> False
           | Some line \<Rightarrow> parse_request line = (if v = 1 then Activate ident else Revoke ident))
      | Tool argv \<Rightarrow> argv = [if v = 1 then ''activate'' else ''revoke'', ident]
      | Admin_started argv os \<Rightarrow> False)"

definition has_status :: "int \<Rightarrow> table \<Rightarrow> string \<Rightarrow> bool" where
  "has_status v t i \<longleftrightarrow> (\<exists>k. t i = Some k \<and> r_status k = v)"

section \<open>A status stays until somebody asks for the other\<close>

lemma has_status_update:
  "update_spec t j f l t' \<Longrightarrow> has_status v t i \<Longrightarrow> (\<And>k. j = i \<Longrightarrow> r_status k = v \<Longrightarrow> r_status (f k) = v) \<Longrightarrow>
   has_status v t' i"
  by (cases l) (auto simp: update_spec_def has_status_def)

lemma has_status_placed: "placed_spec t d d' t' \<Longrightarrow> has_status v t i \<Longrightarrow> has_status v t' i"
  by (auto simp: placed_spec_def has_status_def)

lemma placed_fresh: "placed_spec t d d' t' \<Longrightarrow> has_status v t i \<Longrightarrow> dev_id d' \<noteq> i"
  by (auto simp: placed_spec_def has_status_def)

lemma has_status_admin_spec:
  assumes "admin_spec t req out t'" and "has_status v t i" and "v \<in> {0, 1}"
    and "req \<noteq> (if 1 - v = 1 then Activate i else Revoke i)"
  shows "has_status v t' i"
  using assms
  by (cases req) (auto simp: admin_spec_def row_spec_def has_status_def)

context sqlite_keystore
begin

lemma verifier_serve_tbl:
  assumes "hmac_digest_32 H" and "verifier_serve P H dummy_key vuid now c db = (out, n, db')"
  shows "tbl db' = tbl db"
  using assms(2) verifier_read_only [OF assms(1)]
  by (auto simp: verifier_serve_def split: if_splits prod.splits option.splits sum.splits)

lemma has_status_admin_serve:
  assumes "csprng R" and "admin_serve P R auid c r db = (out, n, r', db')" and "has_status v (tbl db) i"
    and "v \<in> {0, 1}" and "\<not> asks_status (1 - v) i (Admin_conn c)"
  shows "has_status v (tbl db') i"
proof -
  obtain lo evs where rl: "admin_read_line (incoming c) = (lo, evs)" by fastforce
  show ?thesis
  proof (cases "lo = None \<or> \<not> peer_allowed (peer c) auid")
    case True
    with assms(2,3) rl show ?thesis by (auto simp: admin_serve_def split: if_splits)
  next
    case False
    then obtain line where line: "lo = Some line" and ok: "peer_allowed (peer c) auid" by auto
    obtain res r1 db1 where h: "admin_handle_request P R line r db = (res, r1, db1)"
      by (metis prod_cases3)
    have "db' = db1" using assms(2) rl line ok h by (auto simp: admin_serve_def split: sum.splits)
    moreover have "parse_request line \<noteq> (if 1 - v = 1 then Activate i else Revoke i)"
      using assms(5) rl line by (simp add: asks_status_def)
    ultimately show ?thesis
      using admin_refines [OF assms(1) h] has_status_admin_spec [OF _ assms(3,4)] assms(3)
      by (cases res) auto
  qed
qed

lemma has_status_status:
  assumes "set_device_status P j s db = (l, db')" and "has_status v (tbl db) i" and "j = i \<Longrightarrow> s = v"
  shows "has_status v (tbl db') i"
proof -
  have "update_spec (tbl db) j (\<lambda>r. r\<lparr>r_status := s\<rparr>) l (tbl db')"
    using set_device_status_refines [OF assms(1)] by blast
  then show ?thesis by (rule has_status_update) (use assms(2,3) in \<open>simp_all\<close>)
qed

lemma has_status_note:
  assumes "set_device_note P j n db = (l, db')" and "has_status v (tbl db) i"
  shows "has_status v (tbl db') i"
  by (rule has_status_update [OF set_device_note_refines [OF assms(1)] assms(2)]) simp

lemma has_status_add:
  assumes "csprng R" and "cmd_add P R F args r f db = (res, r', f', db')" and "has_status v (tbl db) i"
  shows "has_status v (tbl db') i"
  using assms(1,2)
proof (cases rule: cmd_add_outcome)
  case nothing
  with assms(3) show ?thesis by simp
next
  case (placed label header id_length key d db1 out)
  have "has_status v (tbl db1) i" by (rule has_status_placed [OF placed(4) assms(3)])
  with placed(5) show ?thesis
    by (cases rule: finish_add_cases)
       (use placed_fresh [OF placed(4) assms(3)] in \<open>auto intro: has_status_status\<close>)
qed

lemma has_status_command:
  assumes "csprng R" and "provision_command P R F cmd args r f db = (res, r', f', db')"
    and "has_status v (tbl db) i" and "v \<in> {0, 1}" and "\<not> asks_status (1 - v) i (Tool (cmd # args))"
  shows "has_status v (tbl db') i"
proof -
  consider (add) "cmd = ''add''" | (list) "cmd = ''list''" "args = []"
    | (revoke) j where "cmd = ''revoke''" "args = [j]"
    | (activate) j where "cmd = ''activate''" "args = [j]"
    | (label) "cmd = ''label''" "length args = 2" "valid_label (args ! 1)"
    | (other) "provision_command P R F cmd args r f db = (res, r, f, db)"
    using assms(2) by (auto simp: provision_command_def length_Suc_conv split: if_splits)
  then show ?thesis
  proof cases
    case add
    with assms show ?thesis using has_status_add by (simp add: provision_command_def)
  next
    case list
    with assms(2,3) show ?thesis
      by (auto simp: provision_command_def cmd_list_def split: prod.splits if_splits
          dest!: list_devices_refines)
  next
    case revoke
    obtain l where "set_device_status P j 0 db = (l, db')"
      using assms(2) revoke by (auto simp: provision_command_def split: prod.splits)
    then show ?thesis
      by (rule has_status_status [OF _ assms(3)]) (use assms(4,5) revoke in \<open>auto simp: asks_status_def\<close>)
  next
    case activate
    obtain l where "set_device_status P j 1 db = (l, db')"
      using assms(2) activate by (auto simp: provision_command_def split: prod.splits)
    then show ?thesis
      by (rule has_status_status [OF _ assms(3)]) (use assms(4,5) activate in \<open>auto simp: asks_status_def\<close>)
  next
    case label
    with assms(2,3) show ?thesis
      by (auto simp: provision_command_def split: prod.splits dest!: has_status_note)
  next
    case other
    with assms(2,3) show ?thesis by simp
  qed
qed

lemma has_status_main:
  assumes "csprng R" and "provision_main P R F argv r f db = (res, r', f', db')"
    and "has_status v (tbl db) i" and "v \<in> {0, 1}" and "\<not> asks_status (1 - v) i (Tool argv)"
  shows "has_status v (tbl db') i"
proof (cases argv)
  case Nil
  with assms show ?thesis by (simp add: provision_main_def)
next
  case (Cons cmd args)
  obtain ok db1 where m: "migrate_keystore P db = (ok, db1)" by fastforce
  obtain res1 r1 f1 db2 where c: "provision_command P R F cmd args r f db1 = (res1, r1, f1, db2)"
    by (metis prod_cases4)
  have "db' = db1 \<or> db' = db2"
    using assms(2) Cons m c
    by (auto simp: provision_main_def split: bool.splits sum.splits cxx_error.splits)
  moreover have "has_status v (tbl db1) i" using assms(3) migrate_keystore_tbl [OF m] by simp
  ultimately show ?thesis using has_status_command [OF assms(1) c _ assms(4)] assms(5) Cons by auto
qed

lemma admin_start_tbl: "admin_start P argv os db = (st, calls, db') \<Longrightarrow> tbl db' = tbl db"
  by (auto simp: admin_start_def Let_def split: sum.splits prod.splits bool.splits option.splits
      dest: migrate_keystore_tbl)

lemma server_event_keeps:
  assumes "csprng R" and "hmac_digest_32 H"
  shows "safe_change (tbl (srv_db s)) (tbl (srv_db (server_event P H R F dummy_key vuid auid ev s)))"
    and "has_status v (tbl (srv_db s)) i \<Longrightarrow> v \<in> {0, 1} \<Longrightarrow> \<not> asks_status (1 - v) i ev \<Longrightarrow>
      has_status v (tbl (srv_db (server_event P H R F dummy_key vuid auid ev s))) i"
proof -
  show "safe_change (tbl (srv_db s)) (tbl (srv_db (server_event P H R F dummy_key vuid auid ev s)))"
    by (cases ev)
       (auto simp: safe_change_def split: prod.splits dest: admin_serve_keeps [OF assms(1)]
          verifier_serve_tbl [OF assms(2)] admin_start_tbl safe_change_main [OF assms(1), unfolded safe_change_def])
  show "has_status v (tbl (srv_db s)) i \<Longrightarrow> v \<in> {0, 1} \<Longrightarrow> \<not> asks_status (1 - v) i ev \<Longrightarrow>
      has_status v (tbl (srv_db (server_event P H R F dummy_key vuid auid ev s))) i"
    by (cases ev)
       (auto split: prod.splits dest: verifier_serve_tbl [OF assms(2)] admin_start_tbl
          intro: has_status_admin_serve [OF assms(1)] has_status_main [OF assms(1)])
qed

lemma server_run_keeps:
  assumes "csprng R" and "hmac_digest_32 H"
  shows "safe_change (tbl (srv_db s)) (tbl (srv_db (server_run P H R F dummy_key vuid auid evs s)))"
    and "has_status v (tbl (srv_db s)) i \<Longrightarrow> v \<in> {0, 1} \<Longrightarrow> \<forall>ev \<in> set evs. \<not> asks_status (1 - v) i ev \<Longrightarrow>
      has_status v (tbl (srv_db (server_run P H R F dummy_key vuid auid evs s))) i"
  unfolding server_run_def
  by (induction evs arbitrary: s)
     (auto intro: safe_change_trans [OF server_event_keeps(1) [OF assms]] server_event_keeps(2) [OF assms])

end

section \<open>Properties\<close>

text \<open>
  C8. The keystore invariant of the whole server side. Whatever logins, admin requests, starts of
  the admin daemon and runs of the tool happen, in whatever order and whatever fails: a well-formed table stays
  well-formed, no device disappears, and no key changes.
\<close>

theorem server_keeps_keystore:
  assumes "sqlite_keystore P tbl" and "csprng R" and "hmac_digest_32 H"
    and "wf_table (tbl (srv_db s))"
  shows "wf_table (tbl (srv_db (server_run P H R F dummy_key vuid auid evs s))) \<and>
    keys_kept (tbl (srv_db s)) (tbl (srv_db (server_run P H R F dummy_key vuid auid evs s)))"
  using sqlite_keystore.server_run_keeps(1) [OF assms(1-3), where s = s and F = F] assms(4)
  by (simp add: safe_change_def)

definition sample_server :: "(byte list, disk, mem_db) server" where
  "sample_server =
     \<lparr>srv_rng = [], srv_files = \<lparr>disk_files = [], disk_space = 0\<rparr>, srv_db = sample_db\<rparr>"

definition sample_conn :: "string \<Rightarrow> conn" where
  "sample_conn l = \<lparr>peer = None, incoming = [Bytes (l @ [nl])], outgoing = [Wrote 200]\<rparr>"

theorem server_keeps_keystore_witness:
  "wf_table (mem_tbl (srv_db (server_run mem_platform sample_hmac list_rng disk_calls sample_key (-1) (-1)
     [Tool [''revoke'', ''7Q5V''], Admin_conn (sample_conn ''LIST'')] sample_server)))"
proof -
  have "wf_table (mem_tbl (srv_db sample_server))"
    using wf_table_sample by (simp add: sample_server_def)
  from server_keeps_keystore [OF mem.sqlite_keystore_axioms csprng_list_rng hmac_digest_32_sample this]
  show ?thesis by blast
qed

text \<open>
  C2. Revocation is final. Once the admin daemon has answered \<open>OK\<close> to \<open>REVOKE id\<close>, the
  verifier answers \<open>NO\<close> to every code for that identifier, after any further logins, admin
  requests, starts of the admin daemon and runs of the tool, until one of these is \<open>ACTIVATE\<close> (or \<open>activate\<close>) for the
  same identifier.
\<close>

theorem revocation_is_final:
  assumes "sqlite_keystore P tbl" and "csprng R" and "hmac_digest_32 H"
    and "admin_handle_request P R (''REVOKE '' @ ident) r db = (Inr (''OK'' @ [nl]), r1, db1)"
    and "\<forall>ev \<in> set evs. \<not> asks_status 1 ident ev" and "CHR '' '' \<notin> set code" and "srv_db s = db1"
  shows "fst (verifier_handle_request P H dummy_key now (''VERIFY '' @ ident @ '' '' @ code)
      (srv_db (server_run P H R F dummy_key vuid auid evs s))) = Inr (''NO'' @ [nl])"
proof -
  let ?db2 = "srv_db (server_run P H R F dummy_key vuid auid evs s)"
  have "admin_spec (tbl db) (parse_request (''REVOKE '' @ ident)) (''OK'' @ [nl]) (tbl db1)"
    using sqlite_keystore.admin_refines [OF assms(1,2,4)] by simp
  moreover have "parse_request (''REVOKE '' @ ident) = (if ident = [] then Malformed else Revoke ident)"
    using split_on_append [of "CHR '' ''" "''REVOKE''" ident] join_split_on [of "CHR '' ''" ident]
    by (simp add: parse_request_def)
  ultimately have r: "valid_device_id ident" "has_status 0 (tbl db1) ident"
    by (auto simp: admin_spec_def row_spec_def has_status_def split: if_splits)
  then have "has_status 0 (tbl ?db2) ident"
    by (intro sqlite_keystore.server_run_keeps(2) [OF assms(1-3)]) (use assms(5,7) in simp_all)
  then have "r_status k \<noteq> 1" if "tbl ?db2 ident = Some k" for k
    using that by (auto simp: has_status_def)
  moreover have "CHR '' '' \<notin> set ident" using r(1) by (rule valid_device_id_chars)
  ultimately show ?thesis
    using sqlite_keystore.verify_inactive [OF assms(1,3) _ assms(6)] by blast
qed

lemma sample_revoke:
  "\<exists>db1. admin_handle_request mem_platform list_rng (''REVOKE '' @ ''7Q5V'') [] sample_db =
     (Inr (''OK'' @ [nl]), [], db1)"
proof -
  obtain l db1 where s: "set_device_status mem_platform ''7Q5V'' 0 sample_db = (l, db1)" by fastforce
  have "l \<noteq> Error" using mem.set_device_status_up [OF sample_db_up _ s] by simp
  moreover have "l \<noteq> NotFound"
    using mem.set_device_status_refines [OF s] by (auto simp: update_spec_def)
  ultimately have "l = Found" by (cases l) simp_all
  with s show ?thesis
    by (simp add: admin_handle_request_def str_find_def ok_no_def Let_def)
qed

theorem revocation_is_final_witness:
  "\<exists>db1. fst (verifier_handle_request mem_platform sample_hmac sample_key 1800
      (''VERIFY '' @ ''7Q5V'' @ '' '' @ ''00000000'')
      (srv_db (server_run mem_platform sample_hmac list_rng disk_calls sample_key (-1) (-1)
        [Tool [''activate'', ''AB12'']] (sample_server\<lparr>srv_db := db1\<rparr>)))) = Inr (''NO'' @ [nl])"
proof -
  obtain db1 where "admin_handle_request mem_platform list_rng (''REVOKE '' @ ''7Q5V'') [] sample_db =
     (Inr (''OK'' @ [nl]), [], db1)"
    using sample_revoke by blast
  then have "fst (verifier_handle_request mem_platform sample_hmac sample_key 1800
      (''VERIFY '' @ ''7Q5V'' @ '' '' @ ''00000000'')
      (srv_db (server_run mem_platform sample_hmac list_rng disk_calls sample_key (-1) (-1)
        [Tool [''activate'', ''AB12'']] (sample_server\<lparr>srv_db := db1\<rparr>)))) = Inr (''NO'' @ [nl])"
    by (rule revocation_is_final [OF mem.sqlite_keystore_axioms csprng_list_rng hmac_digest_32_sample])
       (simp_all add: asks_status_def)
  then show ?thesis by blast
qed

end
