(* ===== verification/Writers.thy ===== *)
theory Writers
  imports Enrolment
begin

text \<open>
  Several writers at once. The admin daemon and runs of the provisioning tool are processes of
  their own on one keystore, so between the lookup and the insertion of one attempt another
  process can write. SQLite makes each of the two atomic. Here the draw loop of \<open>cmd_add\<close> and of
  \<open>handle_add\<close> is cut at its two calls of the keystore, and any number of such loops run
  interleaved, with anything in between that keeps the rows and their keys.
\<close>

section \<open>One writer\<close>

text \<open>
  Where a writer is: before the draw with \<open>n\<close> attempts left, between the lookup and the
  insertion, or done.
\<close>

datatype writer =
    Drawing nat device | Inserting nat device | Placed device | Gave_up device | Threw cxx_error

fun writer_step ::
    "'db platform \<Rightarrow> 'r rng \<Rightarrow> int \<Rightarrow> writer \<Rightarrow> 'r \<Rightarrow> 'db \<Rightarrow> writer \<times> 'r \<times> 'db" where
  "writer_step P R id_length (Drawing 0 d) r db = (Gave_up d, r, db)"
| "writer_step P R id_length (Drawing (Suc n) d) r db =
     (case generate_device_id R id_length r of
        (Inl e, r1) \<Rightarrow> (Threw e, r1, db)
      | (Inr ident, r1) \<Rightarrow>
        let d1 = d\<lparr>dev_id := ident\<rparr>;
            (l, existing, db1) = find_device P ident device_default db
        in (if l = Error then Gave_up d1 else if l = NotFound then Inserting n d1 else Drawing n d1,
            r1, db1))"
| "writer_step P R id_length (Inserting n d) r db =
     (case add_device P d db of
        (True, db1) \<Rightarrow> (Placed d, r, db1)
      | (False, db1) \<Rightarrow> (Drawing n d, r, db1))"
| "writer_step P R id_length w r db = (w, r, db)"

text \<open>A writer that runs alone is the loop of the code.\<close>

fun alone ::
    "nat \<Rightarrow> 'db platform \<Rightarrow> 'r rng \<Rightarrow> int \<Rightarrow> writer \<Rightarrow> 'r \<Rightarrow> 'db \<Rightarrow> writer \<times> 'r \<times> 'db" where
  "alone 0 P R id_length w r db = (w, r, db)"
| "alone (Suc k) P R id_length w r db =
     (case writer_step P R id_length w r db of (w1, r1, db1) \<Rightarrow> alone k P R id_length w1 r1 db1)"

definition outcome :: "(bool \<times> device) cxx \<Rightarrow> writer" where
  "outcome res = (case res of
     Inl e \<Rightarrow> Threw e | Inr (placed, d) \<Rightarrow> if placed then Placed d else Gave_up d)"

lemma alone_done [simp]:
  "alone k P R len (Placed d) r db = (Placed d, r, db)"
  "alone k P R len (Gave_up d) r db = (Gave_up d, r, db)"
  "alone k P R len (Threw e) r db = (Threw e, r, db)"
  by (induction k) simp_all

lemma alone_snoc:
  "alone (Suc k) P R len w r db =
     (case alone k P R len w r db of (w1, r1, db1) \<Rightarrow> writer_step P R len w1 r1 db1)"
proof (induction k arbitrary: w r db)
  case 0
  then show ?case by (simp split: prod.splits)
next
  case (Suc k)
  obtain w1 r1 db1 where s: "writer_step P R len w r db = (w1, r1, db1)" by (metis prod_cases3)
  have "alone (Suc (Suc k)) P R len w r db = alone (Suc k) P R len w1 r1 db1"
    "alone (Suc k) P R len w r db = alone k P R len w1 r1 db1"
    by (simp_all add: s)
  with Suc.IH show ?case by simp
qed

lemma alone_draw_until_free:
  "alone (2 * n + 1) P R len (Drawing n d) r db =
     (case draw_until_free P R len n d r db of (res, r', db') \<Rightarrow> (outcome res, r', db'))"
proof (induction n arbitrary: d r db)
  case 0
  then show ?case by (simp add: outcome_def)
next
  case (Suc n)
  obtain g r1 where g: "generate_device_id R len r = (g, r1)" by fastforce
  show ?case
  proof (cases g)
    case (Inl e)
    then show ?thesis by (simp add: g outcome_def)
  next
    case (Inr i)
    obtain l x db1 where f: "find_device P i device_default db = (l, x, db1)" by (metis prod_cases3)
    obtain ok db2 where a: "add_device P (d\<lparr>dev_id := i\<rparr>) db1 = (ok, db2)" by fastforce
    have more: "alone (Suc (2 * n + 1)) P R len w r1 db' = alone (2 * n + 1) P R len w r1 db'"
      if "alone (2 * n + 1) P R len w r1 db' =
        (case draw_until_free P R len n d' r1 db' of (res, r', db') \<Rightarrow> (outcome res, r', db'))"
      for w d' db'
      unfolding alone_snoc that by (auto simp: outcome_def split: prod.splits sum.splits)
    show ?thesis
      using Suc.IH [of "d\<lparr>dev_id := i\<rparr>" r1 db1] Suc.IH [of "d\<lparr>dev_id := i\<rparr>" r1 db2]
        more [OF Suc.IH [of "d\<lparr>dev_id := i\<rparr>" r1 db1]]
      by (cases l; cases ok) (simp_all add: g Inr f a outcome_def)
  qed
qed

section \<open>Any number of writers\<close>

record ('r, 'db) pool =
  writers :: "nat \<Rightarrow> writer"
  rngs :: "nat \<Rightarrow> 'r"
  shared :: 'db

text \<open>
  A step is one of a writer's, or anything else that happens to the keystore and keeps the rows
  and their keys: a change of a status or a label, or an insertion by somebody else.
\<close>

inductive pool_step ::
    "'db platform \<Rightarrow> ('db \<Rightarrow> table) \<Rightarrow> 'r rng \<Rightarrow> (nat \<Rightarrow> int) \<Rightarrow> ('r, 'db) pool \<Rightarrow> ('r, 'db) pool \<Rightarrow> bool"
  for P tbl R id_length where
  writes: "writer_step P R (id_length p) (writers s p) (rngs s p) (shared s) = (w, r, db) \<Longrightarrow>
    pool_step P tbl R id_length s
      (s\<lparr>writers := (writers s)(p := w), rngs := (rngs s)(p := r), shared := db\<rparr>)"
| others: "keys_kept (tbl (shared s)) (tbl db) \<Longrightarrow> pool_step P tbl R id_length s (s\<lparr>shared := db\<rparr>)"

inductive_cases pool_stepE: "pool_step P tbl R id_length s s'"

definition pool_init :: "('db \<Rightarrow> table) \<Rightarrow> table \<Rightarrow> ('r, 'db) pool \<Rightarrow> bool" where
  "pool_init tbl t s \<longleftrightarrow> tbl (shared s) = t \<and> (\<forall>p. \<exists>n d. writers s p = Drawing n d)"

definition pool_inv :: "('db \<Rightarrow> table) \<Rightarrow> table \<Rightarrow> ('r, 'db) pool \<Rightarrow> bool" where
  "pool_inv tbl t s \<longleftrightarrow> keys_kept t (tbl (shared s)) \<and>
     (\<forall>p d. writers s p = Placed d \<longrightarrow> t (dev_id d) = None \<and>
        map_option r_key (tbl (shared s) (dev_id d)) = Some (c_str (dev_key d))) \<and>
     (\<forall>p q d e. writers s p = Placed d \<and> writers s q = Placed e \<and> p \<noteq> q \<longrightarrow> dev_id d \<noteq> dev_id e)"

lemma keys_kept_None: "keys_kept t u \<Longrightarrow> u i = None \<Longrightarrow> t i = None"
  unfolding keys_kept_def by (metis option.distinct(1) option.exhaust)

lemma keys_kept_key: "keys_kept t u \<Longrightarrow> map_option r_key (t i) = Some k \<Longrightarrow> map_option r_key (u i) = Some k"
  unfolding keys_kept_def by fastforce

context sqlite_keystore
begin

lemma writer_step_spec:
  assumes "writer_step P R len w r db = (w', r', db')"
  shows "(\<exists>d ts. w' = Placed d \<and> tbl db (dev_id d) = None \<and> tbl db' = (tbl db)(dev_id d \<mapsto> new_row d ts)) \<or>
    (tbl db' = tbl db \<and> (\<forall>d. w' = Placed d \<longrightarrow> w = Placed d))"
proof (cases w)
  case (Drawing n d)
  with assms show ?thesis
    by (cases n) (auto simp: Let_def split: prod.splits sum.splits if_splits dest!: ks.find_tbl)
next
  case (Inserting n d)
  obtain ok db1 where a: "add_device P d db = (ok, db1)" by fastforce
  from ks.add_law [OF a] assms Inserting a show ?thesis by (cases ok) (auto simp: add_spec_def)
qed (use assms in auto)

lemma pool_inv_step:
  assumes "pool_inv tbl t s" and "pool_step P tbl R id_length s s'"
  shows "pool_inv tbl t s'"
  using assms(2)
proof (rule pool_stepE)
  fix db
  assume s': "s' = s\<lparr>shared := db\<rparr>" and k: "keys_kept (tbl (shared s)) (tbl db)"
  show ?thesis
    using assms(1) keys_kept_trans [OF _ k] keys_kept_key [OF k] by (simp add: pool_inv_def s')
next
  fix p w r db
  assume w: "writer_step P R (id_length p) (writers s p) (rngs s p) (shared s) = (w, r, db)"
    and s': "s' = s\<lparr>writers := (writers s)(p := w), rngs := (rngs s)(p := r), shared := db\<rparr>"
  from writer_step_spec [OF w] show ?thesis
  proof (elim disjE exE conjE)
    assume "tbl db = tbl (shared s)" "\<forall>d. w = Placed d \<longrightarrow> writers s p = Placed d"
    with assms(1) show ?thesis unfolding pool_inv_def s' by (simp add: fun_upd_def) metis
  next
    fix d ts
    assume d: "w = Placed d" "tbl (shared s) (dev_id d) = None"
      "tbl db = (tbl (shared s))(dev_id d \<mapsto> new_row d ts)"
    have k: "keys_kept (tbl (shared s)) (tbl db)" using d(2,3) by (auto simp: keys_kept_def)
    have fresh: "writers s q = Placed e \<Longrightarrow> dev_id e \<noteq> dev_id d" for q e
      using assms(1) d(2) unfolding pool_inv_def by fastforce
    have "t (dev_id d) = None" "keys_kept t (tbl db)"
      using assms(1) d(2) keys_kept_None keys_kept_trans [OF _ k] unfolding pool_inv_def by blast+
    moreover have "map_option r_key (tbl db (dev_id e)) = Some (c_str (dev_key e))"
      if "writers s q = Placed e" for q e
      using assms(1) that keys_kept_key [OF k] unfolding pool_inv_def by blast
    ultimately show ?thesis
      using assms(1) d(1,3) unfolding pool_inv_def s' by (auto simp: new_row_def dest: fresh)
  qed
qed

end

sublocale sqlite_keystore \<subseteq> pool: invariant_system "pool_init tbl t" "pool_step P tbl R id_length"
  "pool_inv tbl t" for t R id_length
proof unfold_locales
  show "pool_init tbl t s \<Longrightarrow> pool_inv tbl t s" for t and s :: "('c, 'db) pool"
    unfolding pool_init_def pool_inv_def by (metis keys_kept_refl writer.distinct(3))
qed (rule pool_inv_step)

context sqlite_keystore
begin

lemma pool_reachable:
  "reachable (pool_init tbl t) (pool_step P tbl R id_length) s \<Longrightarrow> pool_inv tbl t s"
  by (rule pool.reachable_inv)

end

section \<open>Properties\<close>

text \<open>
  C22. Concurrent enrolment. However many runs of \<open>add\<close> and of \<open>ADD\<close> are interleaved, on any draws
  and with any failures: a writer that has placed a device has placed it under an identifier that
  was free at the start, the table holds the key it generated, no two writers have placed a
  device under the same identifier, and every device that was there at the start is still there
  with its key.
\<close>

theorem concurrent_enrolment:
  assumes "sqlite_keystore P tbl"
    and "reachable (pool_init tbl t) (pool_step P tbl R id_length) s" and "writers s p = Placed d"
  shows "t (dev_id d) = None \<and>
    map_option r_key (tbl (shared s) (dev_id d)) = Some (c_str (dev_key d)) \<and>
    keys_kept t (tbl (shared s)) \<and>
    (\<forall>q e. q \<noteq> p \<and> writers s q = Placed e \<longrightarrow> dev_id e \<noteq> dev_id d)"
proof -
  have "pool_inv tbl t s" by (rule sqlite_keystore.pool_reachable [OF assms(1,2)])
  with assms(3) show ?thesis unfolding pool_inv_def by blast
qed

text \<open>Two writers that draw the same identifier: both find it free, and only one places it.\<close>

definition sample_writer :: "string \<Rightarrow> device" where
  "sample_writer key = device_default\<lparr>dev_status := 1, dev_key := key\<rparr>"

definition sample_pool :: "(byte list, mem_db) pool" where
  "sample_pool =
     \<lparr>writers = (\<lambda>p. Drawing 16 (sample_writer (if p = 0 then ''aa'' else ''bb''))),
      rngs = (\<lambda>p. replicate 4 0), shared = sample_db\<rparr>"

theorem concurrent_enrolment_witness:
  "\<exists>s d e. reachable (pool_init mem_tbl (mem_tbl sample_db))
      (pool_step mem_platform mem_tbl list_rng (\<lambda>p. 4)) s \<and>
    writers s 0 = Placed d \<and> writers s 1 = Drawing 15 e \<and> dev_id e = dev_id d \<and>
    map_option r_key (mem_tbl (shared s) (dev_id d)) = Some ''aa''"
proof -
  let ?step = "pool_step mem_platform mem_tbl list_rng (\<lambda>p. 4 :: int)"
  let ?init = "pool_init mem_tbl (mem_tbl sample_db)"
  let ?d = "\<lambda>key. (sample_writer key)\<lparr>dev_id := ''0000''\<rparr>"
  have i: "valid_device_id ''0000''" by (simp add: valid_device_id_iff crockford_char_def)
  have g: "generate_device_id list_rng 4 (replicate 4 0) = (Inr ''0000'', [])"
    by (simp add: generate_device_id_def list_rng_def id_char_def id_alphabet_def eval_simps)
  obtain db1 where f: "find_device mem_platform ''0000'' device_default sample_db =
      (NotFound, device_default, db1)" "mem_tbl db1 = mem_tbl sample_db" "mem_up db1"
    using mem.ks.find_absent [OF sample_db_up, of "''0000''"] by auto
  obtain db2 where f2: "find_device mem_platform ''0000'' device_default db1 =
      (NotFound, device_default, db2)" "mem_tbl db2 = mem_tbl db1" "mem_up db2"
    using mem.ks.find_absent [OF f(3), of "''0000''"] f(2) by auto
  obtain ok db3 where a: "add_device mem_platform (?d ''aa'') db2 = (ok, db3)" by fastforce
  obtain ok2 db4 where a2: "add_device mem_platform (?d ''bb'') db3 = (ok2, db4)" by fastforce
  have ok: ok
    using mem.keystore_add_iff [OF f2(3) a] i by (simp add: f f2 sample_writer_def)
  have "mem_up db3" using mem.add_device_up [OF f2(3) a] by blast
  moreover have "mem_tbl db3 ''0000'' \<noteq> None"
    using mem.add_device_refines [OF a] ok by (auto simp: add_spec_def)
  ultimately have no: "\<not> ok2" using mem.keystore_add_iff [OF _ a2] by simp
  define s1 where "s1 = sample_pool\<lparr>writers := (writers sample_pool)(0 := Inserting 15 (?d ''aa'')),
    rngs := (rngs sample_pool)(0 := []), shared := db1\<rparr>"
  define s2 where "s2 = s1\<lparr>writers := (writers s1)(1 := Inserting 15 (?d ''bb'')),
    rngs := (rngs s1)(1 := []), shared := db2\<rparr>"
  define s3 where "s3 = s2\<lparr>writers := (writers s2)(0 := Placed (?d ''aa'')),
    rngs := (rngs s2)(0 := []), shared := db3\<rparr>"
  define s4 where "s4 = s3\<lparr>writers := (writers s3)(1 := Drawing 15 (?d ''bb'')),
    rngs := (rngs s3)(1 := []), shared := db4\<rparr>"
  have draw: "writer_step mem_platform list_rng 4 (Drawing 16 (sample_writer key)) (replicate 4 0) db =
      (Inserting 15 (?d key), [], db')"
    if "find_device mem_platform ''0000'' device_default db = (NotFound, device_default, db')" for key db db'
  proof -
    have "(16 :: nat) = Suc 15" by simp
    then show ?thesis using that by (simp only: writer_step.simps g sum.case prod.case Let_def) simp
  qed
  have "?init sample_pool" by (auto simp: pool_init_def sample_pool_def)
  moreover have "?step sample_pool s1"
    unfolding s1_def by (rule writes) (simp add: sample_pool_def draw [OF f(1)] del: replicate_numeral)
  moreover have "?step s1 s2"
    unfolding s2_def by (rule writes) (simp add: s1_def sample_pool_def draw [OF f2(1)] del: replicate_numeral)
  moreover have "?step s2 s3"
    unfolding s3_def by (rule writes) (simp add: s2_def s1_def a ok)
  moreover have "?step s3 s4"
    unfolding s4_def by (rule writes) (simp add: s3_def s2_def a2 no)
  ultimately have r: "reachable ?init ?step s4" by (meson reach_init reach_step)
  moreover have w: "writers s4 0 = Placed (?d ''aa'')" "writers s4 1 = Drawing 15 (?d ''bb'')"
    by (simp_all add: s4_def s3_def)
  moreover have "c_str ''aa'' = ''aa''" by (rule c_str_id) simp
  ultimately show ?thesis
    using concurrent_enrolment [OF mem.sqlite_keystore_axioms r w(1)]
    by (intro exI [of _ s4] exI [of _ "?d ''aa''"] exI [of _ "?d ''bb''"]) (simp add: sample_writer_def)
qed

end
