(* ===== verification/Fw_Totp.thy ===== *)
theory Fw_Totp
  imports Verifier
begin

text \<open>
  The keychain's copy of the OTP arithmetic, \<open>firmware/xAuth_ID/src/totp.cpp\<close> and
  \<open>include/totp.hpp\<close>, and its agreement with \<open>core/otp.cpp\<close>.

  mbedTLS is a parameter: \<open>M\<close> takes the key and the message to the bytes that
  \<open>mbedtls_md_hmac_finish\<close> leaves in \<open>hmacResult\<close>. The agreement needs that \<open>M\<close> and the
  server's HMAC are the same function (\<open>same_hmac\<close>). The second parameter is the width of
  \<open>time_t\<close> in the toolchain: \<open>time_conv\<close> is what the conversions from \<open>uint32_t\<close> to
  \<open>time_t\<close> and on to \<open>uint64_t\<close> make of a time, \<open>ucast\<close> where \<open>time_t\<close> has 64 bits and
  \<open>scast\<close> where it has 32.
\<close>

type_synonym mbed_hmac = "byte list \<Rightarrow> byte list \<Rightarrow> byte list"
type_synonym time_conv = "u32 \<Rightarrow> u64"

definition time_t_64 :: time_conv where "time_t_64 now = ucast now"
definition time_t_32 :: time_conv where "time_t_32 now = scast now"

definition same_hmac :: "mbed_hmac \<Rightarrow> hmac_fn \<Rightarrow> bool" where
  "same_hmac M H \<longleftrightarrow> (\<forall>k m. H k m = Some (M k m) \<and> length (M k m) = 32)"

section \<open>The code\<close>

definition FW_STEP_SECONDS :: int where "FW_STEP_SECONDS = 90"
definition OTP_DIGITS :: nat where "OTP_DIGITS = 8"

text \<open>The array is indexed at 31 and at up to 18: shorter ones are read out of bounds.\<close>

definition fw_dynamic_truncate :: "byte list \<Rightarrow> int \<Rightarrow> u32 cxx" where
  "fw_dynamic_truncate hmac digits =
     (if length hmac < 32 then Inl Undefined_behaviour
      else let
          offset = unat (hmac ! 31 AND 0x0F);
          bin_code = push_bit 24 (ucast (hmac ! offset AND 0x7F) :: u32) OR
                     push_bit 16 (ucast (hmac ! (offset + 1) AND 0xFF)) OR
                     push_bit 8 (ucast (hmac ! (offset + 2) AND 0xFF)) OR
                     ucast (hmac ! (offset + 3) AND 0xFF);
          modulus = mod_loop (nat digits) 1
        in if modulus = 0 then Inl Undefined_behaviour else Inr (bin_code mod modulus))"

text \<open>\<open>totp\<close>, with the \<open>time_t\<close> argument already converted to \<open>uint64_t\<close>.\<close>

definition fw_totp :: "mbed_hmac \<Rightarrow> string \<Rightarrow> u64 \<Rightarrow> int \<Rightarrow> int \<Rightarrow> u32 cxx" where
  "fw_totp M key now step_seconds digits =
     (if (of_int step_seconds :: u64) = 0 then Inl Undefined_behaviour
      else let
          counter = now div of_int step_seconds;
          key_bytes = bytes_of (c_str key);
          message = fill_be 8 counter (replicate 8 0)
        in fw_dynamic_truncate (M key_bytes message) digits)"

definition otp_now :: "mbed_hmac \<Rightarrow> string \<Rightarrow> time_conv \<Rightarrow> u32 \<Rightarrow> u32 cxx" where
  "otp_now M secret_key conv now =
     fw_totp M secret_key (conv now) FW_STEP_SECONDS (int OTP_DIGITS)"

definition otp_seconds_left :: "u32 \<Rightarrow> u32" where
  "otp_seconds_left now = 90 - (now mod 90)"

text \<open>\<open>snprintf(out, OTP_DIGITS + 1, "%0*lu", ...)\<close>: padded to eight, cut after eight.\<close>

definition format_code :: "u32 \<Rightarrow> string" where
  "format_code code = take OTP_DIGITS (zero_pad OTP_DIGITS (nat_to_string (unat code)))"

section \<open>The two copies agree\<close>

lemma fw_dynamic_truncate_eq:
  assumes "length hmac = 32"
  shows "fw_dynamic_truncate hmac digits = dynamic_truncate hmac digits"
proof -
  from assms have "hmac \<noteq> []" by auto
  then have last: "last hmac = hmac ! 31" "hmac \<noteq> []"
    using assms by (simp_all add: last_conv_nth)
  have "unat (hmac ! 31) mod 16 < 16" by simp
  then have "\<not> length hmac \<le> unat (hmac ! 31) mod 16 + 3" using assms by linarith
  then show ?thesis
    by (simp only: fw_dynamic_truncate_def dynamic_truncate_def last unat_and_0x0F assms Let_def) simp
qed

lemma fw_totp_eq:
  assumes "same_hmac M H" and "of_int step_seconds \<noteq> (0 :: u64)"
  shows "fw_totp M key now step_seconds digits = totp H (c_str key) now step_seconds digits"
proof -
  have M: "H (bytes_of (c_str key)) m = Some (M (bytes_of (c_str key)) m)"
    "length (M (bytes_of (c_str key)) m) = 32" for m
    using assms(1) by (simp_all add: same_hmac_def)
  show ?thesis
    using assms(2)
    by (simp add: fw_totp_def totp_def counter_for_time_def totp_for_counter_def hmac_sha256_def
        counter_bytes_def M Let_def fw_dynamic_truncate_eq)
qed

lemma same_hmac_digest: "same_hmac M H \<Longrightarrow> hmac_digest_32 H"
  by (auto simp: same_hmac_def hmac_digest_32_def)

lemma otp_now_eq:
  assumes "same_hmac M H"
  obtains code where "otp_now M key conv now = Inr code"
    "format_code code = code_string H (c_str key) (conv now div 90)"
proof -
  obtain code where code: "totp_for_counter H (c_str key) (conv now div 90) 8 = Inr code"
    "code_string H (c_str key) (conv now div 90) = pad_and_convert code"
    "length (pad_and_convert code) = 8"
    using totp_for_counter_total [OF same_hmac_digest [OF assms]] .
  have "otp_now M key conv now = Inr code"
    using code(1)
    by (simp add: otp_now_def FW_STEP_SECONDS_def OTP_DIGITS_def fw_totp_eq [OF assms] totp_def
        counter_for_time_def)
  moreover have "format_code code = pad_and_convert code"
    using code(3) by (simp add: format_code_def pad_and_convert_def OTP_DIGITS_def OTP_SIZE_def)
  ultimately show thesis using that code(2) by simp
qed

lemma uint_u32_range: "0 \<le> uint (w :: u32)" "uint (w :: u32) < 2 ^ 32"
  using unsigned_less [of w] by simp_all

lemma uint_time_t_64: "uint (time_t_64 now) = uint now"
proof -
  have "uint now < 2 ^ 64" using uint_u32_range [of now] by simp
  then show ?thesis by (simp add: time_t_64_def unsigned_ucast_eq take_bit_int_eq_self_iff)
qed

lemma sint_u32: "sint (now :: u32) = (if uint now < 2 ^ 31 then uint now else uint now - 2 ^ 32)"
proof -
  let ?k = "uint now"
  note range = uint_u32_range [of now]
  have "signed_take_bit 31 ?k = (?k + 2 ^ 31) mod 2 ^ 32 - 2 ^ 31"
    by (simp add: signed_take_bit_eq_take_bit_shift take_bit_eq_mod)
  also have "(?k + 2 ^ 31) mod 2 ^ 32 = (if ?k < 2 ^ 31 then ?k + 2 ^ 31 else ?k - 2 ^ 31)"
  proof (cases "?k < 2 ^ 31")
    case True
    then show ?thesis using range by simp
  next
    case False
    have "(?k + 2 ^ 31) mod 2 ^ 32 = (?k - 2 ^ 31) mod 2 ^ 32"
      using mod_add_self2 [of "?k - 2 ^ 31" "2 ^ 32 :: int"] by (simp add: add.commute)
    also have "\<dots> = ?k - 2 ^ 31" using range False by simp
    finally show ?thesis using False by simp
  qed
  finally show ?thesis by (simp add: sint_uint)
qed

lemma uint_time_t_32:
  "uint (time_t_32 now) = (if uint now < 2 ^ 31 then uint now else uint now + 2 ^ 64 - 2 ^ 32)"
proof -
  have range: "0 \<le> uint now" "uint now < 4294967296" using uint_u32_range [of now] by simp_all
  have u: "uint (time_t_32 now) = sint now mod 18446744073709551616"
    unfolding time_t_32_def scast_eq uint_word_of_int by simp
  show ?thesis
  proof (cases "uint now < 2 ^ 31")
    case True
    then have "sint now = uint now" by (simp add: sint_u32)
    then have "uint (time_t_32 now) = uint now"
      unfolding u using range by (simp add: mod_pos_pos_trivial)
    with True show ?thesis by simp
  next
    case False
    then have s: "sint now = uint now - 4294967296" by (simp add: sint_u32)
    have "(uint now - 4294967296) mod 18446744073709551616 =
        (uint now - 4294967296 + 18446744073709551616) mod 18446744073709551616"
      by (simp only: mod_add_self2)
    also have "\<dots> = uint now - 4294967296 + 18446744073709551616"
      using range by (intro mod_pos_pos_trivial) linarith+
    finally show ?thesis using False by (simp add: u s)
  qed
qed

lemma time_t_32_counter:
  "(time_t_32 now div 90 = time_t_64 now div 90 \<longleftrightarrow> now < 0x80000000) \<and>
   (time_t_32 now div 90 \<in> {time_t_64 now div 90 - 1, time_t_64 now div 90, time_t_64 now div 90 + 1} \<longleftrightarrow>
    now < 0x80000000)"
proof (cases "now < 0x80000000")
  case True
  then have "uint (time_t_32 now) = uint (time_t_64 now)"
    by (simp add: uint_time_t_32 uint_time_t_64 word_less_def)
  then have "time_t_32 now = time_t_64 now" by (simp only: word_uint_eq_iff)
  with True show ?thesis by simp
next
  case False
  note range = uint_u32_range [of now]
  let ?a = "time_t_32 now div 90" and ?w = "time_t_64 now div 90"
  have late: "2 ^ 31 \<le> uint now" using False by (simp add: word_less_def)
  then have w: "uint ?w = uint now div 90" "1 \<le> uint ?w" "uint ?w < 2 ^ 32"
    using range by (auto simp: uint_div uint_time_t_64)
  have a: "2 ^ 33 < uint ?a"
    using late by (simp add: uint_div uint_time_t_32)
  have "uint (?w + 1) = uint ?w + 1" "uint (?w - 1) = uint ?w - 1"
    using w(2,3) by (simp_all add: uint_word_ariths mod_pos_pos_trivial)
  with a w(3) have "uint ?a \<noteq> uint ?w \<and> uint ?a \<noteq> uint (?w + 1) \<and> uint ?a \<noteq> uint (?w - 1)"
    by auto
  then have "?a \<noteq> ?w" "?a \<noteq> ?w + 1" "?a \<noteq> ?w - 1" by metis+
  with False show ?thesis by simp
qed

lemma otp_now_counter:
  assumes "same_hmac M H" and "CHR 0x00 \<notin> set key"
  shows "otp_now M key conv now = totp_for_counter H key (conv now div 90) 8"
  using assms by (simp add: otp_now_def FW_STEP_SECONDS_def OTP_DIGITS_def fw_totp_eq totp_def
      counter_for_time_def c_str_id)

section \<open>Properties\<close>

text \<open>
  C16. The keychain and the server compute the same codes. Built from the same key, with the same
  HMAC, the eight characters the firmware formats for a time are the code string the verifier
  computes for the 90-second window of that time, and the firmware neither traps nor reads out
  of bounds.
\<close>

theorem firmware_code_agrees:
  assumes "same_hmac M H" and "CHR 0x00 \<notin> set key"
  shows "\<exists>code. otp_now M key time_t_64 now = Inr code \<and>
    format_code code = code_string H key (ucast now div 90) \<and> length (format_code code) = 8"
proof -
  obtain code where "otp_now M key time_t_64 now = Inr code"
    "format_code code = code_string H (c_str key) (time_t_64 now div 90)"
    using otp_now_eq [OF assms(1)] .
  then show ?thesis
    using assms code_string_wellformed(1) [OF same_hmac_digest [OF assms(1)]]
    by (simp add: c_str_id time_t_64_def)
qed

definition sample_mbed :: mbed_hmac where
  "sample_mbed k m = the (sample_hmac k m)"

lemma same_hmac_sample: "same_hmac sample_mbed sample_hmac"
  using hmac_digest_32_sample unfolding same_hmac_def sample_mbed_def hmac_digest_32_def
  by (metis option.sel)

theorem firmware_code_agrees_witness:
  "\<exists>code. otp_now sample_mbed sample_key time_t_64 1800000000 = Inr code \<and>
    format_code code = code_string sample_hmac sample_key (ucast (1800000000 :: u32) div 90)"
proof -
  have "CHR 0x00 \<notin> set sample_key" by (simp add: sample_key_def)
  from firmware_code_agrees [OF same_hmac_sample this] show ?thesis by blast
qed

text \<open>
  The width of the firmware's \<open>time_t\<close> matters: with 32 bits the code it shows is the code of
  the server's window for every time before 2038-01-19 03:14:08 UTC; for every later time it is
  the code of a window that is none of the three the verifier looks at, at a server whose clock
  shows the same time.
\<close>

theorem firmware_time_t_width:
  assumes "same_hmac M H" and "CHR 0x00 \<notin> set key"
  shows "\<exists>c. otp_now M key time_t_32 now = totp_for_counter H key c 8 \<and>
    (c = ucast now div 90 \<longleftrightarrow> now < 0x80000000) \<and>
    (c \<in> {ucast now div 90 - 1, ucast now div 90, ucast now div 90 + 1} \<longleftrightarrow> now < 0x80000000)"
  using otp_now_counter [OF assms] time_t_32_counter [of now] unfolding time_t_64_def by blast

theorem firmware_time_t_width_witness:
  "\<exists>c. otp_now sample_mbed sample_key time_t_32 0x80000000 = totp_for_counter sample_hmac sample_key c 8 \<and>
    c \<notin> {0x16C16C0, 0x16C16C1, 0x16C16C2}"
proof -
  have "CHR 0x00 \<notin> set sample_key" by (simp add: sample_key_def)
  from firmware_time_t_width [OF same_hmac_sample this, where now = "0x80000000"] show ?thesis by auto
qed

text \<open>
  The time left that the screen shows is between 1 and 90 seconds and reaches exactly to the
  start of the next window: adding it to the time gives a multiple of 90 in the next window, so
  for every second before that the code stays the same.
\<close>

theorem otp_seconds_left_window:
  "1 \<le> unat (otp_seconds_left now) \<and> unat (otp_seconds_left now) \<le> 90 \<and>
   unat now + unat (otp_seconds_left now) = 90 * (unat now div 90 + 1) \<and>
   (k < unat (otp_seconds_left now) \<longrightarrow> (unat now + k) div 90 = unat now div 90)"
proof -
  have m: "unat (now mod 90) = unat now mod 90" by (simp add: unat_mod)
  have "unat now mod 90 < 90" by simp
  then have "now mod 90 \<le> 90" by (simp add: word_le_nat_alt m)
  then have s: "unat (otp_seconds_left now) = 90 - unat now mod 90"
    by (simp add: otp_seconds_left_def unat_sub m)
  obtain q r where n: "unat now = 90 * q + r" "r < 90"
    by (metis div_mult_mod_eq mod_less_divisor mult.commute zero_less_numeral)
  then have "unat now div 90 = q" "unat now mod 90 = r" by simp_all
  moreover have "(90 * q + r + k) div 90 = q" if "k < 90 - r" for k
    using that n(2) by (intro div_nat_eqI) simp_all
  ultimately show ?thesis unfolding s using n by simp
qed

theorem otp_seconds_left_window_witness:
  "unat (otp_seconds_left 100) = 80 \<and> (100 + 79) div 90 = (100 :: nat) div 90"
proof -
  have "unat (otp_seconds_left 100) = 80" by (simp add: otp_seconds_left_def)
  with otp_seconds_left_window [of 100 79] show ?thesis by simp
qed

end
