(* ===== verification/Fw_Clock.thy ===== *)
theory Fw_Clock
  imports Prelude
begin

text \<open>
  The keychain's clock, \<open>firmware/xAuth_ID/src/clock.cpp\<close> and \<open>include/clock.hpp\<close>: the
  verdict on the DS3231's time, the high-water mark, and the serial protocol that sets it.

  The board is a parameter, the record \<open>board\<close>: the RTC driver, the NVS partition
  (\<open>Preferences\<close>) and the compile-time \<open>COMPILER_UNIX_TIME\<close>. Its state \<open>'w\<close> is the outside
  world; every call may change it, since time passes and hardware fails between calls. Where the
  order of evaluation is unspecified (the arguments of \<open>printf\<close>) the model goes from left to
  right.
\<close>

section \<open>The board\<close>

record 'w board =
  build_epoch :: u32
  rtc_begin :: "'w \<Rightarrow> bool \<times> 'w"
  rtc_lost_power :: "'w \<Rightarrow> bool \<times> 'w"
  rtc_now :: "'w \<Rightarrow> u32 \<times> 'w"
  rtc_adjust :: "u32 \<Rightarrow> 'w \<Rightarrow> 'w"
  rtc_quiet :: "'w \<Rightarrow> 'w"
  rtc_temperature :: "'w \<Rightarrow> string \<times> 'w"
  prefs_begin :: "'w \<Rightarrow> 'w"
  prefs_provisioned :: "'w \<Rightarrow> bool \<times> 'w"
  prefs_set_provisioned :: "'w \<Rightarrow> 'w"
  prefs_last_seen :: "'w \<Rightarrow> u32 \<times> 'w"
  prefs_set_last_seen :: "u32 \<Rightarrow> 'w \<Rightarrow> 'w"

text \<open>
  \<open>rtc_quiet\<close> is \<open>disable32K\<close> with \<open>writeSqwPinMode\<close>; \<open>rtc_temperature\<close> gives the text
  that \<open>%.2f\<close> makes of the reading; \<open>prefs_provisioned\<close> and \<open>prefs_last_seen\<close> are
  \<open>getBool\<close> and \<open>getUInt\<close> with their defaults \<open>false\<close> and 0.
\<close>

section \<open>The code\<close>

datatype clock_state = Ok | No_rtc | Stopped | Never_set | Went_backwards

definition MAX_NUDGE_SECONDS :: int where "MAX_NUDGE_SECONDS = 300"
definition HIGH_WATER_INTERVAL :: u32 where "HIGH_WATER_INTERVAL = 6 * 3600"
definition MAX_EPOCH :: u32 where "MAX_EPOCH = 4102444800"

text \<open>The static variables of the file.\<close>

record clock =
  state :: clock_state
  last_seen :: u32

definition clock_power_on :: clock where
  "clock_power_on = \<lparr>state = No_rtc, last_seen = 0\<rparr>"

definition evaluate :: "'w board \<Rightarrow> clock \<Rightarrow> 'w \<Rightarrow> clock_state \<times> 'w" where
  "evaluate B c w =
     (let (present, w1) = rtc_begin B w in
      if \<not> present then (No_rtc, w1)
      else let (lost, w2) = rtc_lost_power B w1 in
      if lost then (Stopped, w2)
      else let (provisioned, w3) = prefs_provisioned B w2 in
      if \<not> provisioned then (Never_set, w3)
      else let (now, w4) = rtc_now B w3 in
      if now < build_epoch B then (Stopped, w4)
      else if now < last_seen c then (Went_backwards, w4)
      else (Ok, w4))"

definition clock_begin :: "'w board \<Rightarrow> clock \<Rightarrow> 'w \<Rightarrow> clock \<times> 'w" where
  "clock_begin B c w =
     (let w1 = prefs_begin B w;
          (mark, w2) = prefs_last_seen B w1;
          c1 = c\<lparr>last_seen := mark\<rparr>;
          (s, w3) = evaluate B c1 w2;
          c2 = c1\<lparr>state := s\<rparr>
      in if s \<noteq> No_rtc then (c2, rtc_quiet B w3) else (c2, w3))"

definition clock_state_text :: "clock_state \<Rightarrow> string" where
  "clock_state_text s =
     (case s of Ok \<Rightarrow> ''OK'' | No_rtc \<Rightarrow> ''NO CLOCK'' | Stopped \<Rightarrow> ''SET TIME''
      | Never_set \<Rightarrow> ''SET TIME'' | Went_backwards \<Rightarrow> ''CLOCK ERROR'')"

definition state_name :: "clock_state \<Rightarrow> string" where
  "state_name s =
     (case s of Ok \<Rightarrow> ''ok'' | No_rtc \<Rightarrow> ''no_rtc'' | Stopped \<Rightarrow> ''stopped''
      | Never_set \<Rightarrow> ''never_set'' | Went_backwards \<Rightarrow> ''went_backwards'')"

definition set_high_water :: "'w board \<Rightarrow> u32 \<Rightarrow> clock \<Rightarrow> 'w \<Rightarrow> clock \<times> 'w" where
  "set_high_water B t c w = (c\<lparr>last_seen := t\<rparr>, prefs_set_last_seen B t w)"

definition remember_time :: "'w board \<Rightarrow> u32 \<Rightarrow> clock \<Rightarrow> 'w \<Rightarrow> clock \<times> 'w" where
  "remember_time B now c w =
     (if last_seen c + HIGH_WATER_INTERVAL < now then set_high_water B now c w else (c, w))"

definition clock_now :: "'w board \<Rightarrow> clock \<Rightarrow> 'w \<Rightarrow> u32 \<times> clock \<times> 'w" where
  "clock_now B c w =
     (let (now, w1) = rtc_now B w in
      if state c = Ok then
        (if now < last_seen c then (now, c\<lparr>state := Went_backwards\<rparr>, w1)
         else (now, remember_time B now c w1))
      else (now, c, w1))"

text \<open>
  The time arithmetic of \<open>apply_time\<close> is in \<open>int64_t\<close>, which holds every difference of two
  \<open>uint32_t\<close>; here it is in \<open>int\<close>.
\<close>

definition apply_time :: "'w board \<Rightarrow> u32 \<Rightarrow> clock \<Rightarrow> 'w \<Rightarrow> bool \<times> clock \<times> 'w" where
  "apply_time B epoch c w =
     (if state c = No_rtc then (False, c, w)
      else if epoch < build_epoch B then (False, c, w)
      else let
        (jump, w1) =
          (if state c = Ok then
             (let (now, w1) = rtc_now B w;
                  delta = uint epoch - uint now
              in (delta < - MAX_NUDGE_SECONDS \<or> MAX_NUDGE_SECONDS < delta, w1))
           else (False, w))
      in if jump then (False, c, w1)
      else if uint epoch < uint (last_seen c) - MAX_NUDGE_SECONDS then (False, c, w1)
      else let
        w2 = rtc_adjust B epoch w1;
        w3 = prefs_set_provisioned B w2;
        (c1, w4) = (if last_seen c < epoch then set_high_water B epoch c w3 else (c, w3));
        (s, w5) = evaluate B c1 w4;
        c2 = c1\<lparr>state := s\<rparr>
      in (s = Ok, c2, w5))"

section \<open>The serial protocol\<close>

definition report :: "'w board \<Rightarrow> string \<Rightarrow> clock \<Rightarrow> 'w \<Rightarrow> string \<times> 'w" where
  "report B tag c w =
     (let rtc_ok = (state c \<noteq> No_rtc);
          (t, w1) = (if rtc_ok then rtc_now B w else (0, w));
          (osf, w2) = (if rtc_ok then rtc_lost_power B w1 else (False, w1));
          (temp, w3) = (if rtc_ok then rtc_temperature B w2 else (''0.00'', w2))
      in (tag @ '' t='' @ nat_to_string (unat t) @ '' osf='' @ (if osf then ''1'' else ''0'') @
          '' temp='' @ temp @ '' state='' @ state_name (state c) @ [nl], w3))"

text \<open>\<open>strtoul\<close> on a string that starts with a digit, for the 32-bit \<open>unsigned long\<close>.\<close>

definition strtoul :: "string \<Rightarrow> u32 \<times> string" where
  "strtoul s =
     (let n = dec_value (takeWhile is_digit s)
      in (if n < 2 ^ 32 then word_of_nat n else - 1, dropWhile is_digit s))"

definition crlf :: string where "crlf = [CHR 0x0D, nl]"

definition handle_command :: "'w board \<Rightarrow> string \<Rightarrow> clock \<Rightarrow> 'w \<Rightarrow> string \<times> clock \<times> 'w" where
  "handle_command B cmd c w =
     (if cmd = ''?'' then (let (out, w1) = report B ''NOW'' c w in (out, c, w1))
      else if take 2 cmd = ''T '' then
        (let digits = drop 2 cmd in
         if digits = [] \<or> \<not> is_digit (hd digits) then (''ERR rejected'' @ crlf, c, w)
         else let (epoch, rest) = strtoul digits in
         if rest \<noteq> [] \<or> MAX_EPOCH < epoch then (''ERR rejected'' @ crlf, c, w)
         else (case apply_time B epoch c w of
             (False, c1, w1) \<Rightarrow> (''ERR rejected'' @ crlf, c1, w1)
           | (True, c1, w1) \<Rightarrow> (let (out, w2) = report B ''SET'' c1 w1 in (out, c1, w2))))
      else (''ERR unknown'' @ crlf, c, w))"

text \<open>
  The static variables of \<open>clock_poll_serial\<close>: \<open>line\<close> is the first \<open>len\<close> characters of the
  array. A command ends at the first NUL, as the C strings it is passed as do.
\<close>

record serial =
  line :: string
  overflow :: bool

definition serial_init :: serial where
  "serial_init = \<lparr>line = '''', overflow = False\<rparr>"

fun clock_poll_serial ::
    "'w board \<Rightarrow> string \<Rightarrow> serial \<Rightarrow> clock \<Rightarrow> 'w \<Rightarrow> string \<times> serial \<times> clock \<times> 'w" where
  "clock_poll_serial B [] s c w = ('''', s, c, w)"
| "clock_poll_serial B (ch # input) s c w =
     (if ch = CHR 0x0D then clock_poll_serial B input s c w
      else if ch \<noteq> nl then
        (if length (line s) < 31
         then clock_poll_serial B input (s\<lparr>line := line s @ [ch]\<rparr>) c w
         else clock_poll_serial B input (s\<lparr>overflow := True\<rparr>) c w)
      else let
        (out, c1, w1) =
          (if overflow s then ('''', c, w) else handle_command B (c_str (line s)) c w);
        (outs, rest) = clock_poll_serial B input serial_init c1 w1
      in (out @ outs, rest))"

text \<open>
  \<open>mark\<close> is the stored high-water mark, 0 when there is none. It survives everything but
  \<open>putUInt\<close> on its key. Nothing is assumed of the RTC: it may answer anything at any time.
\<close>

text \<open>
  The one form of command that sets the time: \<open>T\<close>, a space, and decimal digits for a number up to
  4102444800.
\<close>

definition set_epoch :: "string \<Rightarrow> nat option" where
  "set_epoch cmd =
     (let ds = drop 2 cmd
      in if take 2 cmd = ''T '' \<and> ds \<noteq> [] \<and> list_all is_digit ds \<and> dec_value ds \<le> 4102444800
         then Some (dec_value ds) else None)"

lemma strtoul_rejects:
  assumes "ds \<noteq> []"
  shows "(snd (strtoul ds) \<noteq> [] \<or> MAX_EPOCH < fst (strtoul ds)) \<longleftrightarrow>
      \<not> (list_all is_digit ds \<and> dec_value ds \<le> 4102444800)"
    and "list_all is_digit ds \<Longrightarrow> dec_value ds \<le> 4102444800 \<Longrightarrow> strtoul ds = (word_of_nat (dec_value ds), [])"
proof -
  have all: "dropWhile is_digit ds = [] \<longleftrightarrow> list_all is_digit ds" by (simp add: list_all_iff)
  have eq: "strtoul ds = (if dec_value ds < 2 ^ 32 then word_of_nat (dec_value ds) else - 1, [])"
    if "list_all is_digit ds"
  proof -
    have t: "takeWhile is_digit ds = ds" and d: "dropWhile is_digit ds = []"
      using that by (simp_all add: list_all_iff)
    show ?thesis unfolding strtoul_def Let_def t d by (rule refl)
  qed
  have u: "unat (word_of_nat n :: u32) = n" if "n < 2 ^ 32" for n
    using that by (simp add: unat_of_nat)
  have big: "MAX_EPOCH < fst (strtoul ds) \<longleftrightarrow> 4102444800 < dec_value ds" if "list_all is_digit ds"
  proof (cases "dec_value ds < 2 ^ 32")
    case True
    then show ?thesis using u [OF True] by (simp add: eq [OF that] MAX_EPOCH_def word_less_nat_alt)
  next
    case False
    have "unat (- 1 :: u32) = 4294967295"
      by (simp add: unsigned_minus_1_eq_mask mask_eq_exp_minus_1)
    with False show ?thesis by (simp add: eq [OF that] MAX_EPOCH_def word_less_nat_alt)
  qed
  show "(snd (strtoul ds) \<noteq> [] \<or> MAX_EPOCH < fst (strtoul ds)) \<longleftrightarrow>
      \<not> (list_all is_digit ds \<and> dec_value ds \<le> 4102444800)"
  proof (cases "list_all is_digit ds")
    case True
    then show ?thesis using big [OF True] eq [OF True] by auto
  next
    case False
    then have "snd (strtoul ds) \<noteq> []" using all by (simp add: strtoul_def Let_def)
    with False show ?thesis by simp
  qed
  show "strtoul ds = (word_of_nat (dec_value ds), [])"
    if "list_all is_digit ds" "dec_value ds \<le> 4102444800"
    using eq [OF that(1)] that(2) by simp
qed

lemma handle_command_eq:
  "handle_command B cmd c w =
     (if cmd = ''?'' then (let (out, w1) = report B ''NOW'' c w in (out, c, w1))
      else case set_epoch cmd of
        Some n \<Rightarrow>
          (case apply_time B (word_of_nat n) c w of
             (False, c1, w1) \<Rightarrow> (''ERR rejected'' @ crlf, c1, w1)
           | (True, c1, w1) \<Rightarrow> (let (out, w2) = report B ''SET'' c1 w1 in (out, c1, w2)))
      | None \<Rightarrow>
          ((if take 2 cmd = ''T '' then ''ERR rejected'' else ''ERR unknown'') @ crlf, c, w))"
proof (cases "take 2 cmd = ''T ''")
  case False
  then show ?thesis by (simp add: handle_command_def set_epoch_def Let_def)
next
  case True
  then have cmd: "cmd \<noteq> ''?''" by auto
  let ?ds = "drop 2 cmd"
  show ?thesis
  proof (cases "list_all is_digit ?ds \<and> ?ds \<noteq> [] \<and> dec_value ?ds \<le> 4102444800")
    case ok: True
    then have "is_digit (hd ?ds)" by (cases ?ds) simp_all
    moreover have "\<not> MAX_EPOCH < word_of_nat (dec_value ?ds)"
      using ok strtoul_rejects [of ?ds] by simp
    ultimately show ?thesis
      using ok True cmd strtoul_rejects(2) [of ?ds]
      by (simp add: handle_command_def set_epoch_def)
  next
    case bad: False
    then have none: "set_epoch cmd = None" by (auto simp: set_epoch_def Let_def)
    show ?thesis
    proof (cases "?ds = [] \<or> \<not> is_digit (hd ?ds)")
      case nodigit: True
      then show ?thesis using True cmd none by (simp only: handle_command_def Let_def if_True if_False simp_thms option.case)
    next
      case False
      obtain e rest where e: "strtoul ?ds = (e, rest)" by fastforce
      with False bad strtoul_rejects(1) [of ?ds] have "rest \<noteq> [] \<or> MAX_EPOCH < e" by auto
      then show ?thesis
        using True cmd none False by (simp only: handle_command_def Let_def if_True if_False simp_thms option.case e prod.case)
    qed
  qed
qed

section \<open>What the code relies on of NVS\<close>

text \<open>
  The mark in RAM is the mark in NVS from \<open>clock_begin\<close> on; before it the state is
  \<open>No_rtc\<close>, in which nothing uses or changes either.
\<close>

definition mark_synced :: "('w \<Rightarrow> u32) \<Rightarrow> clock \<Rightarrow> 'w \<Rightarrow> bool" where
  "mark_synced mark c w \<longleftrightarrow> state c = No_rtc \<or> last_seen c = mark w"

locale board_nvs =
  fixes B :: "'w board" and mark :: "'w \<Rightarrow> u32"
  assumes mark_read: "prefs_last_seen B w = (m, w') \<Longrightarrow> m = mark w \<and> mark w' = mark w"
    and mark_write: "mark (prefs_set_last_seen B t w) = t"
    and mark_rtc: "mark (snd (rtc_begin B w)) = mark w" "mark (snd (rtc_lost_power B w)) = mark w"
      "mark (snd (rtc_now B w)) = mark w" "mark (rtc_adjust B t w) = mark w"
      "mark (rtc_quiet B w) = mark w" "mark (snd (rtc_temperature B w)) = mark w"
    and mark_prefs: "mark (prefs_begin B w) = mark w" "mark (snd (prefs_provisioned B w)) = mark w"
      "mark (prefs_set_provisioned B w) = mark w"
begin

lemma rtc_pair_mark:
  "rtc_begin B w = (b, w') \<Longrightarrow> mark w' = mark w" "rtc_lost_power B w = (b, w') \<Longrightarrow> mark w' = mark w"
  "rtc_now B w = (t, w') \<Longrightarrow> mark w' = mark w" "rtc_temperature B w = (s, w') \<Longrightarrow> mark w' = mark w"
  "prefs_provisioned B w = (b, w') \<Longrightarrow> mark w' = mark w"
  using mark_rtc mark_prefs by (metis snd_conv)+

lemma evaluate_mark: "evaluate B c w = (s, w') \<Longrightarrow> mark w' = mark w"
  by (auto simp: evaluate_def Let_def split: prod.splits if_splits dest!: rtc_pair_mark)

lemma report_mark: "report B tag c w = (out, w') \<Longrightarrow> mark w' = mark w"
  by (auto simp: report_def Let_def split: prod.splits if_splits dest!: rtc_pair_mark)

lemma clock_begin_mark:
  assumes "clock_begin B c w = (c', w')"
  shows "last_seen c' = mark w' \<and> mark w' = mark w"
  using assms
  by (auto simp: clock_begin_def Let_def mark_rtc mark_prefs split: prod.splits if_splits
      dest!: mark_read evaluate_mark)

lemma clock_now_mark:
  assumes "clock_now B c w = (now, c', w')" and "mark_synced mark c w"
  shows "mark_synced mark c' w' \<and> mark w \<le> mark w' \<and>
    (state c' = Ok \<longrightarrow> mark w \<le> now \<and> unat now \<le> unat (mark w') + 21600)"
proof -
  obtain t w1 where r: "rtc_now B w = (t, w1)" by fastforce
  note m = rtc_pair_mark(3) [OF r]
  show ?thesis
  proof (cases "state c = Ok \<and> last_seen c \<le> t")
    case True
    have near: "unat t \<le> unat (last_seen c) + 21600" if "t \<le> last_seen c + HIGH_WATER_INTERVAL"
    proof -
      have "unat (last_seen c + 21600) \<le> unat (last_seen c) + 21600"
        by (simp add: unat_word_ariths)
      then show ?thesis using that by (simp add: HIGH_WATER_INTERVAL_def word_le_nat_alt)
    qed
    show ?thesis
      using assms True r m near
      by (auto simp: clock_now_def remember_time_def set_high_water_def mark_synced_def mark_write
          split: if_splits)
  next
    case False
    with assms r m show ?thesis
      by (auto simp: clock_now_def mark_synced_def split: if_splits)
  qed
qed

lemma apply_time_mark:
  assumes "apply_time B epoch c w = (ok, c', w')" and "mark_synced mark c w"
  shows "mark_synced mark c' w' \<and> mark w \<le> mark w'"
  using assms
  by (auto simp: apply_time_def Let_def set_high_water_def mark_synced_def mark_write mark_rtc
      mark_prefs split: prod.splits if_splits dest!: rtc_pair_mark evaluate_mark)

lemma handle_command_mark:
  assumes "handle_command B cmd c w = (out, c', w')" and "mark_synced mark c w"
  shows "mark_synced mark c' w' \<and> mark w \<le> mark w'"
proof -
  consider (query) "cmd = ''?''" | (set) n where "cmd \<noteq> ''?''" "set_epoch cmd = Some n"
    | (other) "cmd \<noteq> ''?''" "set_epoch cmd = None" by (cases "set_epoch cmd") auto
  then show ?thesis
  proof cases
    case query
    obtain o1 w1 where r: "report B ''NOW'' c w = (o1, w1)" by fastforce
    with assms query report_mark [OF r] show ?thesis
      by (simp add: handle_command_eq mark_synced_def)
  next
    case set
    obtain ok c1 w1 where a: "apply_time B (word_of_nat n) c w = (ok, c1, w1)" by (metis prod_cases3)
    obtain o1 w2 where r: "report B ''SET'' c1 w1 = (o1, w2)" by fastforce
    note am = apply_time_mark [OF a assms(2)]
    show ?thesis
    proof (cases ok)
      case True
      with assms(1) set a r have "c' = c1" "w' = w2" by (simp_all add: handle_command_eq)
      with am report_mark [OF r] show ?thesis by (simp add: mark_synced_def)
    next
      case False
      with assms(1) set a have "c' = c1" "w' = w1" by (simp_all add: handle_command_eq)
      with am show ?thesis by simp
    qed
  next
    case other
    with assms show ?thesis by (simp add: handle_command_eq)
  qed
qed

lemma clock_poll_serial_mark:
  "clock_poll_serial B input s c w = (out, s', c', w') \<Longrightarrow> mark_synced mark c w \<Longrightarrow>
   mark_synced mark c' w' \<and> mark w \<le> mark w'"
proof (induction input arbitrary: s c w out s' c' w')
  case Nil
  then show ?case by simp
next
  case (Cons ch input)
  obtain o1 c1 w1 where h: "(if overflow s then ('''', c, w) else handle_command B (c_str (line s)) c w) =
      (o1, c1, w1)"
    by (metis prod_cases3)
  have one: "mark_synced mark c1 w1 \<and> mark w \<le> mark w1"
    using h Cons.prems(2) handle_command_mark [of "c_str (line s)" c w o1 c1 w1]
    by (cases "overflow s") simp_all
  obtain o2 s2 c2 w2 where rest: "clock_poll_serial B input serial_init c1 w1 = (o2, s2, c2, w2)"
    by (metis prod_cases4)
  show ?case
  proof (cases "ch = nl")
    case True
    with Cons.prems(1) h rest have "c' = c2" "w' = w2" by simp_all
    with Cons.IH [OF rest] one show ?thesis by auto
  next
    case False
    with Cons show ?thesis by (auto split: if_splits)
  qed
qed

end

text \<open>The reading of \<open>clock_now\<close> and the state it leaves.\<close>

lemma clock_now_reads:
  "clock_now B c w = (now, c', w') \<Longrightarrow>
   now = fst (rtc_now B w) \<and>
   state c' = (if state c = Ok \<and> now < last_seen c then Went_backwards else state c)"
  by (auto simp: clock_now_def remember_time_def set_high_water_def Let_def split: prod.splits if_splits)

section \<open>Lines\<close>

text \<open>What a serial stream means: its lines in order, carriage returns dropped.\<close>

fun run_lines :: "'w board \<Rightarrow> string list \<Rightarrow> clock \<Rightarrow> 'w \<Rightarrow> string \<times> clock \<times> 'w" where
  "run_lines B [] c w = ('''', c, w)"
| "run_lines B (l # ls) c w =
     (let cmd = filter (\<lambda>ch. ch \<noteq> CHR 0x0D) l in
      let (out, c1, w1) = (if 31 < length cmd then ('''', c, w) else handle_command B (c_str cmd) c w);
          (outs, c2, w2) = run_lines B ls c1 w1
      in (out @ outs, c2, w2))"

text \<open>A stream cut at its line feeds: the complete lines, and what is left of an unfinished one.\<close>

fun lines_of :: "string \<Rightarrow> string list \<times> string" where
  "lines_of [] = ([], '''')"
| "lines_of (ch # str) =
     (case lines_of str of (ls, rest) \<Rightarrow>
        if ch = nl then ('''' # ls, rest)
        else (case ls of [] \<Rightarrow> ([], ch # rest) | l # ls' \<Rightarrow> ((ch # l) # ls', rest)))"

text \<open>The buffer behind an unfinished line, however long that has become.\<close>

definition serial_of :: "string \<Rightarrow> serial" where
  "serial_of rest =
     (let cmd = filter (\<lambda>ch. ch \<noteq> CHR 0x0D) rest in \<lparr>line = take 31 cmd, overflow = 31 < length cmd\<rparr>)"

text \<open>
  The calls of \<open>clock_poll_serial\<close> one after the other, each with what has arrived since the one
  before, and with what becomes of the clock and of the world until the next: the rest of \<open>loop\<close>,
  the RTC going on. And their meaning over the stream: each runs the lines that end in it.
\<close>

type_synonym 'w meanwhile = "clock \<times> 'w \<Rightarrow> clock \<times> 'w"

fun poll_calls ::
    "'w board \<Rightarrow> (string \<times> 'w meanwhile) list \<Rightarrow> serial \<Rightarrow> clock \<Rightarrow> 'w \<Rightarrow>
     string list \<times> serial \<times> clock \<times> 'w" where
  "poll_calls B [] s c w = ([], s, c, w)"
| "poll_calls B ((input, f) # calls) s c w =
     (let (out, s1, c1, w1) = clock_poll_serial B input s c w;
          (c2, w2) = f (c1, w1);
          (outs, rest) = poll_calls B calls s1 c2 w2
      in (out # outs, rest))"

fun line_calls ::
    "'w board \<Rightarrow> (string \<times> 'w meanwhile) list \<Rightarrow> string \<Rightarrow> clock \<Rightarrow> 'w \<Rightarrow>
     string list \<times> string \<times> clock \<times> 'w" where
  "line_calls B [] pending c w = ([], pending, c, w)"
| "line_calls B ((input, f) # calls) pending c w =
     (let (ls, pending1) = lines_of (pending @ input);
          (out, c1, w1) = run_lines B ls c w;
          (c2, w2) = f (c1, w1);
          (outs, rest) = line_calls B calls pending1 c2 w2
      in (out # outs, rest))"

lemma lines_of_no_nl: "nl \<notin> set p \<Longrightarrow> lines_of p = ([], p)"
  by (induction p) auto

lemma lines_of_line: "nl \<notin> set p \<Longrightarrow> lines_of (p @ nl # str) = (case lines_of str of (ls, rest) \<Rightarrow> (p # ls, rest))"
  by (induction p) (auto split: prod.splits)

lemma lines_of_rest: "lines_of str = (ls, rest) \<Longrightarrow> nl \<notin> set rest"
  by (induction str arbitrary: ls rest) (auto split: prod.splits if_splits list.splits)

lemma lines_of_append:
  "lines_of (a @ b) = (case lines_of a of (ls, rest) \<Rightarrow> case lines_of (rest @ b) of (ls', rest') \<Rightarrow> (ls @ ls', rest'))"
  by (induction a) (auto split: prod.splits list.splits)

lemma lines_of_lines: "\<forall>l \<in> set ls. nl \<notin> set l \<Longrightarrow> lines_of (concat (map (\<lambda>l. l @ [nl]) ls)) = (ls, '''')"
  by (induction ls) (simp_all add: lines_of_line)

lemma run_lines_append:
  "run_lines B (ls @ ls') c w =
     (case run_lines B ls c w of (out, c1, w1) \<Rightarrow>
      case run_lines B ls' c1 w1 of (out', c2, w2) \<Rightarrow> (out @ out', c2, w2))"
  by (induction ls arbitrary: c w) (auto simp: Let_def split: prod.splits)

lemma serial_of_Nil: "serial_of '''' = serial_init"
  by (simp add: serial_of_def serial_init_def)

lemma serial_of_snoc:
  "serial_of (p @ [ch]) =
     (if ch = CHR 0x0D then serial_of p
      else if length (line (serial_of p)) < 31 then serial_of p\<lparr>line := line (serial_of p) @ [ch]\<rparr>
      else serial_of p\<lparr>overflow := True\<rparr>)"
  by (auto simp: serial_of_def Let_def)

lemma poll_pending:
  assumes "nl \<notin> set p"
  shows "clock_poll_serial B input (serial_of p) c w =
    (case lines_of (p @ input) of (ls, rest) \<Rightarrow>
     case run_lines B ls c w of (out, c', w') \<Rightarrow> (out, serial_of rest, c', w'))"
  using assms
proof (induction input arbitrary: p c w)
  case Nil
  then show ?case by (simp add: lines_of_no_nl)
next
  case (Cons ch input)
  show ?case
  proof (cases "ch = nl")
    case False
    with Cons.prems have "nl \<notin> set (p @ [ch])" by simp
    from Cons.IH [OF this] False show ?thesis
      by (cases "ch = CHR 0x0D"; cases "length (line (serial_of p)) < 31") (simp_all add: serial_of_snoc)
  next
    case True
    let ?cmd = "filter (\<lambda>ch. ch \<noteq> CHR 0x0D) p"
    obtain o1 c1 w1 where h: "(if 31 < length ?cmd then ('''', c, w)
        else handle_command B (c_str ?cmd) c w) = (o1, c1, w1)"
      by (metis prod_cases3)
    have "(if overflow (serial_of p) then ('''', c, w)
        else handle_command B (c_str (line (serial_of p))) c w) = (o1, c1, w1)"
      using h by (cases "31 < length ?cmd") (simp_all add: serial_of_def Let_def)
    with True h Cons.IH [of "''''" c1 w1] Cons.prems show ?thesis
      by (simp add: lines_of_line serial_of_Nil split: prod.splits)
  qed
qed

lemma poll_calls_pending:
  "nl \<notin> set p \<Longrightarrow> poll_calls B calls (serial_of p) c w =
     (case line_calls B calls p c w of (outs, rest, c', w') \<Rightarrow> (outs, serial_of rest, c', w'))"
proof (induction calls arbitrary: p c w)
  case Nil
  then show ?case by simp
next
  case (Cons call calls)
  obtain input f where call: "call = (input, f)" by fastforce
  obtain ls rest where l: "lines_of (p @ input) = (ls, rest)" by fastforce
  show ?case
    by (simp add: call l poll_pending [OF Cons.prems] Cons.IH [OF lines_of_rest [OF l]] split: prod.splits)
qed

lemma line_calls_concat:
  assumes "nl \<notin> set p" and "line_calls B (map (\<lambda>input. (input, \<lambda>x. x)) inputs) p c w = (outs, rest, c', w')"
  shows "\<exists>ls. lines_of (p @ concat inputs) = (ls, rest) \<and> run_lines B ls c w = (concat outs, c', w')"
  using assms
proof (induction inputs arbitrary: p c w outs)
  case Nil
  then show ?case by (simp add: lines_of_no_nl)
next
  case (Cons input inputs)
  obtain ls1 rest1 where l: "lines_of (p @ input) = (ls1, rest1)" by fastforce
  obtain o1 c1 w1 where r: "run_lines B ls1 c w = (o1, c1, w1)" by (metis prod_cases3)
  obtain outs1 where "line_calls B (map (\<lambda>input. (input, \<lambda>x. x)) inputs) rest1 c1 w1 = (outs1, rest, c', w')"
    and outs: "outs = o1 # outs1"
    using Cons.prems(2) l r by (auto split: prod.splits)
  from Cons.IH [OF lines_of_rest [OF l] this(1)] obtain ls where
    "lines_of (rest1 @ concat inputs) = (ls, rest)" "run_lines B ls c1 w1 = (concat outs1, c', w')" by blast
  with l r outs show ?case
    using lines_of_append [of "p @ input" "concat inputs"] by (simp add: run_lines_append)
qed

lemma poll_lines:
  assumes "\<forall>l \<in> set ls. nl \<notin> set l"
  shows "clock_poll_serial B (concat (map (\<lambda>l. l @ [nl]) ls)) serial_init c w =
     (case run_lines B ls c w of (out, c', w') \<Rightarrow> (out, serial_init, c', w'))"
  using poll_pending [of "''''" B "concat (map (\<lambda>l. l @ [nl]) ls)" c w]
  by (simp add: serial_of_Nil lines_of_lines [OF assms])

section \<open>A concrete board\<close>

text \<open>
  A DS3231 that keeps the seconds it was given and an NVS partition with the two keys, to run
  closed instances on: time stands still unless a command moves it.
\<close>

record hw =
  hw_present :: bool
  hw_rtc :: u32
  hw_osf :: bool
  hw_provisioned :: bool
  hw_mark :: u32

definition sample_board :: "hw board" where
  "sample_board =
     \<lparr>build_epoch = 1700000000,
      rtc_begin = (\<lambda>w. (hw_present w, w)), rtc_lost_power = (\<lambda>w. (hw_osf w, w)),
      rtc_now = (\<lambda>w. (hw_rtc w, w)),
      rtc_adjust = (\<lambda>t w. w\<lparr>hw_rtc := t, hw_osf := False\<rparr>),
      rtc_quiet = (\<lambda>w. w), rtc_temperature = (\<lambda>w. (''23.50'', w)),
      prefs_begin = (\<lambda>w. w), prefs_provisioned = (\<lambda>w. (hw_provisioned w, w)),
      prefs_set_provisioned = (\<lambda>w. w\<lparr>hw_provisioned := True\<rparr>),
      prefs_last_seen = (\<lambda>w. (hw_mark w, w)),
      prefs_set_last_seen = (\<lambda>t w. w\<lparr>hw_mark := t\<rparr>)\<rparr>"

lemma sample_board_sel [simp]:
  "build_epoch sample_board = 1700000000" "rtc_begin sample_board w = (hw_present w, w)"
  "rtc_lost_power sample_board w = (hw_osf w, w)" "rtc_now sample_board w = (hw_rtc w, w)"
  "rtc_adjust sample_board t w = w\<lparr>hw_rtc := t, hw_osf := False\<rparr>" "rtc_quiet sample_board w = w"
  "rtc_temperature sample_board w = (''23.50'', w)" "prefs_begin sample_board w = w"
  "prefs_provisioned sample_board w = (hw_provisioned w, w)"
  "prefs_set_provisioned sample_board w = w\<lparr>hw_provisioned := True\<rparr>"
  "prefs_last_seen sample_board w = (hw_mark w, w)"
  "prefs_set_last_seen sample_board t w = w\<lparr>hw_mark := t\<rparr>"
  by (simp_all add: sample_board_def)

interpretation bench: board_nvs sample_board hw_mark
  by unfold_locales auto

text \<open>A keychain that was set up and is trusted, with the time just set.\<close>

definition sample_hw :: hw where
  "sample_hw = \<lparr>hw_present = True, hw_rtc = 1800000000, hw_osf = False, hw_provisioned = True,
     hw_mark = 1800000000\<rparr>"

definition trusted_clock :: clock where
  "trusted_clock = \<lparr>state = Ok, last_seen = 1800000000\<rparr>"

lemmas clock_eval = apply_time_def evaluate_def set_high_water_def MAX_NUDGE_SECONDS_def
  sample_hw_def trusted_clock_def HIGH_WATER_INTERVAL_def

text \<open>The commands that walk a clock forward, one nudge at a time, from the time \<open>t\<close>.\<close>

fun nudges :: "nat \<Rightarrow> nat \<Rightarrow> string list" where
  "nudges t 0 = []"
| "nudges t (Suc n) = (''T '' @ nat_to_string (t + 300)) # nudges (t + 300) n"

definition clock_at :: "nat \<Rightarrow> clock" where
  "clock_at t = \<lparr>state = Ok, last_seen = word_of_nat t\<rparr>"

definition hw_at :: "nat \<Rightarrow> hw" where
  "hw_at t = sample_hw\<lparr>hw_rtc := word_of_nat t, hw_mark := word_of_nat t\<rparr>"

lemma unat_u32_of_nat: "n < 2 ^ 32 \<Longrightarrow> unat (word_of_nat n :: u32) = n"
  by (simp add: unat_of_nat)

lemma nudge_digits: "c \<in> set (nat_to_string t) \<Longrightarrow> c \<noteq> nl \<and> c \<noteq> CHR 0x0D \<and> c \<noteq> CHR 0x00"
  by (auto dest!: nat_to_string_digits simp: is_digit_def)

lemma nudges_no_nl: "\<forall>l \<in> set (nudges t n). nl \<notin> set l"
  by (induction t n rule: nudges.induct) (auto dest: nudge_digits)

lemma apply_nudge:
  assumes "1700000000 \<le> t" and "t + 300 \<le> 4102444800"
  shows "apply_time sample_board (word_of_nat (t + 300)) (clock_at t) (hw_at t) =
    (True, clock_at (t + 300), hw_at (t + 300))"
proof -
  have u: "unat (word_of_nat t :: u32) = t" "unat (word_of_nat (t + 300) :: u32) = t + 300"
    using assms by (simp_all add: unat_u32_of_nat del: of_nat_add)
  have less: "(word_of_nat t :: u32) < word_of_nat (t + 300)"
    "\<not> (word_of_nat (t + 300) :: u32) < 1700000000"
    using assms u by (simp_all add: word_less_nat_alt del: of_nat_add)
  have near: "uint (word_of_nat (t + 300) :: u32) - uint (word_of_nat t :: u32) = 300"
    using u by (simp add: uint_nat del: of_nat_add)
  then show ?thesis
    using less
    by (simp add: apply_time_def clock_at_def hw_at_def Let_def MAX_NUDGE_SECONDS_def set_high_water_def
        evaluate_def sample_hw_def del: of_nat_add)
qed

lemma run_nudges:
  "1700000000 \<le> t \<Longrightarrow> t + 300 * n \<le> 4102444800 \<Longrightarrow>
   \<exists>out. run_lines sample_board (nudges t n) (clock_at t) (hw_at t) =
     (out, clock_at (t + 300 * n), hw_at (t + 300 * n))"
proof (induction n arbitrary: t)
  case 0
  then show ?case by simp
next
  case (Suc n)
  let ?ds = "nat_to_string (t + 300)"
  let ?cmd = "''T '' @ ?ds"
  have "length ?ds \<le> 10" using Suc.prems by (intro length_nat_to_string_le) simp_all
  then have len: "\<not> 31 < length ?cmd" by simp
  have cmd: "filter (\<lambda>ch. ch \<noteq> CHR 0x0D) ?cmd = ?cmd" "c_str ?cmd = ?cmd"
    using nudge_digits [of _ "t + 300"] by (auto simp: filter_id_conv intro!: c_str_id dest: nudge_digits)
  have "?ds \<noteq> []" by (simp add: nat_to_string.simps [of "t + 300"])
  then have epoch: "set_epoch ?cmd = Some (t + 300)"
    using Suc.prems nat_to_string_digits [of _ "t + 300"] by (simp add: set_epoch_def list_all_iff)
  have "\<exists>o1. report sample_board ''SET'' (clock_at (t + 300)) (hw_at (t + 300)) = (o1, hw_at (t + 300))"
    by (simp add: report_def clock_at_def)
  then obtain o1 where rep: "report sample_board ''SET'' (clock_at (t + 300)) (hw_at (t + 300)) =
      (o1, hw_at (t + 300))" by blast
  have ap: "apply_time sample_board (word_of_nat (t + 300)) (clock_at t) (hw_at t) =
      (True, clock_at (t + 300), hw_at (t + 300))"
    by (rule apply_nudge) (use Suc.prems in simp_all)
  have "?cmd \<noteq> ''?''" by simp
  then have "handle_command sample_board ?cmd (clock_at t) (hw_at t) =
      (o1, clock_at (t + 300), hw_at (t + 300))"
    by (simp only: handle_command_eq epoch ap rep if_False option.case prod.case bool.case Let_def)
  moreover obtain o2 where "run_lines sample_board (nudges (t + 300) n) (clock_at (t + 300)) (hw_at (t + 300)) =
      (o2, clock_at (t + 300 * Suc n), hw_at (t + 300 * Suc n))"
    using Suc.IH [of "t + 300"] Suc.prems by (auto simp: add.assoc)
  ultimately show ?case using len by (simp only: nudges.simps run_lines.simps Let_def cmd) simp
qed

section \<open>Properties\<close>

text \<open>
  C20. What a successful set guarantees: the RTC was found at boot, the new time is not before
  the firmware was built and at most 300 seconds before the high-water mark, a trusted clock
  moved by at most 300 seconds, the clock is trusted now, and the mark is the later of the two.
\<close>

theorem apply_time_guarded:
  assumes "apply_time B epoch c w = (True, c', w')"
  shows "state c \<noteq> No_rtc \<and> build_epoch B \<le> epoch \<and> uint (last_seen c) - 300 \<le> uint epoch \<and>
    (state c = Ok \<longrightarrow> \<bar>uint epoch - uint (fst (rtc_now B w))\<bar> \<le> 300) \<and>
    state c' = Ok \<and> last_seen c' = max (last_seen c) epoch"
  using assms
  by (auto simp: apply_time_def Let_def set_high_water_def MAX_NUDGE_SECONDS_def max_def not_le not_less
      split: prod.splits if_splits)

theorem apply_time_guarded_witness:
  "last_seen (fst (snd (apply_time sample_board 1800000200 trusted_clock sample_hw))) = 1800000200"
proof -
  have e: "apply_time sample_board 1800000200 trusted_clock sample_hw =
      (True, trusted_clock\<lparr>last_seen := 1800000200\<rparr>,
       sample_hw\<lparr>hw_rtc := 1800000200, hw_mark := 1800000200\<rparr>)"
    by (simp add: clock_eval)
  from apply_time_guarded [OF e] have "last_seen (trusted_clock\<lparr>last_seen := 1800000200\<rparr>) = 1800000200"
    by (simp add: trusted_clock_def)
  then show ?thesis by (simp only: e fst_conv snd_conv)
qed

text \<open>
  The serial protocol accepts exactly \<open>T\<close>, a space and decimal digits up to 4102444800 as
  a time, with no sign, no further space and no wrap-around of a number that is too large, and
  only such a command reaches the clock; \<open>?\<close> reports, and everything else is refused and
  changes nothing at all.
\<close>

theorem serial_protocol:
  "handle_command B cmd c w =
     (if cmd = ''?'' then (let (out, w1) = report B ''NOW'' c w in (out, c, w1))
      else case set_epoch cmd of
        Some n \<Rightarrow>
          (case apply_time B (word_of_nat n) c w of
             (False, c1, w1) \<Rightarrow> (''ERR rejected'' @ crlf, c1, w1)
           | (True, c1, w1) \<Rightarrow> (let (out, w2) = report B ''SET'' c1 w1 in (out, c1, w2)))
      | None \<Rightarrow>
          ((if take 2 cmd = ''T '' then ''ERR rejected'' else ''ERR unknown'') @ crlf, c, w))"
  by (rule handle_command_eq)

text \<open>
  C24. The line buffer is transparent. However a stream is spread over the calls of \<open>loop\<close>, a line
  split anywhere, and whatever happens to the clock and the world between them, each call runs
  exactly the lines that end in it, one command after the other, and the buffer holds nothing but the
  unfinished one. So a stream of whole lines has, in whatever pieces it arrives, the effect of its
  commands one after the other. A line of more than 31 characters is dropped whole, never cut to a
  prefix that would be a command.
\<close>

theorem serial_stream_lines:
  "poll_calls B calls serial_init c w =
     (case line_calls B calls '''' c w of (outs, rest, c', w') \<Rightarrow> (outs, serial_of rest, c', w')) \<and>
   ((\<forall>l \<in> set ls. nl \<notin> set l) \<longrightarrow> concat inputs = concat (map (\<lambda>l. l @ [nl]) ls) \<longrightarrow>
     (case poll_calls B (map (\<lambda>input. (input, \<lambda>x. x)) inputs) serial_init c w of
        (outs, s, c', w') \<Rightarrow> s = serial_init \<and> run_lines B ls c w = (concat outs, c', w')))"
proof -
  have calls: "poll_calls B calls serial_init c w =
     (case line_calls B calls '''' c w of (outs, rest, c', w') \<Rightarrow> (outs, serial_of rest, c', w'))" for calls
    using poll_calls_pending [of "''''" B calls c w] by (simp add: serial_of_Nil)
  obtain outs rest c' w' where l: "line_calls B (map (\<lambda>input. (input, \<lambda>x. x)) inputs) '''' c w = (outs, rest, c', w')"
    by (metis prod_cases4)
  have "rest = '''' \<and> run_lines B ls c w = (concat outs, c', w')"
    if "\<forall>l \<in> set ls. nl \<notin> set l" "concat inputs = concat (map (\<lambda>l. l @ [nl]) ls)"
    using line_calls_concat [OF _ l] lines_of_lines [OF that(1)] that(2) by simp
  then show ?thesis
    using calls [of calls] calls [of "map (\<lambda>input. (input, \<lambda>x. x)) inputs"] l by (auto simp: serial_of_Nil)
qed

theorem serial_stream_lines_witness:
  "\<exists>outs. poll_calls sample_board (map (\<lambda>input. (input, \<lambda>x. x)) [''T 18000'', ''00100'' @ [nl] @ ''x'', [nl]])
     serial_init trusted_clock sample_hw =
     (outs, serial_init, trusted_clock\<lparr>last_seen := 1800000100\<rparr>,
      sample_hw\<lparr>hw_rtc := 1800000100, hw_mark := 1800000100\<rparr>)"
proof -
  let ?i = "[''T 18000'', ''00100'' @ [nl] @ ''x'', [nl]]"
  have n: "set_epoch ''T 1800000100'' = Some 1800000100"
    by (simp add: set_epoch_def dec_value_def digit_value_def is_digit_def)
  have x: "set_epoch ''x'' = None" by (simp add: set_epoch_def)
  have a: "apply_time sample_board 1800000100 trusted_clock sample_hw =
      (True, trusted_clock\<lparr>last_seen := 1800000100\<rparr>, sample_hw\<lparr>hw_rtc := 1800000100, hw_mark := 1800000100\<rparr>)"
    by (simp add: clock_eval)
  obtain outs s c w where calls: "poll_calls sample_board (map (\<lambda>input. (input, \<lambda>x. x)) ?i) serial_init
      trusted_clock sample_hw = (outs, s, c, w)"
    by (metis prod_cases4)
  have "s = serial_init \<and> run_lines sample_board [''T 1800000100'', ''x''] trusted_clock sample_hw = (concat outs, c, w)"
    using mp [OF mp [OF conjunct2 [OF serial_stream_lines
      [where B = sample_board and ls = "[''T 1800000100'', ''x'']" and inputs = ?i and c = trusted_clock and w = sample_hw]]]]
      calls by simp
  then have "s = serial_init" "c = trusted_clock\<lparr>last_seen := 1800000100\<rparr>"
    "w = sample_hw\<lparr>hw_rtc := 1800000100, hw_mark := 1800000100\<rparr>"
    using n x a by (auto simp: handle_command_eq c_str_def report_def Let_def trusted_clock_def sample_hw_def)
  with calls show ?thesis by blast
qed

text \<open>
  A nudge is bounded, a sequence of nudges is not: commands that are accepted one after the
  other move a trusted clock forward by 300 seconds each, up to the year 2100, although the
  comment on \<open>MAX_NUDGE_SECONDS\<close> says that it keeps future codes from being read.
\<close>

theorem nudges_compound:
  assumes "1800000000 + 300 * n \<le> 4102444800"
  shows "\<exists>out c w. clock_poll_serial sample_board
      (concat (map (\<lambda>l. l @ [nl]) (nudges 1800000000 n))) serial_init trusted_clock sample_hw =
      (out, serial_init, c, w) \<and>
    state c = Ok \<and> unat (hw_rtc w) = unat (hw_rtc sample_hw) + 300 * n"
proof -
  have "trusted_clock = clock_at 1800000000" "sample_hw = hw_at 1800000000"
    by (simp_all add: trusted_clock_def clock_at_def hw_at_def sample_hw_def)
  moreover obtain out where "run_lines sample_board (nudges 1800000000 n) (clock_at 1800000000)
      (hw_at 1800000000) = (out, clock_at (1800000000 + 300 * n), hw_at (1800000000 + 300 * n))"
    using run_nudges [of 1800000000 n] assms by auto
  moreover have "unat (word_of_nat (1800000000 + 300 * n) :: u32) = 1800000000 + 300 * n"
    using assms by (intro unat_u32_of_nat) simp
  ultimately show ?thesis
    using poll_lines [OF nudges_no_nl, of sample_board "1800000000" n "clock_at 1800000000"]
    by (simp add: clock_at_def hw_at_def sample_hw_def)
qed

theorem nudges_compound_witness:
  "\<exists>out c w. clock_poll_serial sample_board
      (concat (map (\<lambda>l. l @ [nl]) (nudges 1800000000 2016))) serial_init trusted_clock sample_hw =
      (out, serial_init, c, w) \<and> unat (hw_rtc w) = unat (hw_rtc sample_hw) + 7 * 24 * 3600"
  using nudges_compound [of 2016] by auto

text \<open>
  A time that is refused may have been set all the same: after a small step back the reply
  is \<open>ERR rejected\<close> and the clock is no longer trusted, but the RTC already has the new time.
\<close>

theorem rejected_time_still_set:
  "\<exists>c w. handle_command sample_board ''T 1799999900'' trusted_clock sample_hw =
      (''ERR rejected'' @ crlf, c, w) \<and>
    state c = Went_backwards \<and> hw_rtc w = 1799999900 \<and> hw_rtc sample_hw = 1800000000"
proof -
  have n: "set_epoch ''T 1799999900'' = Some 1799999900"
    by (simp add: set_epoch_def dec_value_def digit_value_def is_digit_def)
  have "apply_time sample_board 1799999900 trusted_clock sample_hw =
      (False, trusted_clock\<lparr>state := Went_backwards\<rparr>, sample_hw\<lparr>hw_rtc := 1799999900\<rparr>)"
    by (simp add: clock_eval)
  with n show ?thesis by (simp add: handle_command_eq trusted_clock_def sample_hw_def)
qed

end
