(* ===== verification/Fw_Display.thy ===== *)
theory Fw_Display
  imports Prelude
begin

text \<open>
  The keychain's screen, \<open>firmware/xAuth_ID/src/display.cpp\<close> and \<open>include/display.hpp\<close>. What
  the functions draw is the sequence of their calls on the panel object, whose library
  (Adafruit's GFX and SSD1306) is not part of the repository. A call is one \<open>draw_op\<close>, with the
  arguments the code passes; \<open>Flush\<close> is \<open>display.display()\<close>.
\<close>

datatype draw_op =
    Clear | Text_color bool | Text_size int | Cursor int int | Print string | Println string
  | Fill_rect int int int int | Draw_rect int int int int | Pixel int int
  | Draw_line int int int int | Circle int int int | Fill_circle int int int | Flush

definition SCREEN_WIDTH :: int where "SCREEN_WIDTH = 128"
definition SCREEN_HEIGHT :: int where "SCREEN_HEIGHT = 32"

definition WHITE :: bool where "WHITE = True"
definition BLACK :: bool where "BLACK = False"

section \<open>The code\<close>

definition time_left_lines :: "u32 \<Rightarrow> u32 \<Rightarrow> int" where
  "time_left_lines seconds_left step_seconds =
     (let left = (if step_seconds < seconds_left then step_seconds else seconds_left);
          lines = sint ((left * 4 + step_seconds - 1) div step_seconds)
      in if lines < 1 then 1 else lines)"

text \<open>A step of 0 seconds is a division by zero.\<close>

definition draw_time_left :: "u32 \<Rightarrow> u32 \<Rightarrow> draw_op list cxx" where
  "draw_time_left seconds_left step_seconds =
     (if step_seconds = 0 then Inl Undefined_behaviour
      else let
        lines = time_left_lines seconds_left step_seconds;
        w = 18; thick = 2; gap = 2;
        x = SCREEN_WIDTH - w;
        bottom = SCREEN_HEIGHT - 1;
        rects = map (\<lambda>i. Fill_rect x (bottom - thick + 1 - int i * (thick + gap)) w thick)
                    [0..<nat lines]
      in Inr (rects @
           (if lines = 1
            then [Text_size 1, Cursor (x - 5 * 6 - 4) (SCREEN_HEIGHT - 8), Print ''wait'']
            else [])))"

text \<open>
  \<open>code\<close> is read at the indices 0 to 7; the string's terminator may be one of them, anything
  behind it is out of bounds. Printing stops at a NUL.
\<close>

definition display_show_code :: "string \<Rightarrow> string \<Rightarrow> u32 \<Rightarrow> u32 \<Rightarrow> draw_op list cxx" where
  "display_show_code code ident seconds_left step_seconds =
     (if length code < 7 then Inl Undefined_behaviour
      else let chars = code @ [CHR 0x00];
               grouped = take 4 chars @ '' '' @ take 4 (drop 4 chars)
      in bind_cxx (draw_time_left seconds_left step_seconds) (\<lambda>left.
           Inr ([Clear, Text_color WHITE, Text_size 2,
                 Cursor ((SCREEN_WIDTH - 9 * 12) div 2) 0, Print (c_str grouped),
                 Text_size 1, Cursor 0 (SCREEN_HEIGHT - 8), Print ident] @ left @ [Flush])))"

definition display_status :: "string \<Rightarrow> string \<Rightarrow> draw_op list" where
  "display_status txt ident =
     (let w = int (length txt) * 12
      in [Clear, Text_color WHITE, Text_size 2,
          Cursor (if w < SCREEN_WIDTH then (SCREEN_WIDTH - w) div 2 else 0) 0, Print txt,
          Text_size 1, Cursor 0 (SCREEN_HEIGHT - 8), Print ident, Flush])"

definition display_message :: "string \<Rightarrow> draw_op list" where
  "display_message txt = [Clear, Text_size 1, Text_color WHITE, Cursor 0 12, Print txt, Flush]"

definition display_ln :: "draw_op list" where
  "display_ln = [Print [nl], Flush]"

section \<open>Bench demos\<close>

definition demoBorder :: "draw_op list" where
  "demoBorder =
     [Clear, Draw_rect 0 0 SCREEN_WIDTH SCREEN_HEIGHT, Pixel 0 0, Pixel (SCREEN_WIDTH - 1) 0,
      Pixel 0 (SCREEN_HEIGHT - 1), Pixel (SCREEN_WIDTH - 1) (SCREEN_HEIGHT - 1),
      Text_size 1, Cursor 4 12,
      Print (nat_to_string (nat SCREEN_WIDTH)), Print ''x'', Print (nat_to_string (nat SCREEN_HEIGHT)),
      Flush]"

definition demoTextSize1 :: "draw_op list" where
  "demoTextSize1 =
     [Clear, Text_size 1, Text_color WHITE] @
     concat (map (\<lambda>l. [Cursor 0 (int l * 8), Print ''Line '', Print (nat_to_string l),
                       Print '' 12345678901234567890'']) [0..<4]) @ [Flush]"

definition demoTextSize2 :: "draw_op list" where
  "demoTextSize2 =
     [Clear, Text_size 2, Text_color WHITE, Cursor 0 0, Println ''BIG1'', Cursor 0 16,
      Println ''BIG2'', Flush]"

definition demoShapes :: "draw_op list" where
  "demoShapes =
     [Clear, Draw_line 0 0 (SCREEN_WIDTH - 1) (SCREEN_HEIGHT - 1),
      Draw_line 0 (SCREEN_HEIGHT - 1) (SCREEN_WIDTH - 1) 0,
      Circle (SCREEN_WIDTH div 2) (SCREEN_HEIGHT div 2) 15, Fill_rect 0 0 20 20,
      Fill_circle (SCREEN_WIDTH - 10) (SCREEN_HEIGHT - 10) 8, Flush]"

definition demoInvert :: "draw_op list" where
  "demoInvert =
     [Clear, Fill_rect 0 0 SCREEN_WIDTH SCREEN_HEIGHT, Text_size 2, Text_color BLACK, Cursor 10 8,
      Print ''INVERT'', Flush]"

text \<open>Arduino's \<open>random(n)\<close> is a parameter: the value of each call, and the next state.\<close>

fun noise :: "(int \<Rightarrow> 'r \<Rightarrow> int \<times> 'r) \<Rightarrow> nat \<Rightarrow> 'r \<Rightarrow> draw_op list \<times> 'r" where
  "noise random 0 r = ([], r)"
| "noise random (Suc n) r =
     (let (x, r1) = random SCREEN_WIDTH r;
          (y, r2) = random SCREEN_HEIGHT r1;
          (ops, r3) = noise random n r2
      in (Pixel x y # ops, r3))"

definition demoRandomNoise :: "(int \<Rightarrow> 'r \<Rightarrow> int \<times> 'r) \<Rightarrow> 'r \<Rightarrow> draw_op list \<times> 'r" where
  "demoRandomNoise random r =
     (let (ops, r') = noise random 300 r in (Clear # ops @ [Flush], r'))"

definition emin :: "draw_op list" where
  "emin =
     [Clear, Text_size 2, Text_color WHITE, Cursor 0 0, Println ''olala'', Flush]"

definition emin2 :: "draw_op list" where
  "emin2 =
     [Clear, Text_size 2, Text_color WHITE, Cursor 0 0, Println ''Jea'', Flush]"

section \<open>The panel\<close>

text \<open>Which shapes lie on the panel. Text is looked at separately.\<close>

definition on_panel :: "int \<Rightarrow> int \<Rightarrow> bool" where
  "on_panel x y \<longleftrightarrow> 0 \<le> x \<and> x < SCREEN_WIDTH \<and> 0 \<le> y \<and> y < SCREEN_HEIGHT"

fun op_on_panel :: "draw_op \<Rightarrow> bool" where
  "op_on_panel (Fill_rect x y w h) = (0 < w \<and> 0 < h \<and> on_panel x y \<and> on_panel (x + w - 1) (y + h - 1))"
| "op_on_panel (Draw_rect x y w h) = (0 < w \<and> 0 < h \<and> on_panel x y \<and> on_panel (x + w - 1) (y + h - 1))"
| "op_on_panel (Pixel x y) = on_panel x y"
| "op_on_panel (Draw_line x0 y0 x1 y1) = (on_panel x0 y0 \<and> on_panel x1 y1)"
| "op_on_panel (Circle x y r) = (on_panel (x - r) (y - r) \<and> on_panel (x + r) (y + r))"
| "op_on_panel (Fill_circle x y r) = (on_panel (x - r) (y - r) \<and> on_panel (x + r) (y + r))"
| "op_on_panel (Cursor x y) = on_panel x y"
| "op_on_panel _ = True"

text \<open>The cell of one character at text size \<open>n\<close> is \<open>6 n\<close> by \<open>8 n\<close> pixels.\<close>

definition text_fits :: "int \<Rightarrow> int \<Rightarrow> string \<Rightarrow> bool" where
  "text_fits n x txt \<longleftrightarrow> 0 \<le> x \<and> x + int (length txt) * (6 * n) \<le> SCREEN_WIDTH"

lemma time_left_lines_90:
  "time_left_lines left 90 = int (max 1 ((4 * min (unat left) 90 + 89) div 90))"
proof -
  define l where "l = (if 90 < left then 90 else left)"
  have l: "unat l = min (unat left) 90" by (simp add: l_def word_less_nat_alt)
  have "unat (l * 4 + 90 - 1) = 4 * unat l + 89"
  proof -
    have "l * 4 + 90 - 1 = l * 4 + 89" by simp
    moreover have "unat (l * 4 + 89) = unat l * 4 + 89"
      using l by (simp add: unat_word_ariths)
    ultimately show ?thesis by (simp add: add.commute mult.commute)
  qed
  then have u: "unat ((l * 4 + 90 - 1) div 90) = (4 * unat l + 89) div 90"
    by (simp add: unat_div)
  have "(4 * unat l + 89) div 90 \<le> (4 * 90 + 89) div 90" using l by (intro div_le_mono) simp
  then have small: "(4 * unat l + 89) div 90 \<le> 4" by simp
  let ?q = "(l * 4 + 90 - 1) div 90"
  have "uint ?q = int ((4 * unat l + 89) div 90)" by (simp only: u [symmetric] uint_nat)
  then have "sint ?q = int ((4 * unat l + 89) div 90)"
    using small by (simp add: sint_uint signed_take_bit_int_eq_self)
  then show ?thesis by (simp add: time_left_lines_def Let_def flip: l_def l)
qed

section \<open>Properties\<close>

text \<open>
  The icon counts down the window: it always has one to four lines, the quarter of the 90
  seconds that is left, rounded up, and the word \<open>wait\<close> appears in the last 22 seconds and
  only then. Every rectangle of it lies on the panel, and a step of 90 never divides by zero.
\<close>

theorem time_left_icon:
  assumes "1 \<le> unat left" and "unat left \<le> 90"
  shows "\<exists>ops. draw_time_left left 90 = Inr ops \<and>
    length (filter (\<lambda>op. \<exists>x y w h. op = Fill_rect x y w h) ops) = (4 * unat left + 89) div 90 \<and>
    1 \<le> (4 * unat left + 89) div 90 \<and> (4 * unat left + 89) div 90 \<le> 4 \<and>
    (Print ''wait'' \<in> set ops \<longleftrightarrow> unat left \<le> 22) \<and> list_all op_on_panel ops"
proof -
  define n where "n = (4 * unat left + 89) div 90"
  have n: "1 \<le> n" "n \<le> 4" "n = 1 \<longleftrightarrow> unat left \<le> 22"
    using assms by (simp_all add: n_def) linarith+
  have lines: "time_left_lines left 90 = int n"
    using n assms by (simp add: time_left_lines_90 n_def)
  from n(1,2) consider "n = 1" | "n = 2" | "n = 3" | "n = 4" by linarith
  then show ?thesis
    unfolding n_def [symmetric] n(3) [symmetric]
    by cases (simp_all add: draw_time_left_def lines SCREEN_WIDTH_def SCREEN_HEIGHT_def
        on_panel_def Let_def upt_rec)
qed

theorem time_left_icon_witness:
  "\<exists>ops. draw_time_left 23 90 = Inr ops \<and> Print ''wait'' \<notin> set ops"
  using time_left_icon [of 23] by auto

text \<open>
  The code screen never runs over the edge: for an eight-character code and an identifier of
  up to eight characters everything is drawn, the code in two groups of four with a space
  between, and each text lies within the panel's width.
\<close>

theorem show_code_layout:
  assumes "length code = 8" and "CHR 0x00 \<notin> set code" and "length ident \<le> 8" and "step \<noteq> 0"
  shows "\<exists>left. draw_time_left seconds step = Inr left \<and>
    display_show_code code ident seconds step =
      Inr ([Clear, Text_color WHITE, Text_size 2, Cursor 10 0, Print (take 4 code @ '' '' @ drop 4 code),
            Text_size 1, Cursor 0 24, Print ident] @ left @ [Flush]) \<and>
    text_fits 2 10 (take 4 code @ '' '' @ drop 4 code) \<and> text_fits 1 0 ident"
proof -
  have "CHR 0x00 \<notin> set (take 4 code @ '' '' @ drop 4 code)"
    using assms(2) by (auto dest: in_set_takeD in_set_dropD)
  then have "c_str (take 4 code @ '' '' @ drop 4 code) = take 4 code @ '' '' @ drop 4 code"
    by (rule c_str_id)
  with assms show ?thesis
    by (simp add: display_show_code_def draw_time_left_def Let_def text_fits_def SCREEN_WIDTH_def
        SCREEN_HEIGHT_def)
qed

theorem show_code_layout_witness:
  "text_fits 2 10 (take 4 ''01234567'' @ '' '' @ drop 4 ''01234567'')"
  using show_code_layout [of "''01234567''" "''7Q5V''" 90 90] by auto

end
