(* ===== verification/Fw_Main.thy ===== *)
theory Fw_Main
  imports Fw_Totp Fw_Clock Fw_Display
begin

text \<open>
  The keychain as a whole, \<open>firmware/xAuth_ID/src/main.cpp\<close>: \<open>setup\<close>, \<open>loop\<close> and the
  history of a device over many power cycles.

  \<open>key\<close> and \<open>ident\<close> are the macros \<open>SECURE_KEY\<close> and \<open>DEVICE_ID\<close> of the generated header.
  The input of one \<open>loop\<close> is what \<open>Serial\<close> has received by then.
\<close>

section \<open>The code\<close>

record 'w keychain =
  clk :: clock
  ser :: serial
  last_drawn :: u32
  last_state :: clock_state
  hw_state :: 'w

text \<open>
  \<open>setup\<close> after a reset, with the static variables as they start. \<open>None\<close> is the endless loop
  entered when the display does not answer.
\<close>

definition fw_setup :: "'w board \<Rightarrow> bool \<Rightarrow> 'w \<Rightarrow> (string \<times> 'w keychain) option" where
  "fw_setup B display_ok w =
     (if \<not> display_ok then None
      else let (c, w1) = clock_begin B clock_power_on w in
        Some (if state c \<noteq> Ok
              then ''clock not trusted: '' @ clock_state_text (state c) @
                   '' -- run `pio run -t rtc_set`'' @ [nl]
              else '''',
              \<lparr>clk = c, ser = serial_init, last_drawn = 0, last_state = No_rtc, hw_state = w1\<rparr>))"

text \<open>One call of \<open>loop\<close>: what it sends over serial, what it draws, and the next state.\<close>

definition fw_loop ::
    "'w board \<Rightarrow> mbed_hmac \<Rightarrow> time_conv \<Rightarrow> string \<Rightarrow> string \<Rightarrow> string \<Rightarrow> 'w keychain \<Rightarrow>
     (string \<times> draw_op list \<times> 'w keychain) cxx" where
  "fw_loop B M conv key ident input k =
     (let (out, ser1, c1, w1) = clock_poll_serial B input (ser k) (clk k) (hw_state k);
          (now, c2, w2) = (if state c1 = No_rtc then (0, c1, w1) else clock_now B c1 w1);
          s = state c2;
          k1 = k\<lparr>clk := c2, ser := ser1, hw_state := w2\<rparr>
      in if now \<noteq> last_drawn k \<or> s \<noteq> last_state k then
           bind_cxx
             (if s = Ok then
                bind_cxx (otp_now M key conv now) (\<lambda>code.
                  display_show_code (format_code code) ident (otp_seconds_left now) 90)
              else Inr (display_status (clock_state_text s) ident))
             (\<lambda>ops. Inr (out, ops, k1\<lparr>last_drawn := now, last_state := s\<rparr>))
         else Inr (out, [], k1))"

section \<open>A run of a keychain\<close>

text \<open>
  The history of one keychain with its owner, or a thief: power cycles, calls of \<open>loop\<close> with
  any serial input, and anything the world does to the hardware in between (time passes, the
  battery is pulled, the RTC is rewritten over its bus), as long as the stored mark survives.
  \<open>shown\<close> collects the times for which a code has been on the screen.
\<close>

record 'w history =
  chain :: "'w keychain"
  shown :: "u32 list"

definition factory_new :: "'w history \<Rightarrow> bool" where
  "factory_new h \<longleftrightarrow> shown h = [] \<and> state (clk (chain h)) = No_rtc"

inductive keychain_step ::
    "'w board \<Rightarrow> ('w \<Rightarrow> u32) \<Rightarrow> mbed_hmac \<Rightarrow> time_conv \<Rightarrow> string \<Rightarrow> string \<Rightarrow>
     'w history \<Rightarrow> 'w history \<Rightarrow> bool"
  for B mark M conv key ident where
  power_cycle: "fw_setup B display_ok (hw_state (chain h)) = Some (out, k) \<Longrightarrow>
    keychain_step B mark M conv key ident h (h\<lparr>chain := k\<rparr>)"
| looped: "fw_loop B M conv key ident input (chain h) = Inr (out, ops, k) \<Longrightarrow>
    keychain_step B mark M conv key ident h
      (h\<lparr>chain := k,
         shown := (if ops \<noteq> [] \<and> state (clk k) = Ok then last_drawn k # shown h else shown h)\<rparr>)"
| world: "mark w = mark (hw_state (chain h)) \<Longrightarrow>
    keychain_step B mark M conv key ident h (h\<lparr>chain := (chain h)\<lparr>hw_state := w\<rparr>\<rparr>)"

definition history_inv :: "('w \<Rightarrow> u32) \<Rightarrow> 'w history \<Rightarrow> bool" where
  "history_inv mark h \<longleftrightarrow>
     mark_synced mark (clk (chain h)) (hw_state (chain h)) \<and>
     (\<forall>t \<in> set (shown h). unat t \<le> unat (mark (hw_state (chain h))) + 21600)"

inductive_cases keychain_stepE: "keychain_step B mark M conv key ident h h'"

section \<open>One call of loop\<close>

lemma draw_time_left_total: "\<exists>ops. draw_time_left s 90 = Inr ops"
  by (simp add: draw_time_left_def Let_def)

lemma format_code_shape:
  assumes "same_hmac M H" and "otp_now M key conv now = Inr code"
  shows "length (format_code code) = 8" "CHR 0x00 \<notin> set (format_code code)"
proof -
  have c: "format_code code = code_string H (c_str key) (conv now div 90)"
    using otp_now_eq [OF assms(1), of key conv now] assms(2) by auto
  note w = code_string_wellformed [OF same_hmac_digest [OF assms(1)], of "c_str key" "conv now div 90"]
  show "length (format_code code) = 8" using w by (simp add: c)
  show "CHR 0x00 \<notin> set (format_code code)"
    using w(2) is_digit_special unfolding c all_digits_iff by blast
qed
text \<open>What a \<open>loop\<close> is made of: the poll, the reading, and a screen if anything changed.\<close>

lemma fw_loop_cases:
  assumes "fw_loop B M conv key ident input k = Inr (out, ops, k')"
  obtains ser1 c1 w1 now c2 w2 where
    "clock_poll_serial B input (ser k) (clk k) (hw_state k) = (out, ser1, c1, w1)"
    "(if state c1 = No_rtc then (0, c1, w1) else clock_now B c1 w1) = (now, c2, w2)"
    "clk k' = c2" "ser k' = ser1" "hw_state k' = w2"
    "ops = [] \<Longrightarrow> now = last_drawn k \<and> state c2 = last_state k \<and>
       last_drawn k' = last_drawn k \<and> last_state k' = last_state k"
    "ops \<noteq> [] \<Longrightarrow> last_drawn k' = now \<and> last_state k' = state c2"
    "ops \<noteq> [] \<Longrightarrow> now \<noteq> last_drawn k \<or> state c2 \<noteq> last_state k"
    "ops \<noteq> [] \<Longrightarrow> state c2 = Ok \<Longrightarrow> \<exists>code. otp_now M key conv now = Inr code \<and>
       display_show_code (format_code code) ident (otp_seconds_left now) 90 = Inr ops"
    "ops \<noteq> [] \<Longrightarrow> state c2 \<noteq> Ok \<Longrightarrow> ops = display_status (clock_state_text (state c2)) ident"
proof -
  obtain o1 ser1 c1 w1 where p: "clock_poll_serial B input (ser k) (clk k) (hw_state k) = (o1, ser1, c1, w1)"
    by (metis prod_cases4)
  obtain now c2 w2 where r: "(if state c1 = No_rtc then (0, c1, w1) else clock_now B c1 w1) = (now, c2, w2)"
    by (metis prod_cases3)
  have nonempty: "display_show_code a b c d = Inr x \<Longrightarrow> x \<noteq> []" for a b c d x
    by (auto simp: display_show_code_def Let_def bind_cxx_def split: if_splits sum.splits)
  have status: "display_status a b \<noteq> []" for a b by (simp add: display_status_def Let_def)
  let ?k1 = "k\<lparr>clk := c2, ser := ser1, hw_state := w2\<rparr>"
  show thesis
  proof (cases "now \<noteq> last_drawn k \<or> state c2 \<noteq> last_state k")
    case False
    with assms p r have "out = o1" "ops = []" "k' = ?k1" by (simp_all add: fw_loop_def Let_def)
    with p False show thesis by (intro that [of ser1 c1 w1 now c2 w2, OF _ r]) simp_all
  next
    case changed: True
    show thesis
    proof (cases "state c2 = Ok")
      case True
      with assms p r changed obtain code where
        "otp_now M key conv now = Inr code"
        "display_show_code (format_code code) ident (otp_seconds_left now) 90 = Inr ops"
        "out = o1" "k' = ?k1\<lparr>last_drawn := now, last_state := state c2\<rparr>"
        by (auto simp: fw_loop_def Let_def bind_cxx_eq_Inr)
      moreover from this(2) have "ops \<noteq> []" by (rule nonempty)
      ultimately show thesis using p True changed
        by (intro that [of ser1 c1 w1 now c2 w2, OF _ r]) auto
    next
      case False
      with assms p r changed have "out = o1" "ops = display_status (clock_state_text (state c2)) ident"
        "k' = ?k1\<lparr>last_drawn := now, last_state := state c2\<rparr>"
        by (simp_all add: fw_loop_def Let_def)
      moreover from this(2) status have "ops \<noteq> []" by metis
      ultimately show thesis using p False changed
        by (intro that [of ser1 c1 w1 now c2 w2, OF _ r]) simp_all
    qed
  qed
qed

lemma fw_loop_total:
  assumes "same_hmac M H"
  shows "\<exists>out ops k'. fw_loop B M conv key ident input k = Inr (out, ops, k')"
proof -
  obtain o1 ser1 c1 w1 where p: "clock_poll_serial B input (ser k) (clk k) (hw_state k) = (o1, ser1, c1, w1)"
    by (metis prod_cases4)
  obtain now c2 w2 where r: "(if state c1 = No_rtc then (0, c1, w1) else clock_now B c1 w1) = (now, c2, w2)"
    by (metis prod_cases3)
  obtain code where code: "otp_now M key conv now = Inr code" using otp_now_eq [OF assms] by metis
  obtain left where "draw_time_left (otp_seconds_left now) 90 = Inr left" using draw_time_left_total by blast
  then obtain ops where "display_show_code (format_code code) ident (otp_seconds_left now) 90 = Inr ops"
    using format_code_shape(1) [OF assms code] by (simp add: display_show_code_def Let_def)
  then show ?thesis using p r code by (auto simp: fw_loop_def Let_def)
qed

context board_nvs
begin

lemma fw_loop_mark:
  assumes "fw_loop B M conv key ident input k = Inr (out, ops, k')"
    and "mark_synced mark (clk k) (hw_state k)"
  shows "mark_synced mark (clk k') (hw_state k') \<and> mark (hw_state k) \<le> mark (hw_state k') \<and>
    (ops \<noteq> [] \<and> state (clk k') = Ok \<longrightarrow> mark (hw_state k) \<le> last_drawn k' \<and>
       unat (last_drawn k') \<le> unat (mark (hw_state k')) + 21600)"
  using assms(1)
proof (rule fw_loop_cases)
  fix ser1 c1 w1 now c2 w2
  assume p: "clock_poll_serial B input (ser k) (clk k) (hw_state k) = (out, ser1, c1, w1)"
    and r: "(if state c1 = No_rtc then (0, c1, w1) else clock_now B c1 w1) = (now, c2, w2)"
    and k': "clk k' = c2" "ser k' = ser1" "hw_state k' = w2"
    and drawn: "ops \<noteq> [] \<Longrightarrow> last_drawn k' = now \<and> last_state k' = state c2"
  note one = clock_poll_serial_mark [OF p assms(2)]
  show ?thesis
  proof (cases "state c1 = No_rtc")
    case True
    with r one k' show ?thesis by auto
  next
    case False
    with r have "clock_now B c1 w1 = (now, c2, w2)" by simp
    from clock_now_mark [OF this] one k' drawn show ?thesis by auto
  qed
qed

lemma fw_setup_mark:
  assumes "fw_setup B display_ok w = Some (out, k)"
  shows "mark_synced mark (clk k) (hw_state k) \<and> mark (hw_state k) = mark w"
proof -
  obtain c w1 where c: "clock_begin B clock_power_on w = (c, w1)" by fastforce
  with assms have "clk k = c" "hw_state k = w1" by (auto simp: fw_setup_def split: if_splits)
  with clock_begin_mark [OF c] show ?thesis by (simp add: mark_synced_def)
qed

lemma history_inv_step:
  assumes "history_inv mark h" and "keychain_step B mark M conv key ident h h'"
  shows "history_inv mark h'"
  using assms(2)
proof (rule keychain_stepE)
  fix display_ok out k
  assume "h' = h\<lparr>chain := k\<rparr>" and s: "fw_setup B display_ok (hw_state (chain h)) = Some (out, k)"
  with fw_setup_mark [OF s] assms(1) show ?thesis by (simp add: history_inv_def)
next
  fix input out ops k
  assume h': "h' = h\<lparr>chain := k, shown := if ops \<noteq> [] \<and> state (clk k) = Ok then last_drawn k # shown h
      else shown h\<rparr>"
    and l: "fw_loop B M conv key ident input (chain h) = Inr (out, ops, k)"
  have m: "mark_synced mark (clk (chain h)) (hw_state (chain h))" using assms(1) by (simp add: history_inv_def)
  note lm = fw_loop_mark [OF l m]
  then have "unat (mark (hw_state (chain h))) \<le> unat (mark (hw_state k))"
    by (simp add: word_le_nat_alt)
  then have "\<forall>t \<in> set (shown h). unat t \<le> unat (mark (hw_state k)) + 21600"
    using assms(1) by (fastforce simp: history_inv_def)
  with lm show ?thesis by (simp add: history_inv_def h')
next
  fix w
  assume "h' = h\<lparr>chain := (chain h)\<lparr>hw_state := w\<rparr>\<rparr>" "mark w = mark (hw_state (chain h))"
  with assms(1) show ?thesis by (simp add: history_inv_def mark_synced_def)
qed

end

sublocale board_nvs \<subseteq> run: invariant_system factory_new "keychain_step B mark M conv key ident"
  "history_inv mark" for M conv key ident
  by unfold_locales (simp add: factory_new_def history_inv_def mark_synced_def, rule history_inv_step)

context board_nvs
begin

lemma history_inv_reachable:
  "reachable factory_new (keychain_step B mark M conv key ident) h \<Longrightarrow> history_inv mark h"
  by (rule run.reachable_inv)

end

text \<open>A trusted keychain draws whenever it reads a new second.\<close>

lemma fw_loop_draws:
  assumes "same_hmac M H" and "clock_now B (clk k) (hw_state k) = (now, c2, w2)" and "state c2 = Ok"
    and "state (clk k) = Ok" and "now \<noteq> last_drawn k"
  shows "\<exists>ops. ops \<noteq> [] \<and> fw_loop B M conv key ident '''' k =
    Inr ('''', ops, k\<lparr>clk := c2, hw_state := w2, last_drawn := now, last_state := Ok\<rparr>)"
proof -
  obtain code where code: "otp_now M key conv now = Inr code" using otp_now_eq [OF assms(1)] by metis
  obtain left where "draw_time_left (otp_seconds_left now) 90 = Inr left" using draw_time_left_total by blast
  then obtain ops where "display_show_code (format_code code) ident (otp_seconds_left now) 90 = Inr ops"
      "ops \<noteq> []"
    using format_code_shape(1) [OF assms(1) code] by (simp add: display_show_code_def Let_def)
  with assms code show ?thesis
    by (intro exI [of _ ops]) (cases k, simp add: fw_loop_def Let_def)
qed

section \<open>A keychain without a clock\<close>

lemma no_rtc_stuck:
  assumes "state c = No_rtc"
  shows "handle_command B cmd c w = (out, c', w') \<Longrightarrow> c' = c"
    and "clock_poll_serial B input s c w = (out, s', c', w') \<Longrightarrow> c' = c"
proof -
  have cmd: "handle_command B cmd c w = (out, c', w') \<Longrightarrow> c' = c" for cmd w out c' w'
    using assms
    by (auto simp: handle_command_eq apply_time_def Let_def split: if_splits option.splits prod.splits)
  then show "handle_command B cmd c w = (out, c', w') \<Longrightarrow> c' = c" .
  show "clock_poll_serial B input s c w = (out, s', c', w') \<Longrightarrow> c' = c"
  proof (induction input arbitrary: s w out s' c' w')
    case Nil
    then show ?case by simp
  next
    case (Cons ch input)
    obtain o1 c1 w1 where h: "(if overflow s then ('''', c, w) else handle_command B (c_str (line s)) c w) =
        (o1, c1, w1)"
      by (metis prod_cases3)
    then have "c1 = c" using cmd by (auto split: if_splits)
    obtain o2 s2 c2 w2 where "clock_poll_serial B input serial_init c1 w1 = (o2, s2, c2, w2)"
      by (metis prod_cases4)
    with Cons h \<open>c1 = c\<close> show ?case by (auto split: if_splits)
  qed
qed

text \<open>Several calls of \<open>loop\<close>: what each of them draws.\<close>

fun fw_loops ::
    "'w board \<Rightarrow> mbed_hmac \<Rightarrow> time_conv \<Rightarrow> string \<Rightarrow> string \<Rightarrow> string list \<Rightarrow> 'w keychain \<Rightarrow>
     (draw_op list list \<times> 'w keychain) cxx" where
  "fw_loops B M conv key ident [] k = Inr ([], k)"
| "fw_loops B M conv key ident (input # inputs) k =
     bind_cxx (fw_loop B M conv key ident input k) (\<lambda>(out, ops, k1).
     bind_cxx (fw_loops B M conv key ident inputs k1) (\<lambda>(opss, k2). Inr (ops # opss, k2)))"

lemma fw_loops_no_rtc:
  "state (clk k) = No_rtc \<Longrightarrow> last_drawn k = 0 \<Longrightarrow> last_state k = No_rtc \<Longrightarrow>
   \<exists>k'. fw_loops B M conv key ident inputs k = Inr (replicate (length inputs) [], k')"
proof (induction inputs arbitrary: k)
  case Nil
  then show ?case by simp
next
  case (Cons input inputs)
  obtain o1 ser1 c1 w1 where p: "clock_poll_serial B input (ser k) (clk k) (hw_state k) = (o1, ser1, c1, w1)"
    by (metis prod_cases4)
  have c1: "c1 = clk k" by (rule no_rtc_stuck(2) [OF Cons.prems(1) p])
  let ?k1 = "k\<lparr>clk := c1, ser := ser1, hw_state := w1\<rparr>"
  have one: "fw_loop B M conv key ident input k = Inr (o1, [], ?k1)"
    using p c1 Cons.prems by (simp add: fw_loop_def)
  obtain k' where "fw_loops B M conv key ident inputs ?k1 = Inr (replicate (length inputs) [], k')"
    using Cons.IH [of ?k1] Cons.prems c1 by auto
  with one show ?case by simp
qed

definition sample_chain :: "hw keychain" where
  "sample_chain =
     \<lparr>clk = trusted_clock, ser = serial_init, last_drawn = 0, last_state = No_rtc, hw_state = sample_hw\<rparr>"

lemma sample_setup: "fw_setup sample_board True sample_hw = Some ('''', sample_chain)"
  by (simp add: fw_setup_def clock_begin_def clock_power_on_def sample_chain_def clock_eval)

section \<open>Properties\<close>





text \<open>
  A keychain whose RTC does not answer at power-on draws nothing, ever: whatever it is sent,
  no call of \<open>loop\<close> draws a screen, so \<open>NO CLOCK\<close>, which \<open>clock_state_text\<close> has for this
  state, never appears. The reading 0 and the state \<open>NoRtc\<close> are what the statics start with.
\<close>

theorem no_clock_never_shown:
  assumes "fw_setup B display_ok w = Some (out, k)" and "state (clk k) = No_rtc"
  shows "\<exists>k'. fw_loops B M conv key ident inputs k = Inr (replicate (length inputs) [], k')"
  by (rule fw_loops_no_rtc) (use assms in \<open>auto simp: fw_setup_def split: prod.splits if_splits\<close>)

theorem no_clock_never_shown_witness:
  "\<exists>out k k'. fw_setup sample_board True (sample_hw\<lparr>hw_present := False\<rparr>) = Some (out, k) \<and>
    fw_loops sample_board sample_mbed time_t_64 sample_key ''7Q5V'' [''?'', ''''] k = Inr ([[], []], k')"
proof -
  obtain out k where s: "fw_setup sample_board True (sample_hw\<lparr>hw_present := False\<rparr>) = Some (out, k)"
      "state (clk k) = No_rtc"
    by (auto simp: fw_setup_def clock_begin_def evaluate_def)
  from no_clock_never_shown [OF this, of sample_mbed time_t_64 sample_key "''7Q5V''" "[''?'', '''']"] s
  show ?thesis by (auto simp: eval_simps)
qed

text \<open>
  Of the status texts only \<open>CLOCK ERROR\<close> is too wide for the panel: at text size 2 its
  eleven characters need 132 of 128 pixels.
\<close>

theorem status_text_fits:
  "(\<exists>x. Cursor x 0 \<in> set (display_status (clock_state_text s) ident) \<and>
      text_fits 2 x (clock_state_text s)) \<longleftrightarrow> s \<noteq> Went_backwards"
  by (cases s)
     (simp_all add: display_status_def Let_def clock_state_text_def text_fits_def SCREEN_WIDTH_def
        SCREEN_HEIGHT_def)

end
