(* ===== verification/Sql_Trace.thy ===== *)
theory Sql_Trace
  imports Server
begin

text \<open>
  What the programs say to SQLite. The code takes its database as a parameter, so it can be run,
  unchanged, on a platform that writes a protocol: \<open>traced P\<close> answers as \<open>P\<close> does and logs every
  call. The lemmas show, for each operation, that the run on \<open>traced P\<close> computes what the run on
  \<open>P\<close> computes, and which calls the log can hold: what the verifier is able to ask of the
  keystore at all, and in what form an identifier or a label that came in over a socket reaches a
  statement.
\<close>

section \<open>The protocol\<close>

datatype sql_event =
    Ev_open string open_flag
  | Ev_prepare string
  | Ev_run string "sql_bind list"
  | Ev_exec string

type_synonym 'db logged = "'db \<times> sql_event list"

definition logging :: "('db \<Rightarrow> 'a \<times> 'db) \<Rightarrow> sql_event \<Rightarrow> 'db logged \<Rightarrow> 'a \<times> 'db logged" where
  "logging f ev s = (let (a, db') = f (fst s) in (a, (db', snd s @ [ev])))"

definition traced :: "'db platform \<Rightarrow> 'db logged platform" where
  "traced P =
     \<lparr>getenv = getenv P, xauth_db_default = xauth_db_default P,
      sqlite3_open = (\<lambda>path fl. logging (sqlite3_open P path fl) (Ev_open path fl)),
      sqlite3_prepare = (\<lambda>sql. logging (sqlite3_prepare P sql) (Ev_prepare sql)),
      sqlite3_run = (\<lambda>sql binds. logging (sqlite3_run P sql binds) (Ev_run sql binds)),
      sqlite3_exec = (\<lambda>sql. logging (sqlite3_exec P sql) (Ev_exec sql))\<rparr>"

lemma traced_calls [simp]:
  "getenv (traced P) = getenv P" "xauth_db_default (traced P) = xauth_db_default P"
  "sqlite3_open (traced P) path fl = logging (sqlite3_open P path fl) (Ev_open path fl)"
  "sqlite3_prepare (traced P) sql = logging (sqlite3_prepare P sql) (Ev_prepare sql)"
  "sqlite3_run (traced P) sql binds = logging (sqlite3_run P sql binds) (Ev_run sql binds)"
  "sqlite3_exec (traced P) sql = logging (sqlite3_exec P sql) (Ev_exec sql)"
  by (simp_all add: traced_def)

lemma logging_eq [simp]:
  "logging f ev s = (a, s') \<longleftrightarrow> f (fst s) = (a, fst s') \<and> snd s' = snd s @ [ev]"
  by (cases s') (auto simp: logging_def split: prod.splits)

lemma db_path_traced [simp]: "db_path (traced P) = db_path P"
  by (simp add: db_path_def split: option.split)

text \<open>A log that only calls of one kind were added to.\<close>

definition grows :: "('e \<Rightarrow> bool) \<Rightarrow> 'e list \<Rightarrow> 'e list \<Rightarrow> bool" where
  "grows A log log' \<longleftrightarrow> (\<exists>evs. log' = log @ evs \<and> list_all A evs)"

lemma grows_refl [simp, intro]: "grows A log log"
  by (simp add: grows_def)

lemma grows_trans [trans]: "grows A l1 l2 \<Longrightarrow> grows A l2 l3 \<Longrightarrow> grows A l1 l3"
  unfolding grows_def by (metis append_assoc list_all_append)

lemma grows_append [simp]: "grows A log (log @ evs) \<longleftrightarrow> list_all A evs"
  by (simp add: grows_def)

lemma grows_mono: "grows A log log' \<Longrightarrow> (\<And>ev. A ev \<Longrightarrow> B ev) \<Longrightarrow> grows B log log'"
  unfolding grows_def by (metis list.pred_mono_strong)

section \<open>The keystore operations\<close>

text \<open>
  The calls of a lookup: the configured file, read-only, one statement, and one well-formed
  identifier bound to it. The calls of the listing. The calls of the writers: one of three
  statements, with the identifier, the label and the key as bound values and never as part of a
  text. A row is inserted active, with a key of hex digits and a valid label; a status that
  replaces another is 0 or 1, and a label that replaces another is valid.
\<close>

definition lookup_call :: "'db platform \<Rightarrow> sql_event \<Rightarrow> bool" where
  "lookup_call P ev =
     (case ev of
        Ev_open path fl \<Rightarrow> path = db_path P \<and> fl = SQLITE_OPEN_READONLY
      | Ev_prepare sql \<Rightarrow> sql = sql_find
      | Ev_run sql binds \<Rightarrow> sql = sql_find \<and> (\<exists>i. binds = [Bind_text i] \<and> valid_device_id i)
      | Ev_exec sql \<Rightarrow> False)"

definition listing_call :: "'db platform \<Rightarrow> sql_event \<Rightarrow> bool" where
  "listing_call P ev =
     (case ev of
        Ev_open path fl \<Rightarrow> path = db_path P \<and> fl = SQLITE_OPEN_READONLY
      | Ev_prepare sql \<Rightarrow> sql = sql_list
      | Ev_run sql binds \<Rightarrow> sql = sql_list \<and> binds = []
      | Ev_exec sql \<Rightarrow> False)"

definition write_call :: "'db platform \<Rightarrow> sql_event \<Rightarrow> bool" where
  "write_call P ev =
     (case ev of
        Ev_open path fl \<Rightarrow> path = db_path P \<and> fl = SQLITE_OPEN_READWRITE
      | Ev_prepare sql \<Rightarrow> sql \<in> {sql_insert, sql_set_status, sql_set_note}
      | Ev_run sql binds \<Rightarrow>
          (\<exists>i. valid_device_id i \<and>
             (sql = sql_insert \<and> (\<exists>k n. binds = [Bind_text i, Bind_text k, Bind_int 1, Bind_text n] \<and>
                 list_all hex_char k \<and> valid_label n) \<or>
              sql = sql_set_status \<and> (\<exists>s \<in> {0, 1}. binds = [Bind_int s, Bind_text i]) \<or>
              sql = sql_set_note \<and> (\<exists>n. binds = [Bind_text n, Bind_text i] \<and> valid_label n)))
      | Ev_exec sql \<Rightarrow> False)"

definition migration_call :: "'db platform \<Rightarrow> sql_event \<Rightarrow> bool" where
  "migration_call P ev =
     (case ev of
        Ev_open path fl \<Rightarrow> path = db_path P \<and> fl = SQLITE_OPEN_READWRITE
      | Ev_prepare sql \<Rightarrow> sql = sql_table_info
      | Ev_run sql binds \<Rightarrow> sql = sql_table_info \<and> binds = []
      | Ev_exec sql \<Rightarrow> sql = sql_add_created)"

definition daemon_call :: "'db platform \<Rightarrow> sql_event \<Rightarrow> bool" where
  "daemon_call P ev \<longleftrightarrow> lookup_call P ev \<or> listing_call P ev \<or> write_call P ev"

definition tool_call :: "'db platform \<Rightarrow> sql_event \<Rightarrow> bool" where
  "tool_call P ev \<longleftrightarrow> daemon_call P ev \<or> migration_call P ev"

lemmas call_defs = lookup_call_def listing_call_def write_call_def migration_call_def

lemma lookup_daemon: "grows (lookup_call P) l l' \<Longrightarrow> grows (daemon_call P) l l'"
  and listing_daemon: "grows (listing_call P) l l' \<Longrightarrow> grows (daemon_call P) l l'"
  and write_daemon: "grows (write_call P) l l' \<Longrightarrow> grows (daemon_call P) l l'"
  and daemon_tool: "grows (daemon_call P) l l' \<Longrightarrow> grows (tool_call P) l l'"
  and migration_tool: "grows (migration_call P) l l' \<Longrightarrow> grows (tool_call P) l l'"
  by (erule grows_mono, simp add: daemon_call_def tool_call_def)+

lemma find_device_traced:
  assumes "find_device (traced P) i out s = (l, d, s')"
  shows "find_device P i out (fst s) = (l, d, fst s') \<and> grows (lookup_call P) (snd s) (snd s')"
  using assms
  by (auto simp: find_device_def open_db_def call_defs Let_def
      split: if_splits prod.splits bool.splits step_result.splits option.splits)

lemma list_devices_traced:
  assumes "list_devices (traced P) out s = (ok, ds, s')"
  shows "list_devices P out (fst s) = (ok, ds, fst s') \<and> grows (listing_call P) (snd s) (snd s')"
  using assms
  by (auto simp: list_devices_def open_db_def call_defs split: prod.splits bool.splits)

text \<open>What the callers of \<open>add_device\<close> fill in before they draw an identifier.\<close>

definition row_filled :: "device \<Rightarrow> bool" where
  "row_filled d \<longleftrightarrow> dev_status d = 1 \<and> list_all hex_char (dev_key d) \<and> valid_label (dev_note d)"

lemma row_filled_id [simp]: "row_filled (d\<lparr>dev_id := i\<rparr>) = row_filled d"
  by (simp add: row_filled_def)

lemma row_filled_new:
  "generate_key R r = (Inr key, r') \<Longrightarrow> valid_label n \<Longrightarrow>
   row_filled (device_default\<lparr>dev_status := 1, dev_note := n, dev_key := key\<rparr>)"
  by (auto simp: row_filled_def generate_key_def list_all_iff hex_of_chars
      split: prod.splits option.splits)

lemma c_str_hex [simp]: "list_all hex_char k \<Longrightarrow> c_str k = k"
  by (rule c_str_id) (auto simp: list_all_iff dest: hex_char_special)

lemma add_device_traced:
  assumes "add_device (traced P) d s = (ok, s')" and "row_filled d"
  shows "add_device P d (fst s) = (ok, fst s') \<and> grows (write_call P) (snd s) (snd s')"
  using assms
  by (auto simp: add_device_def row_filled_def open_db_def call_defs c_str_id valid_device_id_chars
      split: if_splits prod.splits bool.splits)

lemma set_device_status_traced:
  assumes "set_device_status (traced P) i v s = (l, s')" and "v \<in> {0, 1}"
  shows "set_device_status P i v (fst s) = (l, fst s') \<and> grows (write_call P) (snd s) (snd s')"
  using assms
  by (auto simp: set_device_status_def update_one_def open_db_def call_defs Let_def
      split: if_splits prod.splits bool.splits)

lemma set_device_note_traced:
  assumes "set_device_note (traced P) i n s = (l, s')" and "valid_label n"
  shows "set_device_note P i n (fst s) = (l, fst s') \<and> grows (write_call P) (snd s) (snd s')"
  using assms
  by (auto simp: set_device_note_def update_one_def open_db_def call_defs Let_def
      split: if_splits prod.splits bool.splits)

lemma migrate_keystore_traced:
  assumes "migrate_keystore (traced P) s = (ok, s')"
  shows "migrate_keystore P (fst s) = (ok, fst s') \<and> grows (migration_call P) (snd s) (snd s')"
  using assms
  by (auto simp: migrate_keystore_def open_db_def call_defs Let_def
      split: if_splits prod.splits bool.splits)

section \<open>The daemons and the tool\<close>

lemma verify_code_traced:
  assumes "verify_code (traced P) H dummy_key now ident code s = (res, s')"
  shows "verify_code P H dummy_key now ident code (fst s) = (res, fst s') \<and>
    grows (lookup_call P) (snd s) (snd s')"
  using assms
  by (auto simp: verify_code_def Let_def split: prod.splits dest!: find_device_traced)

lemma verifier_request_traced:
  assumes "verifier_handle_request (traced P) H dummy_key now line s = (res, s')"
  shows "verifier_handle_request P H dummy_key now line (fst s) = (res, fst s') \<and>
    grows (lookup_call P) (snd s) (snd s')"
proof (cases "length (split_request 4 line 0) = 3 \<and> split_request 4 line 0 ! 0 = ''VERIFY''")
  case True
  with assms show ?thesis
    by (auto simp: verifier_handle_request_def Let_def split: prod.splits dest!: verify_code_traced)
next
  case False
  with assms show ?thesis
    by (auto simp: verifier_handle_request_def Let_def
        split: prod.splits if_splits dest!: find_device_traced)
qed

lemma verifier_serve_traced:
  assumes "verifier_serve (traced P) H dummy_key uid now c s = (out, n, s')"
  shows "verifier_serve P H dummy_key uid now c (fst s) = (out, n, fst s') \<and>
    grows (lookup_call P) (snd s) (snd s')"
  using assms
  by (auto simp: verifier_serve_def split: if_splits prod.splits option.splits sum.splits
      dest!: verifier_request_traced)

lemma draw_until_free_traced:
  assumes "draw_until_free (traced P) R len n d r s = (res, r', s')" and "row_filled d"
  shows "draw_until_free P R len n d r (fst s) = (res, r', fst s') \<and>
    grows (daemon_call P) (snd s) (snd s')"
  using assms
proof (induction n arbitrary: d r s)
  case 0
  then show ?case by simp
next
  case (Suc n)
  obtain g r1 where g: "generate_device_id R len r = (g, r1)" by (metis surj_pair)
  show ?case
  proof (cases g)
    case (Inl e)
    with Suc.prems g show ?thesis by auto
  next
    case (Inr ident)
    obtain l ex s1 where f: "find_device (traced P) ident device_default s = (l, ex, s1)"
      by (metis prod_cases3)
    obtain ok s2 where a: "add_device (traced P) (d\<lparr>dev_id := ident\<rparr>) s1 = (ok, s2)"
      by (metis surj_pair)
    have row: "row_filled (d\<lparr>dev_id := ident\<rparr>)" using Suc.prems(2) by simp
    note F = find_device_traced [OF f] and A = add_device_traced [OF a row]
    have 1: "grows (daemon_call P) (snd s) (snd s1)" using F lookup_daemon by blast
    have 2: "grows (daemon_call P) (snd s) (snd s2)"
      using 1 A write_daemon grows_trans by blast
    show ?thesis
      using Suc.prems g Inr f a F A 1 2
      by (auto simp: Let_def split: if_splits bool.splits dest!: Suc.IH [OF _ row] intro: grows_trans)
  qed
qed

lemma add_attempts_traced:
  assumes "add_attempts (traced P) R n d r s = (res, r', s')" and "row_filled d"
  shows "add_attempts P R n d r (fst s) = (res, r', fst s') \<and> grows (daemon_call P) (snd s) (snd s')"
  using assms unfolding add_attempts_eq
  by (auto split: prod.splits dest!: draw_until_free_traced)

lemma handle_list_traced:
  assumes "handle_list (traced P) s = (out, s')"
  shows "handle_list P (fst s) = (out, fst s') \<and> grows (daemon_call P) (snd s) (snd s')"
  using assms
  by (auto simp: handle_list_def split: prod.splits if_splits
      dest!: list_devices_traced intro: listing_daemon)

lemma handle_add_traced:
  assumes "handle_add (traced P) R n r s = (res, r', s')"
  shows "handle_add P R n r (fst s) = (res, r', fst s') \<and> grows (daemon_call P) (snd s) (snd s')"
  using assms
  by (auto simp: handle_add_def Let_def split: if_splits prod.splits sum.splits
      dest!: add_attempts_traced [OF _ row_filled_new])

lemma admin_request_traced:
  assumes "admin_handle_request (traced P) R line r s = (res, r', s')"
  shows "admin_handle_request P R line r (fst s) = (res, r', fst s') \<and>
    grows (daemon_call P) (snd s) (snd s')"
  using assms unfolding admin_handle_request_eq
  by (cases "parse_request line")
     (auto simp: admin_dispatch_def Let_def split: prod.splits
       dest!: handle_list_traced handle_add_traced set_device_status_traced
         set_device_note_traced [OF _ parse_request_label(1)]
       intro: listing_daemon write_daemon)

lemma admin_serve_traced:
  assumes "admin_serve (traced P) R uid c r s = (out, n, r', s')"
  shows "admin_serve P R uid c r (fst s) = (out, n, r', fst s') \<and> grows (daemon_call P) (snd s) (snd s')"
  using assms
  by (auto simp: admin_serve_def split: if_splits prod.splits option.splits sum.splits
      dest!: admin_request_traced)

lemma verifier_start_traced:
  assumes "verifier_start (traced P) R argv os r s = (st, calls, r', s')"
  shows "verifier_start P R argv os r (fst s) = (st, calls, r', fst s') \<and>
    grows (lookup_call P) (snd s) (snd s')"
  using assms
  by (auto simp: verifier_start_def Let_def split: sum.splits prod.splits option.splits if_splits
      dest!: find_device_traced)

lemma devcode_traced:
  assumes "devcode_main (traced P) H argv now s = (res, s')"
  shows "devcode_main P H argv now (fst s) = (res, fst s') \<and> grows (lookup_call P) (snd s) (snd s')"
  using assms
  by (auto simp: devcode_main_def Let_def split: prod.splits if_splits dest!: find_device_traced)

lemma finish_add_traced:
  assumes "finish_add (traced P) F header placed d f s = (res, f', s')"
  shows "finish_add P F header placed d f (fst s) = (res, f', fst s') \<and>
    grows (daemon_call P) (snd s) (snd s')"
  using assms
  by (auto simp: finish_add_def Let_def split: prod.splits if_splits
      dest!: set_device_status_traced intro: write_daemon)

lemma cmd_add_traced:
  assumes "cmd_add (traced P) R F args r f s = (res, r', f', s')"
  shows "cmd_add P R F args r f (fst s) = (res, r', f', fst s') \<and>
    grows (daemon_call P) (snd s) (snd s')"
  using assms
  by (auto simp: cmd_add_def Let_def split: option.splits prod.splits if_splits sum.splits
      dest!: draw_until_free_traced [OF _ row_filled_new] finish_add_traced intro: grows_trans)

lemma provision_command_traced:
  assumes "provision_command (traced P) R F cmd args r f s = (res, r', f', s')"
  shows "provision_command P R F cmd args r f (fst s) = (res, r', f', fst s') \<and>
    grows (daemon_call P) (snd s) (snd s')"
  using assms
  by (auto simp: provision_command_def cmd_list_def Let_def split: prod.splits if_splits
      dest!: cmd_add_traced list_devices_traced set_device_status_traced set_device_note_traced
      intro: listing_daemon write_daemon)

lemma admin_start_traced:
  assumes "admin_start (traced P) argv os s = (st, calls, s')"
  shows "admin_start P argv os (fst s) = (st, calls, fst s') \<and>
    grows (migration_call P) (snd s) (snd s')"
  using assms
  by (auto simp: admin_start_def Let_def split: sum.splits prod.splits bool.splits option.splits
      dest!: migrate_keystore_traced)

lemma provision_main_traced:
  assumes "provision_main (traced P) R F argv r f s = (res, r', f', s')"
  shows "provision_main P R F argv r f (fst s) = (res, r', f', fst s') \<and>
    grows (tool_call P) (snd s) (snd s')"
  using assms
  by (auto simp: provision_main_def split: list.splits prod.splits bool.splits sum.splits cxx_error.splits
      dest!: migrate_keystore_traced provision_command_traced
      intro: migration_tool daemon_tool grows_trans)

text \<open>The server on the traced platform, and the server without the log.\<close>

definition unlogged :: "('r, 'f, 'db logged) server \<Rightarrow> ('r, 'f, 'db) server" where
  "unlogged s = \<lparr>srv_rng = srv_rng s, srv_files = srv_files s, srv_db = fst (srv_db s)\<rparr>"

definition srv_log :: "('r, 'f, 'db logged) server \<Rightarrow> sql_event list" where
  "srv_log s = snd (srv_db s)"

text \<open>The events that migrate the keystore: a run of the tool and a start of the admin daemon.\<close>

definition migrates :: "event \<Rightarrow> bool" where
  "migrates ev = (case ev of Tool argv \<Rightarrow> True | Admin_started argv os \<Rightarrow> True | _ \<Rightarrow> False)"

definition event_call :: "'db platform \<Rightarrow> event \<Rightarrow> sql_event \<Rightarrow> bool" where
  "event_call P ev =
     (case ev of
        Login c now \<Rightarrow> lookup_call P
      | Admin_conn c \<Rightarrow> daemon_call P
      | Tool argv \<Rightarrow> tool_call P
      | Admin_started argv os \<Rightarrow> migration_call P)"

lemma server_event_traced:
  "unlogged (server_event (traced P) H R F dummy_key vuid auid ev s) =
     server_event P H R F dummy_key vuid auid ev (unlogged s) \<and>
   grows (event_call P ev) (srv_log s) (srv_log (server_event (traced P) H R F dummy_key vuid auid ev s))"
  by (cases ev)
     (auto simp: unlogged_def srv_log_def event_call_def split: prod.splits
       dest!: verifier_serve_traced admin_serve_traced admin_start_traced provision_main_traced)

lemma server_run_traced:
  "unlogged (server_run (traced P) H R F dummy_key vuid auid evs s) =
     server_run P H R F dummy_key vuid auid evs (unlogged s) \<and>
   grows (\<lambda>call. \<exists>ev \<in> set evs. event_call P ev call) (srv_log s)
     (srv_log (server_run (traced P) H R F dummy_key vuid auid evs s))"
proof (induction evs arbitrary: s)
  case Nil
  then show ?case by (simp add: server_run_def)
next
  case (Cons ev evs)
  let ?s1 = "server_event (traced P) H R F dummy_key vuid auid ev s"
  note one = server_event_traced [of P H R F dummy_key vuid auid ev s]
  note rest = Cons.IH [of ?s1]
  have "grows (\<lambda>call. \<exists>e \<in> set (ev # evs). event_call P e call) (srv_log s) (srv_log ?s1)"
    using one by (auto elim: grows_mono)
  moreover have "grows (\<lambda>call. \<exists>e \<in> set (ev # evs). event_call P e call) (srv_log ?s1)
      (srv_log (server_run (traced P) H R F dummy_key vuid auid evs ?s1))"
    using rest by (auto elim: grows_mono)
  ultimately show ?case
    using one rest grows_trans by (simp add: server_run_def) blast
qed

text \<open>The calls of one lookup, in order, while the database works.\<close>

definition lookup_calls :: "'db platform \<Rightarrow> string \<Rightarrow> sql_event list" where
  "lookup_calls P ident =
     (if valid_device_id ident
      then [Ev_open (db_path P) SQLITE_OPEN_READONLY, Ev_prepare sql_find, Ev_run sql_find [Bind_text ident]]
      else [])"

context sqlite_available
begin

lemma find_device_calls:
  assumes "up db" and "find_device (traced P) ident out (db, log) = (l, d, s')"
  shows "snd s' = log @ lookup_calls P ident"
proof (cases "valid_device_id ident")
  case True
  obtain db1 db2 where "open_db P SQLITE_OPEN_READONLY db = (True, db1)"
    "sqlite3_prepare P sql_find db1 = (True, db2)"
    using prepared [OF assms(1), of sql_find SQLITE_OPEN_READONLY] by blast
  with True assms(2) show ?thesis
    by (auto simp: find_device_def open_db_def lookup_calls_def Let_def
        split: prod.splits bool.splits step_result.splits option.splits)
next
  case False
  with assms(2) show ?thesis by (auto simp: find_device_def lookup_calls_def)
qed

end

section \<open>Properties\<close>

text \<open>
  C10. Least privilege. The verifier, while it starts and while it serves any connections at any
  times, and the development helper ask nothing of SQLite but lookups: they open the configured
  file, read-only, prepare the one \<open>SELECT\<close> by identifier, and run it with one well-formed
  identifier bound. No other text, and no malformed identifier, reaches the database, whatever the
  clients send; and the log changes nothing of what the verifier does.
\<close>

theorem verifier_least_privilege:
  "let evs = map (\<lambda>(c, now). Login c now) conns;
       s' = server_run (traced P) H R F dummy_key vuid auid evs s
   in unlogged s' = server_run P H R F dummy_key vuid auid evs (unlogged s) \<and>
      grows (lookup_call P) (srv_log s) (srv_log s') \<and>
      (case verifier_start (traced P) R argv os r (db, log) of
         (st, calls, r', db', log') \<Rightarrow> grows (lookup_call P) log log') \<and>
      (case devcode_main (traced P) H argv now (db, log) of
         (res, db', log') \<Rightarrow> grows (lookup_call P) log log')"
proof -
  let ?evs = "map (\<lambda>(c, now). Login c now) conns"
  have "lookup_call P call" if "\<exists>ev \<in> set ?evs. event_call P ev call" for call
    using that by (auto simp: event_call_def)
  then have "let s' = server_run (traced P) H R F dummy_key vuid auid ?evs s
     in unlogged s' = server_run P H R F dummy_key vuid auid ?evs (unlogged s) \<and>
        grows (lookup_call P) (srv_log s) (srv_log s')"
    using server_run_traced [of P H R F dummy_key vuid auid ?evs s] grows_mono
    unfolding Let_def by blast
  then show ?thesis
    by (auto simp: Let_def split: prod.splits dest!: verifier_start_traced devcode_traced)
qed

text \<open>
  C11. No injection. Whatever the clients of the two daemons and the operator of the tool send, in
  any order, every text handed to SQLite is one of the seven of the sources, and what a client
  sends is in it at most as a bound value: every row is named by a well-formed identifier; a row
  is inserted with status 1, a key of hex digits and a valid label; a status that replaces another
  is 0 or 1; a label that replaces another is valid. Only a run of the tool and the start of the
  admin daemon change the schema, both with the one \<open>ALTER TABLE\<close>, and no connection does: once the
  daemons are up, they are confined to lookups, the listing and these three writes.
\<close>

theorem server_sql_fixed:
  "let s' = server_run (traced P) H R F dummy_key vuid auid evs s in
     unlogged s' = server_run P H R F dummy_key vuid auid evs (unlogged s) \<and>
     grows (\<lambda>call. lookup_call P call \<or> listing_call P call \<or> write_call P call \<or>
         list_ex migrates evs \<and> migration_call P call)
       (srv_log s) (srv_log s')"
proof -
  let ?call = "\<lambda>call. lookup_call P call \<or> listing_call P call \<or> write_call P call \<or>
         list_ex migrates evs \<and> migration_call P call"
  have "?call call" if "\<exists>ev \<in> set evs. event_call P ev call" for call
  proof -
    from that obtain ev where "ev \<in> set evs" "event_call P ev call" by blast
    then show ?thesis
      by (cases ev rule: event.exhaust)
         (force simp: event_call_def migrates_def list_ex_iff tool_call_def daemon_call_def)+
  qed
  then show ?thesis
    using server_run_traced [of P H R F dummy_key vuid auid evs s]
      grows_mono [of "\<lambda>call. \<exists>ev \<in> set evs. event_call P ev call" _ _ ?call]
    unfolding Let_def by blast
qed

text \<open>
  C9. A check costs the database the same, too: while it works, a \<open>VERIFY\<close> opens the keystore
  once and runs one \<open>SELECT\<close> for every well-formed identifier, enrolled or not, active or revoked,
  with a right, wrong or malformed code, and nothing for a malformed one; and the HMACs and
  comparisons are always the same six.
\<close>

theorem verify_uniform_work:
  assumes "sqlite_available P tbl up" and "up db" and "hmac_digest_32 H" and "length dummy_key = 128"
  shows "\<exists>ok matched db'. verify_code (traced P) H dummy_key now ident code (db, log) =
    (Inr (ok, matched, [Hmac_of 128 8, Memcmp 8, Hmac_of 128 8, Memcmp 8, Hmac_of 128 8, Memcmp 8]),
     (db', log @ lookup_calls P ident))"
proof -
  obtain l d s' where f: "find_device (traced P) ident device_default (db, log) = (l, d, s')"
    by (metis prod_cases3)
  have log: "snd s' = log @ lookup_calls P ident"
    by (rule sqlite_available.find_device_calls [OF assms(1,2) f])
  obtain ok matched where "fst (verify_code (traced P) H dummy_key now ident code (db, log)) =
      Inr (ok, matched, [Hmac_of 128 8, Memcmp 8, Hmac_of 128 8, Memcmp 8, Hmac_of 128 8, Memcmp 8])"
    using verify_code_work [OF assms(3,4), where P = "traced P"] by blast
  moreover have "snd (verify_code (traced P) H dummy_key now ident code (db, log)) = s'"
    by (simp add: verify_code_def Let_def f)
  ultimately show ?thesis
    using log by (metis prod.collapse)
qed

theorem verify_uniform_work_witness:
  "\<exists>ok matched db'. verify_code (traced mem_platform) sample_hmac sample_key 1800 ''ZZZZ'' ''1'' (sample_db, []) =
    (Inr (ok, matched, [Hmac_of 128 8, Memcmp 8, Hmac_of 128 8, Memcmp 8, Hmac_of 128 8, Memcmp 8]),
     (db', lookup_calls mem_platform ''ZZZZ''))"
  using verify_uniform_work [OF mem.sqlite_available_axioms sample_db_up hmac_digest_32_sample length_sample_key,
      of 1800 "''ZZZZ''" "''1''" "[]"] by (simp only: append_Nil)

end
