(* ===== verification/Buffers.thy ===== *)
theory Buffers
  imports Admin Fw_Main
begin

text \<open>
  The fixed arrays of the sources, byte by byte: the request buffers of the two daemons, the
  command line of the keychain's serial port, and the two arrays a code passes through on its way
  to the screen. The other theories describe these routines on strings. Here an array has its
  declared size, a byte nobody has written has no value, and an access outside the array or to
  such a byte is undefined behaviour. The theorems show that it never happens and that the
  routines compute what the definitions on strings say, so that everything proved of those holds
  of the code that handles the arrays; and they say what the arrays hold afterwards.
\<close>

section \<open>Arrays\<close>

text \<open>The bytes of an array; \<open>None\<close> is an indeterminate value.\<close>

type_synonym memory = "char option list"

definition uninitialised :: "nat \<Rightarrow> memory" where
  "uninitialised n = replicate n None"

definition zeroed :: "nat \<Rightarrow> memory" where
  "zeroed n = replicate n (Some (CHR 0x00))"

definition load :: "memory \<Rightarrow> nat \<Rightarrow> char cxx" where
  "load m i =
     (if i < length m
      then (case m ! i of Some c \<Rightarrow> Inr c | None \<Rightarrow> Inl Undefined_behaviour)
      else Inl Undefined_behaviour)"

definition store :: "memory \<Rightarrow> nat \<Rightarrow> char \<Rightarrow> memory cxx" where
  "store m i c = (if i < length m then Inr (m[i := Some c]) else Inl Undefined_behaviour)"

fun load_bytes :: "memory \<Rightarrow> nat \<Rightarrow> nat \<Rightarrow> string cxx" where
  "load_bytes m pos 0 = Inr ''''"
| "load_bytes m pos (Suc n) =
     bind_cxx (load m pos) (\<lambda>c. bind_cxx (load_bytes m (Suc pos) n) (\<lambda>s. Inr (c # s)))"

fun store_bytes :: "memory \<Rightarrow> nat \<Rightarrow> string \<Rightarrow> memory cxx" where
  "store_bytes m pos [] = Inr m"
| "store_bytes m pos (c # s) = bind_cxx (store m pos c) (\<lambda>m'. store_bytes m' (Suc pos) s)"

text \<open>Reading a C string: the bytes up to the first NUL.\<close>

function load_c_str :: "memory \<Rightarrow> nat \<Rightarrow> string cxx" where
  "load_c_str m pos =
     (case load m pos of
        Inl e \<Rightarrow> Inl e
      | Inr c \<Rightarrow>
          if c = CHR 0x00 then Inr ''''
          else bind_cxx (load_c_str m (Suc pos)) (\<lambda>s. Inr (c # s)))"
  by pat_completeness auto
termination
  by (relation "measure (\<lambda>(m, pos). length m - pos)") (auto simp: load_def split: if_splits)

declare load_c_str.simps [simp del]

text \<open>\<open>contents m pos s\<close>: the bytes of \<open>s\<close> are in the array, from \<open>pos\<close> on.\<close>

definition contents :: "memory \<Rightarrow> nat \<Rightarrow> string \<Rightarrow> bool" where
  "contents m pos s \<longleftrightarrow> take (length s) (drop pos m) = map Some s"

lemma contents_length: "contents m pos s \<Longrightarrow> s \<noteq> [] \<Longrightarrow> pos + length s \<le> length m"
  unfolding contents_def by (drule arg_cong [of _ _ length]) (cases s; simp)

lemma contents_Nil [simp]: "contents m pos []"
  by (simp add: contents_def)

lemma contents_Cons:
  "contents m pos (c # s) \<longleftrightarrow> pos < length m \<and> m ! pos = Some c \<and> contents m (Suc pos) s"
  by (cases "pos < length m") (auto simp: contents_def simp flip: Cons_nth_drop_Suc)

lemma contents_append:
  "contents m pos (s @ t) \<longleftrightarrow> contents m pos s \<and> contents m (pos + length s) t"
  by (induction s arbitrary: pos) (auto simp: contents_Cons)

lemma load_bytes_contents: "contents m pos s \<Longrightarrow> load_bytes m pos (length s) = Inr s"
  by (induction s arbitrary: pos) (auto simp: contents_Cons load_def)

lemma store_bytes_eq:
  "pos + length s \<le> length m \<Longrightarrow>
   store_bytes m pos s = Inr (take pos m @ map Some s @ drop (pos + length s) m)"
proof (induction s arbitrary: m pos)
  case Nil
  then show ?case by simp
next
  case (Cons c s)
  then have "store_bytes m pos (c # s) =
      Inr (take (Suc pos) (m[pos := Some c]) @ map Some s @ drop (Suc pos + length s) (m[pos := Some c]))"
    by (simp add: store_def)
  also have "take (Suc pos) (m[pos := Some c]) = take pos m @ [Some c]"
    using Cons.prems by (simp add: take_Suc_conv_app_nth)
  finally show ?case by simp
qed

lemma contents_stored:
  "pos + length s \<le> length m \<Longrightarrow> contents (take pos m @ map Some s @ rest) pos s"
  by (simp add: contents_def)

lemma contents_before:
  "contents m 0 t \<Longrightarrow> length t \<le> pos \<Longrightarrow> pos \<le> length m \<Longrightarrow> contents (take pos m @ rest) 0 t"
  by (simp add: contents_def min_def)

lemma load_c_str_contents:
  assumes "contents m pos (s @ [CHR 0x00])"
  shows "load_c_str m pos = Inr (c_str s)"
  using assms
proof (induction s arbitrary: pos)
  case Nil
  then show ?case by (simp add: load_c_str.simps [of m pos] contents_Cons load_def c_str_def)
next
  case (Cons c s)
  then show ?case
    by (auto simp: load_c_str.simps [of m pos] contents_Cons load_def c_str_def)
qed

section \<open>The request buffers of the daemons\<close>

text \<open>The loop over the \<open>n\<close> bytes that \<open>read\<close> left at \<open>pos\<close>: where it finds a line feed.\<close>

fun scan_newline :: "memory \<Rightarrow> nat \<Rightarrow> nat \<Rightarrow> nat option cxx" where
  "scan_newline m pos 0 = Inr None"
| "scan_newline m pos (Suc n) =
     bind_cxx (load m pos) (\<lambda>c. if c = nl then Inr (Some pos) else scan_newline m (Suc pos) n)"

text \<open>How the loop of \<open>read_line\<close> ends: a line, \<open>read\<close> failed, or the buffer is full.\<close>

datatype line_end = Line string | Read_failed | Too_long

lemma bind_cxx_cong [fundef_cong]:
  "m = m' \<Longrightarrow> (\<And>a. m' = Inr a \<Longrightarrow> f a = g a) \<Longrightarrow> bind_cxx m f = bind_cxx m' g"
  by (cases m') simp_all

function read_line_memory ::
    "memory \<Rightarrow> nat \<Rightarrow> read_event list \<Rightarrow> (line_end \<times> memory \<times> read_event list) cxx" where
  "read_line_memory buf len evs =
     (if len < length buf then
        (case sys_read (length buf - len) evs of
           (Interrupted, evs') \<Rightarrow> read_line_memory buf len evs'
         | (Got_nothing, evs') \<Rightarrow> Inr (Read_failed, buf, evs')
         | (Got s, evs') \<Rightarrow>
             bind_cxx (store_bytes buf len s) (\<lambda>buf'.
             bind_cxx (scan_newline buf' len (length s)) (\<lambda>found.
               case found of
                 Some p \<Rightarrow> bind_cxx (load_bytes buf' 0 p) (\<lambda>out. Inr (Line out, buf', evs'))
               | None \<Rightarrow> read_line_memory buf' (len + length s) evs')))
      else Inr (Too_long, buf, evs))"
  by pat_completeness auto
termination
  by (relation "measure (\<lambda>(buf, len, evs). event_size evs)")
     (auto dest!: sym [of "(_, _)"] dest: sys_read_Interrupted sys_read_Got)

declare read_line_memory.simps [simp del]

definition line_of :: "line_end \<Rightarrow> string option" where
  "line_of e = (case e of Line s \<Rightarrow> Some s | _ \<Rightarrow> None)"

text \<open>
  \<open>read_line\<close> of the verifier, with its \<open>OPENSSL_cleanse\<close> calls: behind the loop and before
  \<open>return true\<close>, but not before the \<open>return false\<close> of a failed \<open>read\<close>. The admin daemon's has
  none.
\<close>

definition verifier_read_line_memory ::
    "read_event list \<Rightarrow> (string option \<times> memory \<times> read_event list) cxx" where
  "verifier_read_line_memory evs =
     bind_cxx (read_line_memory (uninitialised (VERIFIER_MAX_REQUEST + 1)) 0 evs) (\<lambda>(e, buf, evs').
       Inr (line_of e, (if e = Read_failed then buf else zeroed (length buf)), evs'))"

definition admin_read_line_memory ::
    "read_event list \<Rightarrow> (string option \<times> memory \<times> read_event list) cxx" where
  "admin_read_line_memory evs =
     bind_cxx (read_line_memory (uninitialised (ADMIN_MAX_REQUEST + 1)) 0 evs) (\<lambda>(e, buf, evs').
       Inr (line_of e, buf, evs'))"

lemma scan_newline_contents:
  "contents m pos s \<Longrightarrow> scan_newline m pos (length s) = Inr (map_option ((+) pos) (index_of nl s))"
proof (induction s arbitrary: pos)
  case Nil
  then show ?case by simp
next
  case (Cons c s)
  then show ?case
    by (cases "index_of nl s") (auto simp: contents_Cons load_def)
qed

lemma read_line_memory_eq:
  assumes "contents buf 0 s" and "length s = len"
  shows "\<exists>e buf'. read_line_memory buf len evs = Inr (e, buf', snd (read_line_loop (length buf) s evs)) \<and>
    line_of e = fst (read_line_loop (length buf) s evs) \<and> length buf' = length buf \<and>
    (e = Read_failed \<longleftrightarrow> length (s @ stream_of evs) < length buf \<and> nl \<notin> set (stream_of evs)) \<and>
    (e = Read_failed \<longrightarrow> buf' = map Some (s @ stream_of evs) @ drop (length (s @ stream_of evs)) buf)"
  using assms
proof (induction buf len evs arbitrary: s rule: read_line_memory.induct)
  case (1 buf len evs)
  note IH_got = 1(1) and IH_intr = 1(2) and con = 1(3) and len = 1(4)
  show ?case
  proof (cases "len < length buf")
    case False
    with len show ?thesis
      by (simp add: read_line_memory.simps [of buf len evs] read_line_loop.simps [of _ s evs] line_of_def)
  next
    case True
    then have pos: "0 < length buf - len" by simp
    obtain r evs' where r: "sys_read (length buf - len) evs = (r, evs')" by fastforce
    note str = stream_of_sys_read [OF pos, of evs]
    note unfold = read_line_memory.simps [of buf len evs] read_line_loop.simps [of _ s evs]
    show ?thesis
    proof (cases r)
      case Interrupted
      then have "stream_of evs = stream_of evs'" using str r by simp
      with IH_intr [OF True r [symmetric] Interrupted con len] True r Interrupted len show ?thesis
        by (simp add: unfold)
    next
      case Got_nothing
      then have "stream_of evs = ''''" using str r by simp
      moreover have "buf = map Some s @ drop len buf"
        using con len by (metis append_take_drop_id contents_def drop0)
      ultimately show ?thesis
        using True r Got_nothing len by (simp add: unfold line_of_def)
    next
      case (Got t)
      have t: "length t \<le> length buf - len" using sys_read_Got [OF _ pos] r Got by blast
      have st: "stream_of evs = t @ stream_of evs'" using str r Got by simp
      define buf' where "buf' = take len buf @ map Some t @ drop (len + length t) buf"
      have stored: "store_bytes buf len t = Inr buf'"
        using t True by (simp add: store_bytes_eq buf'_def)
      have con': "contents buf' len t" and pre: "contents buf' 0 s"
        using t True con len by (simp_all add: buf'_def contents_stored contents_before)
      then have both: "contents buf' 0 (s @ t)" using len by (simp add: contents_append)
      have len': "length buf' = length buf" using t True by (simp add: buf'_def)
      note scan = scan_newline_contents [OF con']
      show ?thesis
      proof (cases "index_of nl t")
        case None
        then have "nl \<notin> set t" by (simp add: index_of_None_iff)
        moreover have "drop (length (s @ t @ stream_of evs')) buf' = drop (length (s @ t @ stream_of evs')) buf"
          using len t True by (simp add: buf'_def ac_simps)
        moreover have none: "scan_newline buf' len (length t) = Inr None" using scan None by simp
        moreover have "length (s @ t) = len + length t" using len by simp
        ultimately show ?thesis
          using IH_got [OF True r [symmetric] Got stored none refl both] True r Got len None stored len' st
          by (simp add: unfold)
      next
        case (Some i)
        from index_of_SomeD [OF Some] have i: "i < length t" "nl \<in> set t" by (simp, metis nth_mem)
        have "contents buf' 0 (s @ take i t)"
          using both by (metis append_assoc append_take_drop_id contents_append)
        from load_bytes_contents [OF this] have "load_bytes buf' 0 (len + i) = Inr (s @ take i t)"
          using i len by simp
        with True r Got len Some stored scan len' st i show ?thesis
          by (simp add: unfold line_of_def)
      qed
    qed
  qed
qed

lemma contents_uninitialised [simp]: "length (uninitialised n) = n"
  by (simp add: uninitialised_def)

section \<open>The command line of the keychain\<close>

text \<open>
  The static variables of \<open>clock_poll_serial\<close>, which start zeroed: the 32 bytes of \<open>line\<close>,
  \<open>len\<close> and \<open>overflow\<close>.
\<close>

record serial_memory =
  sm_line :: memory
  sm_len :: nat
  sm_overflow :: bool

definition serial_memory_init :: serial_memory where
  "serial_memory_init = \<lparr>sm_line = zeroed 32, sm_len = 0, sm_overflow = False\<rparr>"

fun clock_poll_serial_memory ::
    "'w board \<Rightarrow> string \<Rightarrow> serial_memory \<Rightarrow> clock \<Rightarrow> 'w \<Rightarrow> (string \<times> serial_memory \<times> clock \<times> 'w) cxx" where
  "clock_poll_serial_memory B [] s c w = Inr ('''', s, c, w)"
| "clock_poll_serial_memory B (ch # input) s c w =
     (if ch = CHR 0x0D then clock_poll_serial_memory B input s c w
      else if ch \<noteq> nl then
        (if sm_len s < length (sm_line s) - 1
         then bind_cxx (store (sm_line s) (sm_len s) ch) (\<lambda>l.
                clock_poll_serial_memory B input (s\<lparr>sm_line := l, sm_len := sm_len s + 1\<rparr>) c w)
         else clock_poll_serial_memory B input (s\<lparr>sm_overflow := True\<rparr>) c w)
      else
        bind_cxx (store (sm_line s) (sm_len s) (CHR 0x00)) (\<lambda>l.
        bind_cxx (if sm_overflow s then Inr ('''', c, w)
                  else bind_cxx (load_c_str l 0) (\<lambda>cmd. Inr (handle_command B cmd c w)))
          (\<lambda>(out, c1, w1).
             bind_cxx (clock_poll_serial_memory B input \<lparr>sm_line = l, sm_len = 0, sm_overflow = False\<rparr> c1 w1)
               (\<lambda>(outs, rest). Inr (out @ outs, rest)))))"

text \<open>The array holds the line the other model keeps as a string.\<close>

definition line_held :: "serial_memory \<Rightarrow> serial \<Rightarrow> bool" where
  "line_held sm s \<longleftrightarrow>
     length (sm_line sm) = 32 \<and> sm_len sm = length (line s) \<and> length (line s) \<le> 31 \<and>
     contents (sm_line sm) 0 (line s) \<and> sm_overflow sm = overflow s"

lemma contents_store:
  assumes "contents m 0 t" and "length t < length m"
  shows "store m (length t) c = Inr (m[length t := Some c])" "contents (m[length t := Some c]) 0 (t @ [c])"
  using assms by (auto simp: store_def contents_append contents_Cons) (simp add: contents_def)

lemma clock_poll_serial_memory_eq:
  assumes "line_held sm s"
  shows "\<exists>sm'. clock_poll_serial_memory B input sm c w =
      Inr (case clock_poll_serial B input s c w of (out, s', c', w') \<Rightarrow> (out, sm', c', w')) \<and>
    line_held sm' (fst (snd (clock_poll_serial B input s c w)))"
  using assms
proof (induction input arbitrary: sm s c w)
  case Nil
  then show ?case by simp
next
  case (Cons ch input)
  note held = Cons.prems [unfolded line_held_def]
  consider "ch = CHR 0x0D" | "ch \<noteq> CHR 0x0D" "ch \<noteq> nl" | "ch = nl" by blast
  then show ?case
  proof cases
    case 1
    with Cons show ?thesis by simp
  next
    case 2
    show ?thesis
    proof (cases "length (line s) < 31")
      case True
      let ?l = "(sm_line sm)[sm_len sm := Some ch]"
      have st: "store (sm_line sm) (sm_len sm) ch = Inr ?l" "contents ?l 0 (line s @ [ch])"
        using contents_store [of "sm_line sm" "line s" ch] held by auto
      then have "line_held (sm\<lparr>sm_line := ?l, sm_len := sm_len sm + 1\<rparr>) (s\<lparr>line := line s @ [ch]\<rparr>)"
        using held True by (simp add: line_held_def)
      from Cons.IH [OF this, of c w] show ?thesis using 2 True held st(1) by simp
    next
      case False
      have "line_held (sm\<lparr>sm_overflow := True\<rparr>) (s\<lparr>overflow := True\<rparr>)"
        using held by (simp add: line_held_def)
      from Cons.IH [OF this, of c w] show ?thesis using 2 False held by simp
    qed
  next
    case 3
    let ?l = "(sm_line sm)[sm_len sm := Some (CHR 0x00)]"
    have st: "store (sm_line sm) (sm_len sm) (CHR 0x00) = Inr ?l" "contents ?l 0 (line s @ [CHR 0x00])"
      using contents_store [of "sm_line sm" "line s" "CHR 0x00"] held by auto
    note cmd = load_c_str_contents [OF st(2)]
    obtain out c1 w1 where h: "(if overflow s then ('''', c, w) else handle_command B (c_str (line s)) c w) = (out, c1, w1)"
      by (metis prod_cases3)
    have "line_held \<lparr>sm_line = ?l, sm_len = 0, sm_overflow = False\<rparr> serial_init"
      using held by (simp add: line_held_def serial_init_def)
    from Cons.IH [OF this, of c1 w1] show ?thesis
      using 3 held st(1) cmd h by (auto split: prod.splits if_splits)
  qed
qed

section \<open>The code on its way to the screen\<close>

text \<open>
  \<open>snprintf(out, OTP_DIGITS + 1, ...)\<close> writes the digits and a NUL; \<open>display_show_code\<close> copies
  eight of them, with a space, into \<open>grouped\<close> and prints that as a C string; \<open>loop\<close> holds the
  code in an array of its own and overwrites it when it has been drawn.
\<close>

definition format_code_memory :: "u32 \<Rightarrow> memory \<Rightarrow> memory cxx" where
  "format_code_memory code out = store_bytes out 0 (format_code code @ [CHR 0x00])"

definition grouped_memory :: "memory \<Rightarrow> memory cxx" where
  "grouped_memory code =
     bind_cxx (load_bytes code 0 4) (\<lambda>a.
     bind_cxx (load_bytes code 4 4) (\<lambda>b.
       store_bytes (uninitialised 10) 0 (a @ '' '' @ b @ [CHR 0x00])))"

definition display_show_code_memory ::
    "memory \<Rightarrow> string \<Rightarrow> u32 \<Rightarrow> u32 \<Rightarrow> draw_op list cxx" where
  "display_show_code_memory code ident seconds_left step_seconds =
     bind_cxx (grouped_memory code) (\<lambda>grouped.
     bind_cxx (load_c_str grouped 0) (\<lambda>shown.
     bind_cxx (draw_time_left seconds_left step_seconds) (\<lambda>left.
       Inr ([Clear, Text_color WHITE, Text_size 2,
             Cursor ((SCREEN_WIDTH - 9 * 12) div 2) 0, Print shown,
             Text_size 1, Cursor 0 (SCREEN_HEIGHT - 8), Print ident] @ left @ [Flush]))))"

text \<open>The branch of \<open>loop\<close> that draws a code: what it draws, and its array at the end.\<close>

definition draw_code_memory :: "u32 \<Rightarrow> string \<Rightarrow> u32 \<Rightarrow> (draw_op list \<times> memory) cxx" where
  "draw_code_memory otp ident now =
     bind_cxx (format_code_memory otp (uninitialised (OTP_DIGITS + 1))) (\<lambda>code.
     bind_cxx (display_show_code_memory code ident (otp_seconds_left now) 90) (\<lambda>ops.
       Inr (ops, zeroed (length code))))"

lemma length_format_code: "length (format_code otp) = 8"
  by (simp add: format_code_def OTP_DIGITS_def zero_pad_def)

lemma draw_code_memory_eq:
  "draw_code_memory otp ident now =
    bind_cxx (display_show_code (format_code otp) ident (otp_seconds_left now) 90) (\<lambda>ops. Inr (ops, zeroed 9))"
proof -
  let ?c = "format_code otp"
  let ?code = "map Some (?c @ [CHR 0x00])"
  note len = length_format_code [of otp]
  have code: "format_code_memory otp (uninitialised 9) = Inr ?code"
    using len by (simp add: format_code_memory_def store_bytes_eq del: store_bytes.simps)
  have nine: "OTP_DIGITS + 1 = 9" by (simp add: OTP_DIGITS_def)
  have "contents ?code 0 ?c" by (simp add: contents_def)
  then have "contents ?code 0 (take 4 ?c)" "contents ?code 4 (drop 4 ?c)"
    using contents_append [of ?code 0 "take 4 ?c" "drop 4 ?c"] len by simp_all
  then have parts: "load_bytes ?code 0 4 = Inr (take 4 ?c)" "load_bytes ?code 4 4 = Inr (drop 4 ?c)"
    using load_bytes_contents [of ?code 0 "take 4 ?c"] load_bytes_contents [of ?code 4 "drop 4 ?c"] len
    by simp_all
  let ?g = "take 4 ?c @ '' '' @ drop 4 ?c"
  have "grouped_memory ?code = Inr (map Some (?g @ [CHR 0x00]))"
    using len parts store_bytes_eq [of 0 "?g @ [CHR 0x00]" "uninitialised 10"]
    by (simp add: grouped_memory_def uninitialised_def del: store_bytes.simps)
  moreover have "contents (map Some (?g @ [CHR 0x00])) 0 (?g @ [CHR 0x00])"
    by (simp only: contents_def) simp
  then have "load_c_str (map Some (?g @ [CHR 0x00])) 0 = Inr (c_str ?g)"
    by (rule load_c_str_contents)
  moreover have "take 4 (drop 4 (?c @ [CHR 0x00])) = drop 4 ?c" using len by simp
  ultimately show ?thesis
    using len
    by (simp add: draw_code_memory_def nine [simplified] code display_show_code_memory_def display_show_code_def Let_def
        bind_cxx_def split: sum.splits)
qed

section \<open>Properties\<close>

text \<open>
  C26. The request buffers of both daemons are safe whatever arrives, in whatever chunks: no byte is
  stored outside the array, no byte is read that \<open>read\<close> has not stored, and the line is the one
  the string model of \<open>read_line\<close> gives. The verifier leaves its buffer zeroed, except where the
  peer goes away in the middle of a line: then the part of the request that came stays in it.
\<close>

theorem request_buffers_safe:
  "let st = stream_of evs in
   verifier_read_line_memory evs =
     Inr (fst (verifier_read_line evs),
          (if length st < 65 \<and> nl \<notin> set st then map Some st @ uninitialised (65 - length st) else zeroed 65),
          snd (verifier_read_line evs)) \<and>
   (\<exists>buf. admin_read_line_memory evs = Inr (fst (admin_read_line evs), buf, snd (admin_read_line evs)) \<and>
      length buf = 129)"
proof -
  have start: "contents (uninitialised n) 0 ''''" for n by simp
  obtain e buf where v: "read_line_memory (uninitialised 65) 0 evs = Inr (e, buf, snd (verifier_read_line evs))"
    "line_of e = fst (verifier_read_line evs)" "length buf = 65"
    "e = Read_failed \<longleftrightarrow> length (stream_of evs) < 65 \<and> nl \<notin> set (stream_of evs)"
    "e = Read_failed \<longrightarrow> buf = map Some (stream_of evs) @ drop (length (stream_of evs)) (uninitialised 65)"
    using read_line_memory_eq [OF start [of 65] list.size(3), of evs]
    by (auto simp: verifier_read_line_def VERIFIER_MAX_REQUEST_def)
  moreover have "drop n (uninitialised 65) = uninitialised (65 - n)" for n
    by (simp add: uninitialised_def)
  moreover have "\<exists>buf. admin_read_line_memory evs = Inr (fst (admin_read_line evs), buf, snd (admin_read_line evs)) \<and>
      length buf = 129"
    using read_line_memory_eq [OF start [of 129] list.size(3), of evs]
    by (auto simp: admin_read_line_memory_def admin_read_line_def ADMIN_MAX_REQUEST_def)
  ultimately show ?thesis
    by (auto simp: verifier_read_line_memory_def VERIFIER_MAX_REQUEST_def Let_def)
qed

text \<open>
  C27. The command buffer of the keychain is safe for every input on the serial port: the 32 bytes
  are never left, however long the lines are, the command that is parsed ends at a NUL inside the
  array, and replies, clock and board end up as in the string model of \<open>clock_poll_serial\<close>, again
  in a state from which the next call is safe.
\<close>

theorem serial_buffer_safe:
  assumes "line_held sm s"
  shows "\<exists>sm'. clock_poll_serial_memory B input sm c w =
      Inr (case clock_poll_serial B input s c w of (out, s', c', w') \<Rightarrow> (out, sm', c', w')) \<and>
    line_held sm' (fst (snd (clock_poll_serial B input s c w)))"
  by (rule clock_poll_serial_memory_eq [OF assms])

theorem serial_buffer_safe_witness:
  "line_held serial_memory_init serial_init \<and>
   (\<exists>sm' out s' c' w'. clock_poll_serial_memory sample_board (replicate 40 (CHR ''A'') @ [nl])
      serial_memory_init clock_power_on sample_hw = Inr (out, sm', c', w'))"
proof
  show init: "line_held serial_memory_init serial_init"
    by (simp add: line_held_def serial_memory_init_def serial_init_def zeroed_def)
  let ?input = "replicate 40 (CHR ''A'') @ [nl]"
  obtain out s' c' w' where p: "clock_poll_serial sample_board ?input serial_init clock_power_on sample_hw =
      (out, s', c', w')" by (metis prod_cases4)
  from serial_buffer_safe [OF init, of sample_board ?input clock_power_on sample_hw]
  obtain sm' where "clock_poll_serial_memory sample_board ?input serial_memory_init clock_power_on sample_hw =
      Inr (out, sm', c', w')" by (auto simp only: p prod.case)
  then show "\<exists>sm' out s' c' w'. clock_poll_serial_memory sample_board ?input
      serial_memory_init clock_power_on sample_hw = Inr (out, sm', c', w')" by blast
qed

text \<open>
  C28. The arrays a code passes through are safe for every 32-bit code: the nine bytes of \<open>loop\<close>'s
  \<open>code\<close> take the digits and the NUL, the ten of \<open>grouped\<close> the two groups, the space and the NUL.
  What is drawn is what the string model draws, and \<open>loop\<close> leaves no digit in its array.
\<close>

theorem code_arrays_safe:
  "draw_code_memory otp ident now =
    bind_cxx (display_show_code (format_code otp) ident (otp_seconds_left now) 90) (\<lambda>ops. Inr (ops, zeroed 9)) \<and>
   (\<exists>ops. draw_code_memory otp ident now = Inr (ops, zeroed 9))"
  unfolding draw_code_memory_eq
  using length_format_code [of otp] by (simp add: display_show_code_def draw_time_left_def Let_def)

end
