(* ===== verification/Auth_Client.thy ===== *)
theory Auth_Client
  imports Verifier
begin

text \<open>
  The web tier's client of the verifier, \<open>auth-web/src/verifier.js\<close>: what it makes of the two
  fields of the login form, the request it sends, and what it makes of the daemon's reply.

  A JavaScript string is a list of 16-bit code units. \<open>toUpperCase\<close>, which rests on the Unicode
  tables, is a parameter. White space is the set that both \<open>trim\<close> and the class \<open>\s\<close> use.
\<close>

section \<open>Fields of the form\<close>

type_synonym js_string = "16 word list"

definition code_unit :: "char \<Rightarrow> 16 word" where
  "code_unit c = of_char c"

definition units :: "string \<Rightarrow> js_string" where
  "units s = map code_unit s"

definition js_space :: "16 word \<Rightarrow> bool" where
  "js_space c \<longleftrightarrow>
     9 \<le> c \<and> c \<le> 13 \<or> c = 0x20 \<or> c = 0xA0 \<or> c = 0x1680 \<or> 0x2000 \<le> c \<and> c \<le> 0x200A \<or>
     c = 0x2028 \<or> c = 0x2029 \<or> c = 0x202F \<or> c = 0x205F \<or> c = 0x3000 \<or> c = 0xFEFF"

definition js_trim :: "js_string \<Rightarrow> js_string" where
  "js_trim s = rev (dropWhile js_space (rev (dropWhile js_space s)))"

text \<open>\<open>String(raw ?? '')\<close>: \<open>None\<close> is a field the form did not send.\<close>

definition js_text :: "js_string option \<Rightarrow> js_string" where
  "js_text raw = (case raw of Some s \<Rightarrow> s | None \<Rightarrow> [])"

definition without_separators :: "js_string \<Rightarrow> js_string" where
  "without_separators s = filter (\<lambda>c. \<not> (js_space c \<or> c = code_unit (CHR ''-''))) s"

definition normalizeId :: "(js_string \<Rightarrow> js_string) \<Rightarrow> js_string option \<Rightarrow> js_string" where
  "normalizeId toUpperCase raw =
     map (\<lambda>c. if c = code_unit (CHR ''I'') \<or> c = code_unit (CHR ''L'') then code_unit (CHR ''1'') else c)
       (map (\<lambda>c. if c = code_unit (CHR ''O'') then code_unit (CHR ''0'') else c)
         (without_separators (toUpperCase (js_trim (js_text raw)))))"

definition normalizeCode :: "js_string option \<Rightarrow> js_string" where
  "normalizeCode raw = without_separators (js_text raw)"

definition unit_in :: "char \<Rightarrow> char \<Rightarrow> 16 word \<Rightarrow> bool" where
  "unit_in a b c \<longleftrightarrow> code_unit a \<le> c \<and> c \<le> code_unit b"

text \<open>\<open>ID_RE\<close>, the class \<open>[0-9A-HJKMNP-TV-Z]\<close> four to eight times, and \<open>CODE_RE\<close>.\<close>

definition id_unit :: "16 word \<Rightarrow> bool" where
  "id_unit c \<longleftrightarrow>
     unit_in (CHR ''0'') (CHR ''9'') c \<or> unit_in (CHR ''A'') (CHR ''H'') c \<or>
     c = code_unit (CHR ''J'') \<or> c = code_unit (CHR ''K'') \<or> c = code_unit (CHR ''M'') \<or>
     c = code_unit (CHR ''N'') \<or> unit_in (CHR ''P'') (CHR ''T'') c \<or> unit_in (CHR ''V'') (CHR ''Z'') c"

definition isValidId :: "js_string \<Rightarrow> bool" where
  "isValidId i \<longleftrightarrow> 4 \<le> length i \<and> length i \<le> 8 \<and> list_all id_unit i"

definition isValidCode :: "js_string \<Rightarrow> bool" where
  "isValidCode c \<longleftrightarrow> length c = 8 \<and> list_all (unit_in (CHR ''0'') (CHR ''9'')) c"

text \<open>The bytes of a string of ASCII characters, as the socket sends them.\<close>

definition ascii_bytes :: "js_string \<Rightarrow> string" where
  "ascii_bytes s = map (\<lambda>u. char_of (unat u)) s"

section \<open>Asking the daemon\<close>

definition MAX_REPLY :: nat where "MAX_REPLY = 64"

text \<open>
  What happens on the socket, in order: the data as it is decoded, the end of the stream, an
  error, or the timer. Nothing more is the timer, too. The first line feed ends the wait.
\<close>

datatype sock_event = Data string | Sock_end | Sock_error | Timer

fun ask_reply :: "string \<Rightarrow> sock_event list \<Rightarrow> string option" where
  "ask_reply reply [] = None"
| "ask_reply reply (Data chunk # evs) =
     (let reply' = reply @ chunk in
      case index_of nl reply' of
        Some i \<Rightarrow> Some (take i reply')
      | None \<Rightarrow> if MAX_REPLY < length reply' then None else ask_reply reply' evs)"
| "ask_reply reply (ev # evs) = None"

text \<open>The pattern \<open>^OK (\d{1,15})$\<close>; a number of up to 15 digits is exact in a double.\<close>

definition parse_ok :: "string \<Rightarrow> nat option" where
  "parse_ok reply =
     (let ds = drop 3 reply
      in if take 3 reply = ''OK '' \<and> 1 \<le> length ds \<and> length ds \<le> 15 \<and> list_all is_digit ds
         then Some (dec_value ds) else None)"

definition verify_line :: "js_string \<Rightarrow> js_string \<Rightarrow> string" where
  "verify_line ident code = ''VERIFY '' @ ascii_bytes ident @ '' '' @ ascii_bytes code @ [nl]"

text \<open>
  \<open>verify\<close>, on the events of the socket it opens: \<open>None\<close> is \<open>{ ok: false }\<close>. For a malformed
  field it opens none.
\<close>

definition client_verify :: "js_string \<Rightarrow> js_string \<Rightarrow> sock_event list \<Rightarrow> nat option" where
  "client_verify ident code evs =
     (if \<not> isValidId ident \<or> \<not> isValidCode code then None
      else case ask_reply '''' evs of None \<Rightarrow> None | Some reply \<Rightarrow> parse_ok reply)"

datatype device_status = Active | Inactive | Status_error

definition client_status :: "js_string \<Rightarrow> sock_event list \<Rightarrow> device_status" where
  "client_status ident evs =
     (if \<not> isValidId ident then Inactive
      else case ask_reply '''' evs of
        None \<Rightarrow> Status_error
      | Some reply \<Rightarrow>
          if reply = ''ACTIVE'' then Active
          else if reply = ''INACTIVE'' then Inactive else Status_error)"

section \<open>The two copies of the identifier check\<close>

lemma unat_code_unit: "unat (code_unit c) = of_char c"
proof -
  have "(of_char c :: nat) < 256" by simp
  then have "(of_char c :: nat) < 2 ^ 16" by (rule less_trans) simp
  moreover have "code_unit c = word_of_nat (of_char c)" by (simp only: code_unit_def of_nat_of_char)
  ultimately show ?thesis by (simp add: unat_of_nat)
qed

lemma code_unit_le: "code_unit a \<le> code_unit b \<longleftrightarrow> a \<le> b"
  by (simp add: word_le_nat_alt unat_code_unit less_eq_char_def)

lemma code_unit_eq [simp]: "code_unit a = code_unit b \<longleftrightarrow> a = b"
  using code_unit_le [of a b] code_unit_le [of b a] by auto

lemma char_of_code_unit [simp]: "char_of (unat (code_unit c)) = c"
  by (simp add: unat_code_unit)

lemma unit_in_code_unit [simp]: "unit_in a b (code_unit c) \<longleftrightarrow> a \<le> c \<and> c \<le> b"
  by (simp add: unit_in_def code_unit_le)

lemma unit_in_ascii: "unit_in a b u \<Longrightarrow> \<exists>c. u = code_unit c"
proof -
  assume "unit_in a b u"
  then have "unat u \<le> of_char b" by (simp add: unit_in_def word_le_nat_alt unat_code_unit)
  then have u: "unat u < 256" by (rule le_less_trans) simp
  have "u = code_unit (char_of (unat u))"
    by (rule word_unat_eq_iff [THEN iffD2]) (simp add: unat_code_unit u take_bit_eq_mod)
  then show ?thesis ..
qed

lemma id_unit_ascii: "id_unit u \<Longrightarrow> \<exists>c. u = code_unit c"
  unfolding id_unit_def by (blast dest: unit_in_ascii)

lemma char_eq_code: "c = d \<longleftrightarrow> (of_char c :: nat) = of_char d"
  by (metis order_antisym less_eq_char_def order_refl)

lemma id_unit_code_unit [simp]: "id_unit (code_unit c) \<longleftrightarrow> crockford_char c"
  unfolding id_unit_def crockford_char_def unit_in_code_unit code_unit_eq char_eq_code [of c]
    less_eq_char_def less_char_def
  by simp presburger

lemma units_of_list_all:
  assumes "list_all Q s" and "\<And>u. Q u \<Longrightarrow> \<exists>c. u = code_unit c"
  obtains t where "s = units t"
proof -
  from assms have "\<exists>t. s = units t"
  proof (induction s)
    case Nil
    then show ?case by (simp add: units_def)
  next
    case (Cons u s)
    then obtain t where "s = units t" by auto
    moreover obtain c where "u = code_unit c" using Cons.prems by auto
    ultimately have "u # s = units (c # t)" by (simp add: units_def)
    then show ?case ..
  qed
  with that show thesis by blast
qed

lemma length_units [simp]: "length (units s) = length s"
  by (simp add: units_def)

lemma ascii_bytes_units [simp]: "ascii_bytes (units s) = s"
  by (simp add: ascii_bytes_def units_def map_idI)

lemma isValidId_units [simp]: "isValidId (units s) \<longleftrightarrow> valid_device_id s"
  by (simp add: isValidId_def valid_device_id_iff units_def list_all_iff)

lemma isValidId_iff: "isValidId i \<longleftrightarrow> (\<exists>s. valid_device_id s \<and> i = units s)"
proof
  assume i: "isValidId i"
  then have "list_all id_unit i" by (simp add: isValidId_def)
  then obtain s where "i = units s" by (rule units_of_list_all) (rule id_unit_ascii)
  with i show "\<exists>s. valid_device_id s \<and> i = units s" by auto
qed auto

lemma isValidCode_iff:
  "isValidCode c \<longleftrightarrow> (\<exists>s. length s = 8 \<and> (\<forall>x \<in> set s. is_digit x) \<and> c = units s)"
proof
  assume c: "isValidCode c"
  then have "list_all (unit_in (CHR ''0'') (CHR ''9'')) c" by (simp add: isValidCode_def)
  then obtain s where "c = units s" by (rule units_of_list_all) (rule unit_in_ascii)
  with c show "\<exists>s. length s = 8 \<and> (\<forall>x \<in> set s. is_digit x) \<and> c = units s"
    by (auto simp: isValidCode_def units_def list_all_iff is_digit_def)
qed (auto simp: isValidCode_def units_def list_all_iff is_digit_def)

section \<open>What the client makes of a reply\<close>

text \<open>The data that arrives before anything else happens on the socket.\<close>

fun data_of :: "sock_event list \<Rightarrow> string" where
  "data_of (Data chunk # evs) = chunk @ data_of evs"
| "data_of _ = ''''"

lemma ask_reply_line:
  "ask_reply reply evs = Some l \<Longrightarrow> nl \<notin> set l \<and> prefix (l @ [nl]) (reply @ data_of evs)"
proof (induction reply evs rule: ask_reply.induct)
  case (2 reply chunk evs)
  show ?case
  proof (cases "index_of nl (reply @ chunk)")
    case None
    with 2 show ?thesis by (auto split: if_splits)
  next
    case (Some i)
    define s where "s = reply @ chunk"
    have l: "l = take i s" and i: "index_of nl s = Some i" using 2(2) Some by (simp_all add: s_def)
    have "s = l @ nl # drop (Suc i) s" using index_of_split [OF i] l by simp
    then have "prefix (l @ [nl]) s" by (metis append.assoc append_Cons append_Nil prefixI)
    then have "prefix (l @ [nl]) (s @ data_of evs)" by (rule prefix_prefix)
    then show ?thesis using index_of_SomeD [OF i] l by (simp add: s_def)
  qed
qed simp_all

text \<open>Two texts cut at their first line feeds.\<close>

lemma first_line_unique:
  assumes "prefix (l @ [nl]) s" and "prefix s (body @ [nl])" and "nl \<notin> set l" and "nl \<notin> set body"
  shows "l = body"
proof -
  from assms(1,2) have "prefix (l @ [nl]) (body @ [nl])" by (rule prefix_order.trans)
  then obtain z where "l @ nl # z = body @ [nl]" by (auto simp: prefix_def)
  then have "index_of nl (l @ nl # z) = index_of nl (body @ [nl])" by simp
  then have "length l = length body"
    using index_of_append [OF assms(3), of z] index_of_append [OF assms(4), of "[]"] by simp
  with \<open>l @ nl # z = body @ [nl]\<close> show ?thesis by simp
qed

lemma ask_reply_of_daemon:
  assumes "ask_reply '''' evs = Some l" and "prefix (data_of evs) (body @ [nl])" and "nl \<notin> set body"
  shows "l = body"
  using first_line_unique [of l "data_of evs" body] ask_reply_line [OF assms(1)] assms(2,3) by simp

lemma newline_in_prefix:
  assumes "prefix (body @ [nl]) (s @ t)" and "nl \<notin> set body"
  shows "nl \<in> set s \<Longrightarrow> index_of nl s = Some (length body) \<and> take (length body) s = body"
    and "nl \<notin> set s \<Longrightarrow> length s \<le> length body"
proof -
  from assms(1) obtain z where z: "body @ nl # z = s @ t" by (auto simp: prefix_def)
  show "length s \<le> length body" if "nl \<notin> set s"
  proof (rule ccontr)
    assume "\<not> length s \<le> length body"
    then have "s ! length body = nl" using arg_cong [OF z, of "\<lambda>x. x ! length body"] by (simp add: nth_append)
    with that \<open>\<not> length s \<le> length body\<close> show False by (metis not_le nth_mem)
  qed
  assume "nl \<in> set s"
  then obtain i where i: "index_of nl s = Some i"
    using index_of_None_iff [of nl s] by (cases "index_of nl s") auto
  then have "index_of nl (s @ t) = Some i" by (rule index_of_append_Some)
  then have "i = length body" using index_of_append [OF assms(2), of z] z by simp
  moreover have "take (length body) (s @ t) = body" by (simp flip: z)
  ultimately show "index_of nl s = Some (length body) \<and> take (length body) s = body"
    using i index_of_SomeD [OF i] by simp
qed

lemma ask_reply_complete:
  assumes "prefix (body @ [nl]) (reply @ data_of evs)" and "nl \<notin> set body" and "length body \<le> 64"
    and "nl \<notin> set reply"
  shows "ask_reply reply evs = Some body"
  using assms(1,4)
proof (induction reply evs rule: ask_reply.induct)
  case (2 reply chunk evs)
  from 2(2) have pre: "prefix (body @ [nl]) ((reply @ chunk) @ data_of evs)" by simp
  show ?case
  proof (cases "nl \<in> set (reply @ chunk)")
    case True
    with newline_in_prefix(1) [OF pre assms(2)] show ?thesis by simp
  next
    case False
    then have none: "index_of nl (reply @ chunk) = None" by (simp add: index_of_None_iff)
    have "length (reply @ chunk) \<le> 64"
      using newline_in_prefix(2) [OF pre assms(2) False] assms(3) by simp
    then have short: "\<not> MAX_REPLY < length (reply @ chunk)" by (simp add: MAX_REPLY_def)
    show ?thesis
      using "2.IH" [OF refl none short pre False] none short by simp
  qed
qed (auto simp: prefix_def dest!: arg_cong [of _ _ set])

lemma parse_ok_OK:
  "n < 10 ^ 15 \<Longrightarrow> parse_ok (''OK '' @ nat_to_string n) = Some n"
proof -
  assume "n < 10 ^ 15"
  then have "length (nat_to_string n) \<le> 15" by (intro length_nat_to_string_le) simp_all
  moreover have "nat_to_string n \<noteq> []" by (simp add: nat_to_string.simps [of n])
  ultimately show ?thesis
    by (auto simp: parse_ok_def Let_def list_all_iff Suc_le_eq dest: nat_to_string_digits)
qed

lemma parse_ok_SomeD:
  assumes "parse_ok (''OK '' @ nat_to_string n) = Some m"
  shows "m = n" "n < 10 ^ 15"
proof -
  from assms have l: "length (nat_to_string n) \<le> 15" "m = dec_value (nat_to_string n)"
    by (auto simp: parse_ok_def Let_def split: if_splits)
  then show "m = n" by simp
  have "dec_value (nat_to_string n) < 10 ^ length (nat_to_string n)"
    by (rule dec_value_less) (auto dest: nat_to_string_digits)
  also have "\<dots> \<le> 10 ^ 15" using l(1) by (intro power_increasing) simp_all
  finally show "n < 10 ^ 15" by simp
qed

lemma counter_text:
  fixes c :: u64
  shows "nl \<notin> set (''OK '' @ nat_to_string (unat c))" "length (''OK '' @ nat_to_string (unat c)) \<le> 64"
proof -
  have "unat c < 2 ^ 64" using unsigned_less [of c] by simp
  then have "unat c < 10 ^ 20" by (rule less_le_trans) simp
  then have "length (nat_to_string (unat c)) \<le> 20" by (intro length_nat_to_string_le) simp_all
  then show "length (''OK '' @ nat_to_string (unat c)) \<le> 64" by simp
  show "nl \<notin> set (''OK '' @ nat_to_string (unat c))"
    by (auto dest: nat_to_string_digits is_digit_special)
qed

lemma verifier_reply_cases:
  assumes "reply \<in> verifier_replies"
  obtains body where "reply = body @ [nl]" "nl \<notin> set body" "length body \<le> 64"
    "take 3 body \<noteq> ''OK '' \<or> (\<exists>c :: u64. body = ''OK '' @ nat_to_string (unat c))"
proof -
  from assms consider (word) w where "w \<in> {''NO'', ''ERR'', ''ACTIVE'', ''INACTIVE''}" "reply = w @ [nl]"
    | (ok) c :: u64 where "reply = (''OK '' @ nat_to_string (unat c)) @ [nl]"
    unfolding verifier_replies_def append_assoc by blast
  then show thesis
  proof cases
    case word
    then show thesis using that [of w] by auto
  next
    case ok
    then show thesis using that counter_text [of c] by blast
  qed
qed

lemma ask_reply_iff:
  assumes "reply = body @ [nl]" and "nl \<notin> set body" and "length body \<le> 64" and "prefix (data_of evs) reply"
  shows "ask_reply '''' evs = Some l \<longleftrightarrow> l = body \<and> data_of evs = reply"
proof
  assume a: "ask_reply '''' evs = Some l"
  have l: "l = body" using ask_reply_of_daemon [OF a _ assms(2)] assms(1,4) by simp
  moreover have "prefix reply (data_of evs)" using ask_reply_line [OF a] l assms(1) by simp
  ultimately show "l = body \<and> data_of evs = reply" using assms(4) by (simp add: prefix_order.antisym)
next
  assume "l = body \<and> data_of evs = reply"
  then show "ask_reply '''' evs = Some l"
    using ask_reply_complete [of body "''''" evs] assms(1-3) by simp
qed

lemma ask_reply_eq:
  assumes "reply = body @ [nl]" and "nl \<notin> set body" and "length body \<le> 64" and "prefix (data_of evs) reply"
  shows "ask_reply '''' evs = (if data_of evs = reply then Some body else None)"
proof (cases "data_of evs = reply")
  case True
  then show ?thesis using ask_reply_iff [OF assms, of body] by (simp only: if_True simp_thms)
next
  case False
  then have "ask_reply '''' evs \<noteq> Some l" for l using ask_reply_iff [OF assms, of l] by blast
  then have "ask_reply '''' evs = None" by (metis option.exhaust)
  with False show ?thesis by (simp only: if_False)
qed

lemma client_verify_iff:
  assumes "reply \<in> verifier_replies" and "prefix (data_of evs) reply"
  shows "client_verify ident code evs = Some n \<longleftrightarrow>
    isValidId ident \<and> isValidCode code \<and> data_of evs = reply \<and>
    reply = ''OK '' @ nat_to_string n @ [nl] \<and> n < 10 ^ 15"
proof -
  obtain body where body: "reply = body @ [nl]" "nl \<notin> set body" "length body \<le> 64"
    and ok: "take 3 body \<noteq> ''OK '' \<or> (\<exists>c :: u64. body = ''OK '' @ nat_to_string (unat c))"
    using verifier_reply_cases [OF assms(1)] .
  have "body = ''OK '' @ nat_to_string n \<and> n < 10 ^ 15" if p: "parse_ok body = Some n"
  proof -
    have "take 3 body = ''OK ''" using p by (auto simp: parse_ok_def Let_def split: if_splits)
    with ok obtain c :: u64 where c: "body = ''OK '' @ nat_to_string (unat c)" by blast
    with parse_ok_SomeD [of "unat c" n] p show ?thesis by simp
  qed
  then have "parse_ok body = Some n \<longleftrightarrow> body = ''OK '' @ nat_to_string n \<and> n < 10 ^ 15"
    using parse_ok_OK by blast
  moreover note ask_reply_eq [OF body assms(2)]
  moreover have "body = ''OK '' @ nat_to_string n \<longleftrightarrow> reply = ''OK '' @ nat_to_string n @ [nl]"
    unfolding body(1) append_assoc [symmetric] append_same_eq ..
  ultimately show ?thesis
    unfolding client_verify_def by (simp split: if_split) blast
qed

lemma client_verify_OK:
  assumes "valid_device_id ident" and "isValidCode code" and "n < 10 ^ 15"
  shows "client_verify (units ident) code [Data (''OK '' @ nat_to_string n @ [nl])] = Some n"
proof -
  have "nl \<notin> set (''OK '' @ nat_to_string n)" by (auto dest: nat_to_string_digits is_digit_special)
  then have "ask_reply '''' [Data ((''OK '' @ nat_to_string n) @ [nl])] = Some (''OK '' @ nat_to_string n)"
    using index_of_append [of nl "''OK '' @ nat_to_string n" "[]"] by simp
  then show ?thesis
    using assms parse_ok_OK [OF assms(3)] by (simp add: client_verify_def)
qed

lemma client_status_iff:
  assumes "reply \<in> verifier_replies" and "prefix (data_of evs) reply" and "isValidId ident"
  shows "client_status ident evs = Active \<longleftrightarrow> data_of evs = reply \<and> reply = ''ACTIVE'' @ [nl]"
proof -
  obtain body where body: "reply = body @ [nl]" "nl \<notin> set body" "length body \<le> 64"
    using verifier_reply_cases [OF assms(1)] .
  moreover note ask_reply_eq [OF body assms(2)]
  moreover have "body = ''ACTIVE'' \<longleftrightarrow> reply = ''ACTIVE'' @ [nl]"
    unfolding body(1) append_same_eq ..
  ultimately show ?thesis
    using assms(3) unfolding client_status_def by simp
qed

section \<open>Properties\<close>

text \<open>
  The two processes understand each other. Auth-web accepts the identifiers the daemon knows and
  no others, and codes of eight ASCII digits. What \<open>verify\<close> returns for such a pair is \<open>ok\<close> with a
  counter exactly if the daemon answered \<open>OK\<close> with that counter and the whole reply arrived,
  however it was cut into chunks; every other reply, a part of one, an error and the timer are a no.
\<close>

theorem client_reads_verdict:
  assumes "hmac_digest_32 H"
    and "verifier_handle_request P H dummy_key now line db = (Inr reply, db')"
    and "verify_line ident code = line @ [nl]" and "prefix (data_of evs) reply"
  shows "client_verify ident code evs = Some n \<longleftrightarrow>
    (\<exists>i c. valid_device_id i \<and> ident = units i \<and> length c = 8 \<and> all_digits c \<and> code = units c \<and>
       line = ''VERIFY '' @ i @ '' '' @ c) \<and>
    data_of evs = reply \<and> reply = ''OK '' @ nat_to_string n @ [nl] \<and> n < 10 ^ 15"
proof -
  have "reply \<in> verifier_replies"
    using verifier_reply_total [OF assms(1), of P dummy_key now line db] assms(2) by auto
  note iff = client_verify_iff [OF this assms(4)]
  have line: "line = ''VERIFY '' @ i @ '' '' @ c" if "ident = units i" "code = units c" for i c
    using assms(3) unfolding that verify_line_def ascii_bytes_units by (simp only: append_assoc [symmetric] append1_eq_conv)
  have "isValidId ident \<and> isValidCode code \<longleftrightarrow>
      (\<exists>i c. valid_device_id i \<and> ident = units i \<and> length c = 8 \<and> all_digits c \<and> code = units c \<and>
         line = ''VERIFY '' @ i @ '' '' @ c)"
    unfolding isValidId_iff isValidCode_iff all_digits_iff using line by blast
  with iff show ?thesis by blast
qed

theorem client_reads_verdict_witness:
  "\<exists>m :: u64. client_verify (units ''7Q5V'') (units (code_string sample_hmac sample_key 20))
     [Data ''O'', Data (''K '' @ nat_to_string (unat m) @ [nl]), Timer] = Some (unat m)"
proof -
  let ?code = "code_string sample_hmac sample_key 20"
  have window: "20 \<in> {1800 div 90 - 1, 1800 div 90, 1800 div 90 + (1 :: u64)}" by simp
  have row: "mem_tbl sample_db ''7Q5V'' = Some (sample_row 1)" by simp
  note verifier_complete [OF mem.sqlite_available_axioms hmac_digest_32_sample sample_db_up sample_ids(1) row _ _ window,
      of "''''", unfolded sample_row_sel c_str_sample_key, OF refl length_sample_key]
  then obtain m :: u64 where m: "fst (verifier_handle_request mem_platform sample_hmac '''' 1800
      (''VERIFY '' @ ''7Q5V'' @ '' '' @ ?code) sample_db) = Inr (''OK '' @ nat_to_string (unat m) @ [nl])"
    and near: "m \<in> {1800 div 90 - 1, 1800 div 90, 1800 div 90 + 1}"
    by (elim bexE conjE)
  let ?reply = "''OK '' @ nat_to_string (unat m) @ [nl]"
  let ?evs = "[Data ''O'', Data (''K '' @ nat_to_string (unat m) @ [nl]), Timer]"
  obtain db' where r: "verifier_handle_request mem_platform sample_hmac '''' 1800
      (''VERIFY '' @ ''7Q5V'' @ '' '' @ ?code) sample_db = (Inr ?reply, db')"
    using m by (metis prod.collapse)
  have line: "verify_line (units ''7Q5V'') (units ?code) = (''VERIFY '' @ ''7Q5V'' @ '' '' @ ?code) @ [nl]"
    by (simp add: verify_line_def)
  have part: "prefix (data_of ?evs) ?reply" by simp
  have "unat m < 10 ^ 15" using near by auto
  moreover have "\<exists>i c. valid_device_id i \<and> units ''7Q5V'' = units i \<and> length c = 8 \<and> all_digits c \<and>
      units ?code = units c \<and> ''VERIFY '' @ ''7Q5V'' @ '' '' @ ?code = ''VERIFY '' @ i @ '' '' @ c"
    by (rule exI [of _ "''7Q5V''"], rule exI [of _ ?code])
       (simp add: code_string_wellformed [OF hmac_digest_32_sample])
  moreover have "data_of ?evs = ?reply" by simp
  ultimately have "client_verify (units ''7Q5V'') (units ?code) ?evs = Some (unat m)"
    using client_reads_verdict [OF hmac_digest_32_sample r line part, of "unat m"] by blast
  then show ?thesis ..
qed

end
