(* ===== verification/Auth_Store.thy ===== *)
theory Auth_Store
  imports Auth_Client
begin

text \<open>
  The state the web tier keeps, \<open>auth-web/src/stores/memory.js\<close>: login sessions, the two attempt
  counters, and the last one-time-code window each device has logged in with. A \<open>Map\<close> is a partial
  function; the keys \<open>"ID:window"\<close> and \<open>"ip:minute"\<close> are pairs. Times are the milliseconds of
  \<open>Date.now()\<close>. Node runs one callback at a time and no operation here awaits anything, so each is
  one step on the state. \<open>stores/redis.js\<close> offers the same operations as Lua scripts.

  \<open>hash\<close>, the hexadecimal SHA-256, is a parameter, and a new token is an argument.
\<close>

section \<open>The state\<close>

record web_config =
  sessionTtlSeconds :: nat
  stepSeconds :: nat
  attemptsPerWindow :: nat
  ipAttemptsPerMinute :: nat

record web_session =
  ws_device :: js_string
  ws_created :: nat
  ws_expires :: nat

record web_store =
  sess :: "string \<rightharpoonup> web_session"
  deviceAttempts :: "js_string \<times> nat \<rightharpoonup> nat"
  ipAttempts :: "string \<times> nat \<rightharpoonup> nat"
  lastCounter :: "js_string \<rightharpoonup> nat \<times> nat"

definition empty_store :: web_store where
  "empty_store =
     \<lparr>sess = Map.empty, deviceAttempts = Map.empty, ipAttempts = Map.empty, lastCounter = Map.empty\<rparr>"

section \<open>The operations\<close>

definition windowOf :: "web_config \<Rightarrow> nat \<Rightarrow> nat" where
  "windowOf cfg ms = ms div 1000 div stepSeconds cfg"

definition minuteOf :: "nat \<Rightarrow> nat" where
  "minuteOf ms = ms div 60000"

text \<open>Keeping the entries of a map that satisfy a test: the loops of \<open>sweep\<close>.\<close>

definition keep_entries :: "('k \<Rightarrow> 'v \<Rightarrow> bool) \<Rightarrow> ('k \<rightharpoonup> 'v) \<Rightarrow> ('k \<rightharpoonup> 'v)" where
  "keep_entries keep m k =
     (case m k of Some v \<Rightarrow> if keep k v then Some v else None | None \<Rightarrow> None)"

definition sweep :: "web_config \<Rightarrow> nat \<Rightarrow> web_store \<Rightarrow> web_store" where
  "sweep cfg t st =
     st\<lparr>sess := keep_entries (\<lambda>k s. t < ws_expires s) (sess st),
        deviceAttempts := keep_entries (\<lambda>(i, w) n. windowOf cfg t \<le> w + 1) (deviceAttempts st),
        ipAttempts := keep_entries (\<lambda>(ip, m) n. minuteOf t \<le> m) (ipAttempts st),
        lastCounter := keep_entries (\<lambda>i (c, e). t < e) (lastCounter st)\<rparr>"

definition bump :: "('k \<rightharpoonup> nat) \<Rightarrow> 'k \<Rightarrow> nat \<Rightarrow> bool \<times> ('k \<rightharpoonup> nat)" where
  "bump m key limit =
     (let count = (case m key of Some n \<Rightarrow> n | None \<Rightarrow> 0) + 1
      in (count \<le> limit, m(key \<mapsto> count)))"

definition allowIp :: "web_config \<Rightarrow> nat \<Rightarrow> string \<Rightarrow> web_store \<Rightarrow> bool \<times> web_store" where
  "allowIp cfg now ip st =
     (let (ok, m) = bump (ipAttempts st) (ip, minuteOf now) (ipAttemptsPerMinute cfg)
      in (ok, st\<lparr>ipAttempts := m\<rparr>))"

definition allowDevice :: "web_config \<Rightarrow> js_string \<Rightarrow> nat \<Rightarrow> web_store \<Rightarrow> bool \<times> web_store" where
  "allowDevice cfg deviceId w st =
     (let (ok, m) = bump (deviceAttempts st) (deviceId, w) (attemptsPerWindow cfg)
      in (ok, st\<lparr>deviceAttempts := m\<rparr>))"

definition claim :: "web_config \<Rightarrow> nat \<Rightarrow> js_string \<Rightarrow> nat \<Rightarrow> web_store \<Rightarrow> bool \<times> web_store" where
  "claim cfg t deviceId counter st =
     (case lastCounter st deviceId of
        Some (prev, expires) \<Rightarrow>
          if t < expires \<and> counter \<le> prev then (False, st)
          else (True, st\<lparr>lastCounter := (lastCounter st)(deviceId \<mapsto> (counter, t + stepSeconds cfg * 4 * 1000))\<rparr>)
      | None \<Rightarrow>
          (True, st\<lparr>lastCounter := (lastCounter st)(deviceId \<mapsto> (counter, t + stepSeconds cfg * 4 * 1000))\<rparr>))"

definition session_create ::
    "web_config \<Rightarrow> (string \<Rightarrow> string) \<Rightarrow> nat \<Rightarrow> string \<Rightarrow> js_string \<Rightarrow> web_store \<Rightarrow> web_store" where
  "session_create cfg hash now token deviceId st =
     st\<lparr>sess := (sess st)(hash token \<mapsto>
          \<lparr>ws_device = deviceId, ws_created = now, ws_expires = now + sessionTtlSeconds cfg * 1000\<rparr>)\<rparr>"

text \<open>\<open>token\<close> is what \<open>readCookie\<close> found: \<open>None\<close> for \<open>null\<close>.\<close>

definition session_get ::
    "(string \<Rightarrow> string) \<Rightarrow> nat \<Rightarrow> string option \<Rightarrow> web_store \<Rightarrow> web_session option \<times> web_store" where
  "session_get hash now token st =
     (case token of
        None \<Rightarrow> (None, st)
      | Some tok \<Rightarrow>
          if tok = [] \<or> 128 < length tok then (None, st)
          else (case sess st (hash tok) of
                  None \<Rightarrow> (None, st)
                | Some s \<Rightarrow>
                    if ws_expires s \<le> now then (None, st\<lparr>sess := (sess st)(hash tok := None)\<rparr>)
                    else (Some s, st)))"

definition session_destroy :: "(string \<Rightarrow> string) \<Rightarrow> string option \<Rightarrow> web_store \<Rightarrow> web_store" where
  "session_destroy hash token st =
     (case token of
        Some tok \<Rightarrow> if tok \<noteq> [] then st\<lparr>sess := (sess st)(hash tok := None)\<rparr> else st
      | None \<Rightarrow> st)"

section \<open>What the operations do\<close>

lemma keep_entries_Some [simp]: "keep_entries keep m k = Some v \<longleftrightarrow> m k = Some v \<and> keep k v"
  by (auto simp: keep_entries_def split: option.splits)

lemma sweep_sel:
  "deviceAttempts (sweep cfg t st) (i, w) = Some n \<longleftrightarrow>
     deviceAttempts st (i, w) = Some n \<and> windowOf cfg t \<le> w + 1"
  "lastCounter (sweep cfg t st) i = Some (c, e) \<longleftrightarrow> lastCounter st i = Some (c, e) \<and> t < e"
  "sess (sweep cfg t st) k = Some s \<longleftrightarrow> sess st k = Some s \<and> t < ws_expires s"
  by (simp_all add: sweep_def)

definition attempts :: "web_store \<Rightarrow> js_string \<times> nat \<Rightarrow> nat" where
  "attempts st k = (case deviceAttempts st k of Some n \<Rightarrow> n | None \<Rightarrow> 0)"

lemma attempts_cong: "deviceAttempts st' = deviceAttempts st \<Longrightarrow> attempts st' = attempts st"
  by (simp add: attempts_def fun_eq_iff)

lemma allowIp_sel [simp]:
  "lastCounter (snd (allowIp cfg now ip st)) = lastCounter st"
  "deviceAttempts (snd (allowIp cfg now ip st)) = deviceAttempts st"
  "sess (snd (allowIp cfg now ip st)) = sess st"
  by (simp_all add: allowIp_def bump_def Let_def)

lemma allowDevice_sel [simp]:
  "lastCounter (snd (allowDevice cfg i w st)) = lastCounter st"
  "sess (snd (allowDevice cfg i w st)) = sess st"
  "fst (allowDevice cfg i w st) \<longleftrightarrow> attempts st (i, w) < attemptsPerWindow cfg"
  "attempts (snd (allowDevice cfg i w st)) k = attempts st k + (if k = (i, w) then 1 else 0)"
  by (auto simp: allowDevice_def bump_def Let_def attempts_def)

lemma allowIp_result:
  "allowIp cfg now ip st = (ok, st') \<Longrightarrow>
   lastCounter st' = lastCounter st \<and> attempts st' = attempts st \<and> sess st' = sess st"
  using allowIp_sel [of cfg now ip st] by (metis attempts_cong snd_conv)

lemma allowDevice_result:
  "allowDevice cfg i w st = (ok, st') \<Longrightarrow>
   lastCounter st' = lastCounter st \<and> sess st' = sess st \<and>
   (ok \<longleftrightarrow> attempts st (i, w) < attemptsPerWindow cfg) \<and>
   (\<forall>k. attempts st' k = attempts st k + (if k = (i, w) then 1 else 0))"
  using allowDevice_sel [of cfg i w st] by (metis fst_conv snd_conv)

lemma claim_sel [simp]:
  "sess (snd (claim cfg t i c st)) = sess st"
  "deviceAttempts (snd (claim cfg t i c st)) = deviceAttempts st"
  by (auto simp: claim_def split: option.splits)

lemma claim_fails: "\<not> fst (claim cfg t i c st) \<Longrightarrow> snd (claim cfg t i c st) = st"
  by (auto simp: claim_def split: option.splits)

lemma claim_sess: "claim cfg t i c st = (ok, st') \<Longrightarrow> sess st' = sess st"
  using claim_sel(1) [of cfg t i c st] by (simp del: claim_sel)

lemma claim_refused: "claim cfg t i c st = (False, st') \<Longrightarrow> st' = st"
  using claim_fails [of cfg t i c st] by simp

lemma claim_succeeds:
  assumes "fst (claim cfg t i c st)"
  shows "lastCounter (snd (claim cfg t i c st)) =
      (lastCounter st)(i \<mapsto> (c, t + stepSeconds cfg * 4000))"
    and "lastCounter st i = Some (prev, e) \<Longrightarrow> t < e \<Longrightarrow> prev < c"
  using assms by (auto simp: claim_def split: option.splits if_splits prod.splits)

lemma session_sel [simp]:
  "lastCounter (session_create cfg hash now tok i st) = lastCounter st"
  "deviceAttempts (session_create cfg hash now tok i st) = deviceAttempts st"
  "lastCounter (session_destroy hash token st) = lastCounter st"
  "deviceAttempts (session_destroy hash token st) = deviceAttempts st"
  "lastCounter (snd (session_get hash now token st)) = lastCounter st"
  "deviceAttempts (snd (session_get hash now token st)) = deviceAttempts st"
  by (auto simp: session_create_def session_destroy_def session_get_def split: option.splits)

lemma attempts_sel [simp]:
  "attempts (session_create cfg hash now tok i st) = attempts st"
  "attempts (session_destroy hash token st) = attempts st"
  "attempts (snd (session_get hash now token st)) = attempts st"
  "attempts (snd (claim cfg t i c st)) = attempts st"
  by (rule attempts_cong, simp)+

text \<open>Destroying and looking up sessions adds none.\<close>

lemma session_removed:
  "sess (session_destroy hash token st) k = Some s \<Longrightarrow> sess st k = Some s"
  "sess (snd (session_get hash now token st)) k = Some s \<Longrightarrow> sess st k = Some s"
  by (auto simp: session_destroy_def session_get_def split: option.splits if_splits)

lemma session_get_live:
  assumes "session_get hash now token st = (Some s, st')"
  shows "now < ws_expires s" "\<exists>k. sess st k = Some s" "st' = st"
  using assms by (auto simp: session_get_def split: option.splits if_splits)

end
