(* ===== verification/Auth_Login.thy ===== *)
theory Auth_Login
  imports Auth_Store Server
begin

text \<open>
  Signing in: the handler of \<open>POST /otp\<close>, \<open>auth-web/src/routes/otp.js\<close>, with the verifier daemon
  behind it. The handler runs in pieces, from one \<open>await\<close> to the next, and other requests run
  between the pieces; a piece is one step on the state of \<open>Auth_Store\<close>. The system below runs any
  number of such handlers interleaved, with the daemon, the keystore's other users and the clock.
\<close>

section \<open>The handler\<close>

text \<open>
  What a request holds: the \<open>Origin\<close> header, what the redirect policy makes of the target the
  form names, the address, and the two fields.
\<close>

record otp_request =
  rq_origin :: "string option"
  rq_target :: "string option"
  rq_ip :: string
  rq_device :: "js_string option"
  rq_code :: "js_string option"

text \<open>
  The answers: 403; the redirect to the login page with \<open>error=1\<close>; the redirect to the target,
  or to \<open>/login\<close>, with the session's cookie.
\<close>

datatype response = Forbidden | Login_page "string option" | Signed_in js_string string "string option"

text \<open>Where a handler is: behind which \<open>await\<close>, with the value it waited for.\<close>

datatype phase =
    Received
  | Ip_counted bool
  | Device_counted js_string js_string bool
  | Asking js_string js_string
  | Verified js_string "nat option"
  | Claimed js_string bool
  | Created js_string string
  | Replied response

text \<open>One piece. \<open>tok\<close> is the token \<open>randomBytes\<close> gives, should this piece create a session.\<close>

fun otp_step ::
    "web_config \<Rightarrow> (js_string \<Rightarrow> js_string) \<Rightarrow> string \<Rightarrow> (string \<Rightarrow> string) \<Rightarrow> otp_request \<Rightarrow> nat \<Rightarrow> string \<Rightarrow>
     phase \<Rightarrow> web_store \<Rightarrow> phase \<times> web_store" where
  "otp_step cfg up authOrigin hash rq now tok Received st =
     (if rq_origin rq \<noteq> Some authOrigin \<or> rq_origin rq = Some '''' then (Replied Forbidden, st)
      else let (ok, st') = allowIp cfg now (rq_ip rq) st in (Ip_counted ok, st'))"
| "otp_step cfg up authOrigin hash rq now tok (Ip_counted ok) st =
     (if \<not> ok then (Replied (Login_page (rq_target rq)), st)
      else let deviceId = normalizeId up (rq_device rq); code = normalizeCode (rq_code rq) in
        if \<not> isValidId deviceId \<or> \<not> isValidCode code then (Replied (Login_page (rq_target rq)), st)
        else let (ok', st') = allowDevice cfg deviceId (windowOf cfg now) st
             in (Device_counted deviceId code ok', st'))"
| "otp_step cfg up authOrigin hash rq now tok (Device_counted deviceId code ok) st =
     (if \<not> ok then (Replied (Login_page (rq_target rq)), st) else (Asking deviceId code, st))"
| "otp_step cfg up authOrigin hash rq now tok (Asking deviceId code) st = (Asking deviceId code, st)"
| "otp_step cfg up authOrigin hash rq now tok (Verified deviceId result) st =
     (case result of
        None \<Rightarrow> (Replied (Login_page (rq_target rq)), st)
      | Some counter \<Rightarrow> let (ok, st') = claim cfg now deviceId counter st in (Claimed deviceId ok, st'))"
| "otp_step cfg up authOrigin hash rq now tok (Claimed deviceId ok) st =
     (if \<not> ok then (Replied (Login_page (rq_target rq)), st)
      else (Created deviceId tok, session_create cfg hash now tok deviceId st))"
| "otp_step cfg up authOrigin hash rq now tok (Created deviceId token) st =
     (Replied (Signed_in deviceId token (rq_target rq)), st)"
| "otp_step cfg up authOrigin hash rq now tok (Replied r) st = (Replied r, st)"

section \<open>The system\<close>

text \<open>
  A request on its way, with what a proof wants to remember of it: in which window it was
  charged to its device, and what the daemon based its answer on (the code, the time, the row).
  A login remembers the window that was claimed.
\<close>

record answer =
  an_code :: js_string
  an_time :: nat
  an_row :: "krow option"

record flight =
  request :: otp_request
  phase :: phase
  charged :: "(js_string \<times> nat) option"
  answered :: "answer option"

record login =
  l_device :: js_string
  l_counter :: nat
  l_time :: nat
  l_answer :: answer

record ('r, 'f, 'db) web =
  clock :: nat
  wstore :: web_store
  flights :: "flight list"
  logins :: "login list"
  srv :: "('r, 'f, 'db) server"

text \<open>What surrounds the handlers, besides the platform: the settings and the parameters.\<close>

record web_env =
  env_config :: web_config
  env_upper :: "js_string \<Rightarrow> js_string"
  env_origin :: string
  env_hash :: "string \<Rightarrow> string"
  env_delay :: nat

text \<open>One piece of a handler at the time of the clock, and the login if it claimed a window.\<close>

definition run_flight :: "web_env \<Rightarrow> nat \<Rightarrow> string \<Rightarrow> flight \<Rightarrow> web_store \<Rightarrow> flight \<times> web_store \<times> login list" where
  "run_flight E now tok fl st =
     (let (ph, st') = otp_step (env_config E) (env_upper E) (env_origin E) (env_hash E) (request fl) now tok (phase fl) st;
          fl' = fl\<lparr>phase := ph,
            charged := (case ph of
                          Device_counted i c ok \<Rightarrow> if ok then Some (i, windowOf (env_config E) now) else None
                        | _ \<Rightarrow> charged fl)\<rparr>;
          new = (case (phase fl, answered fl, ph) of
                   (Verified i (Some n), Some a, Claimed j True) \<Rightarrow>
                     [\<lparr>l_device = i, l_counter = n, l_time = now, l_answer = a\<rparr>]
                 | _ \<Rightarrow> [])
      in (fl', st', new))"

text \<open>
  The largest time a JavaScript date can hold. The clock of the daemon is the clock of the web
  tier in seconds; it does not run backwards. A reply is processed at most \<open>env_delay\<close> milliseconds
  after the daemon has read its clock, or not at all: the client's timer is set to
  \<open>VERIFIER_TIMEOUT_MS\<close>, 2000.
\<close>

definition MAX_DATE :: nat where "MAX_DATE = 8640000000000000"

definition daemon_now :: "nat \<Rightarrow> time_t" where
  "daemon_now ms = word_of_nat (ms div 1000)"

inductive web_step ::
    "'db platform \<Rightarrow> ('db \<Rightarrow> table) \<Rightarrow> hmac_fn \<Rightarrow> 'r rng \<Rightarrow> 'f files \<Rightarrow> string \<Rightarrow> int \<Rightarrow> int \<Rightarrow> web_env \<Rightarrow>
     ('r, 'f, 'db) web \<Rightarrow> ('r, 'f, 'db) web \<Rightarrow> bool"
  for P :: "'db platform" and tbl :: "'db \<Rightarrow> table" and H :: hmac_fn and R :: "'r rng" and F :: "'f files"
    and dummy_key :: string and vuid :: int and auid :: int and E :: web_env where
  time_passes: "clock s \<le> t \<Longrightarrow> t \<le> MAX_DATE \<Longrightarrow>
    web_step P tbl H R F dummy_key vuid auid E s (s\<lparr>clock := t\<rparr>)"
| received:
    "web_step P tbl H R F dummy_key vuid auid E s
      (s\<lparr>flights := flights s @ [\<lparr>request = rq, phase = Received, charged = None, answered = None\<rparr>]\<rparr>)"
| piece: "k < length (flights s) \<Longrightarrow> fl = flights s ! k \<Longrightarrow>
    (\<And>i n. phase fl = Verified i (Some n) \<Longrightarrow> \<exists>a. answered fl = Some a \<and> clock s \<le> an_time a + env_delay E) \<Longrightarrow>
    run_flight E (clock s) tok fl (wstore s) = (fl', st', new) \<Longrightarrow>
    web_step P tbl H R F dummy_key vuid auid E s
      (s\<lparr>flights := (flights s)[k := fl'], wstore := st', logins := new @ logins s\<rparr>)"
| verified: "k < length (flights s) \<Longrightarrow> fl = flights s ! k \<Longrightarrow> phase fl = Asking i c \<Longrightarrow>
    verify_line i c = line @ [nl] \<Longrightarrow>
    verifier_handle_request P H dummy_key (daemon_now (clock s)) line (srv_db (srv s)) = (Inr reply, db') \<Longrightarrow>
    prefix (data_of evs) reply \<Longrightarrow>
    fl' = fl\<lparr>phase := Verified i (client_verify i c evs),
             answered := Some \<lparr>an_code = c, an_time = clock s, an_row = tbl (srv_db (srv s)) (ascii_bytes i)\<rparr>\<rparr> \<Longrightarrow>
    web_step P tbl H R F dummy_key vuid auid E s
      (s\<lparr>flights := (flights s)[k := fl'], srv := (srv s)\<lparr>srv_db := db'\<rparr>\<rparr>)"
| unanswered: "k < length (flights s) \<Longrightarrow> fl = flights s ! k \<Longrightarrow>
    (\<exists>c. phase fl = Asking i c) \<or> (\<exists>n. phase fl = Verified i n) \<Longrightarrow>
    web_step P tbl H R F dummy_key vuid auid E s
      (s\<lparr>flights := (flights s)[k := fl\<lparr>phase := Verified i None\<rparr>]\<rparr>)"
| keystore_used:
    "web_step P tbl H R F dummy_key vuid auid E s
      (s\<lparr>srv := server_event P H R F dummy_key vuid auid ev (srv s)\<rparr>)"
| swept:
    "web_step P tbl H R F dummy_key vuid auid E s (s\<lparr>wstore := sweep (env_config E) (clock s) (wstore s)\<rparr>)"
| looked_up:
    "web_step P tbl H R F dummy_key vuid auid E s
      (s\<lparr>wstore := snd (session_get (env_hash E) (clock s) token (wstore s))\<rparr>)"
| logged_out:
    "web_step P tbl H R F dummy_key vuid auid E s
      (s\<lparr>wstore := session_destroy (env_hash E) token (wstore s)\<rparr>)"

definition web_start :: "('r, 'f, 'db) web \<Rightarrow> bool" where
  "web_start s \<longleftrightarrow> clock s \<le> MAX_DATE \<and> wstore s = empty_store \<and> flights s = [] \<and> logins s = []"

section \<open>What the daemon's answer is worth\<close>

text \<open>
  A counter \<open>n\<close> within one window of a time, and an answer that proves a login: the row of the
  keystore was active, and the code is the one its key shows in window \<open>n\<close>.
\<close>

definition near_window :: "nat \<Rightarrow> nat \<Rightarrow> bool" where
  "near_window n ms \<longleftrightarrow> n \<le> ms div 90000 + 1 \<and> ms div 90000 \<le> n + 1"

definition good_answer :: "hmac_fn \<Rightarrow> js_string \<Rightarrow> nat \<Rightarrow> answer \<Rightarrow> bool" where
  "good_answer H i n a \<longleftrightarrow>
     (\<exists>ident r c. i = units ident \<and> valid_device_id ident \<and> an_row a = Some r \<and> r_status r = 1 \<and>
        length (c_str (r_key r)) = 128 \<and> unat (c :: u64) = n \<and>
        an_code a = units (code_string H (c_str (r_key r)) c)) \<and>
     near_window n (an_time a)"

lemma daemon_now_window:
  assumes "ms \<le> MAX_DATE"
  shows "daemon_now ms div 90 = word_of_nat (ms div 90000)" "ms div 90000 \<le> 96000000000"
proof -
  define w where "w = ms div 1000 div 90"
  have w: "ms div 90000 = w" by (simp add: w_def div_mult2_eq [symmetric])
  have small: "ms div 1000 \<le> 8640000000000" using div_le_mono [OF assms, of 1000] by (simp add: MAX_DATE_def)
  then have "w \<le> 8640000000000 div 90" unfolding w_def by (rule div_le_mono)
  then show "ms div 90000 \<le> 96000000000" by (simp add: w)
  have "unat (daemon_now ms) = ms div 1000" using small by (simp add: daemon_now_def unat_of_nat)
  then have u: "unat (daemon_now ms div 90) = w" by (simp add: unat_div w_def)
  show "daemon_now ms div 90 = word_of_nat (ms div 90000)" by (simp add: w flip: u)
qed

text \<open>The windows beside the first one do not wrap.\<close>

lemma daemon_window_small:
  assumes "ms \<le> MAX_DATE" and "90000 \<le> ms"
    and "c \<in> {daemon_now ms div 90 - 1, daemon_now ms div 90, daemon_now ms div 90 + 1}"
  shows "unat c < 10 ^ 15"
proof -
  obtain v where v: "ms div 90000 = Suc v"
    using div_le_mono [OF assms(2), of 90000] by (cases "ms div 90000") simp_all
  note w = daemon_now_window [OF assms(1), unfolded v]
  from assms(3) have "c \<in> {word_of_nat v, word_of_nat (Suc v), word_of_nat (Suc (Suc v))}"
    unfolding w(1) by (auto simp: add.commute)
  with w(2) show ?thesis by (auto simp: unat_of_nat simp del: of_nat_Suc)
qed

lemma daemon_window:
  assumes "ms \<le> MAX_DATE" and "c \<in> {daemon_now ms div 90 - 1, daemon_now ms div 90, daemon_now ms div 90 + 1}"
    and "unat c < 10 ^ 15"
  shows "near_window (unat c) ms"
proof -
  define w where "w = ms div 90000"
  note w = w_def [symmetric] and dw = daemon_now_window(1) [OF assms(1), folded w_def]
    and w_small = daemon_now_window(2) [OF assms(1), folded w_def]
  from assms(2) consider "c = word_of_nat w - 1" | "c = word_of_nat w" | "c = word_of_nat w + 1"
    unfolding dw by blast
  then show ?thesis
  proof cases
    case 1
    show ?thesis
    proof (cases w)
      case 0
      with 1 have "unat c = 2 ^ 64 - 1" by (simp add: unsigned_minus_1_eq_mask mask_eq_exp_minus_1)
      with assms(3) show ?thesis by simp
    next
      case (Suc v)
      with 1 w_small have "unat c = v" by (simp add: unat_of_nat)
      with Suc show ?thesis by (simp add: near_window_def w)
    qed
  next
    case 2
    with w_small have "unat c = w" by (simp add: unat_of_nat)
    then show ?thesis by (simp add: near_window_def w)
  next
    case 3
    then have "c = word_of_nat (Suc w)" by (simp add: add.commute)
    with w_small have "unat c = Suc w" by (simp only: unat_of_nat) simp
    then show ?thesis by (simp add: near_window_def w)
  qed
qed

context sqlite_keystore
begin

lemma verified_good:
  assumes "hmac_digest_32 H" and "ms \<le> MAX_DATE" and "verify_line i c = line @ [nl]"
    and "verifier_handle_request P H dummy_key (daemon_now ms) line db = (Inr reply, db')"
    and "prefix (data_of evs) reply" and "client_verify i c evs = Some n"
  shows "good_answer H i n \<lparr>an_code = c, an_time = ms, an_row = tbl db (ascii_bytes i)\<rparr>"
proof -
  have "reply \<in> verifier_replies"
    using verifier_reply_total [OF assms(1), of P dummy_key "daemon_now ms" line db] assms(4) by auto
  from client_verify_iff [OF this assms(5), of i c n] assms(6)
  have v: "isValidId i" "isValidCode c" "reply = ''OK '' @ nat_to_string n @ [nl]" "n < 10 ^ 15" by simp_all
  obtain ident code where ic: "i = units ident" "valid_device_id ident" "c = units code" "\<forall>x \<in> set code. is_digit x"
    using v(1,2) by (auto simp: isValidId_iff isValidCode_iff)
  then have line: "line = ''VERIFY '' @ ident @ '' '' @ code"
    using assms(3) unfolding verify_line_def ic(1,3) ascii_bytes_units
    by (simp only: append_assoc [symmetric] append1_eq_conv)
  have "prefix ''OK'' reply" by (simp add: v(3))
  from verify_sound [OF assms(1,4) this]
  obtain id2 code2 r k where s: "line = ''VERIFY '' @ id2 @ '' '' @ code2"
      "reply = ''OK '' @ nat_to_string (unat k) @ [nl]" "valid_device_id id2" "tbl db id2 = Some r"
      "r_status r = 1" "length (c_str (r_key r)) = 128"
      "window_match H (c_str (r_key r)) (daemon_now ms div 90) code2 = Some k"
    by blast
  have "ident @ '' '' @ code = id2 @ '' '' @ code2" using line s(1) by simp
  then have "split_on (CHR '' '') (ident @ CHR '' '' # code) = split_on (CHR '' '') (id2 @ CHR '' '' # code2)"
    by simp
  then have id: "id2 = ident"
    using split_on_append [OF valid_device_id_chars(3) [OF ic(2)], of code]
      split_on_append [OF valid_device_id_chars(3) [OF s(3)], of code2] by simp
  with line s(1) have code: "code2 = code" by simp
  have "nat_to_string n = nat_to_string (unat k)" using v(3) s(2) by simp
  then have n: "n = unat k" by (metis dec_value_nat_to_string)
  note w = window_match_SomeD [OF s(7)]
  have "near_window n ms" using daemon_window [OF assms(2) w(1)] v(4) n by simp
  moreover have "ascii_bytes i = ident" by (simp add: ic(1))
  ultimately show ?thesis
    unfolding good_answer_def answer.select_convs
    using ic(1-3) s(4-6) id code n w(2) by blast
qed

end

section \<open>Windows are claimed upwards\<close>

text \<open>The pieces of the handler, as far as logins and claims are concerned.\<close>

lemma run_flight_claims:
  assumes "run_flight E now tok fl st = (fl', st', new)"
    and "\<And>i n. phase fl = Verified i (Some n) \<Longrightarrow> answered fl \<noteq> None"
  shows "\<not> (\<exists>i n. phase fl' = Verified i n) \<and> answered fl' = answered fl \<and>
    (new = [] \<and> lastCounter st' = lastCounter st \<or>
     (\<exists>i n a. phase fl = Verified i (Some n) \<and> answered fl = Some a \<and>
        fst (claim (env_config E) now i n st) \<and> st' = snd (claim (env_config E) now i n st) \<and>
        new = [\<lparr>l_device = i, l_counter = n, l_time = now, l_answer = a\<rparr>]))"
  using assms
proof (cases "phase fl")
  case (Verified i r)
  with assms show ?thesis
    by (auto simp: run_flight_def Let_def split: prod.splits option.splits bool.splits
        dest!: claim_refused)
qed (auto simp: run_flight_def Let_def split: prod.splits if_splits
      dest!: allowIp_result allowDevice_result)

definition login_ok :: "hmac_fn \<Rightarrow> nat \<Rightarrow> login \<Rightarrow> bool" where
  "login_ok H delay l \<longleftrightarrow>
     good_answer H (l_device l) (l_counter l) (l_answer l) \<and>
     an_time (l_answer l) \<le> l_time l \<and> l_time l \<le> an_time (l_answer l) + delay"

definition flight_ok :: "hmac_fn \<Rightarrow> nat \<Rightarrow> flight \<Rightarrow> bool" where
  "flight_ok H now fl \<longleftrightarrow>
     (\<forall>i n. phase fl = Verified i (Some n) \<longrightarrow>
        (\<exists>a. answered fl = Some a \<and> good_answer H i n a \<and> an_time a \<le> now))"

text \<open>A claimed window is remembered, or so old that no code of it is accepted any more.\<close>

definition remembered :: "web_store \<Rightarrow> nat \<Rightarrow> login \<Rightarrow> bool" where
  "remembered st now l \<longleftrightarrow>
     l_time l + 360000 \<le> now \<or>
     (\<exists>c e. lastCounter st (l_device l) = Some (c, e) \<and> l_counter l \<le> c \<and> l_time l + 360000 \<le> e)"

definition newer :: "login \<Rightarrow> login \<Rightarrow> bool" where
  "newer l old \<longleftrightarrow> (l_device l = l_device old \<longrightarrow> l_counter old < l_counter l)"

definition login_inv :: "hmac_fn \<Rightarrow> nat \<Rightarrow> ('r, 'f, 'db) web \<Rightarrow> bool" where
  "login_inv H delay s \<longleftrightarrow>
     clock s \<le> MAX_DATE \<and> list_all (flight_ok H (clock s)) (flights s) \<and>
     list_all (login_ok H delay) (logins s) \<and>
     list_all (\<lambda>l. l_time l \<le> clock s \<and> remembered (wstore s) (clock s) l) (logins s) \<and>
     sorted_wrt newer (logins s)"

lemma stale_window:
  assumes "login_ok H delay l" and "near_window n seen" and "now \<le> seen + delay" and "delay \<le> 90000"
    and "l_time l + 360000 \<le> now"
  shows "l_counter l < n"
proof -
  define a where "a = an_time (l_answer l)"
  have "l_counter l \<le> a div 90000 + 1" "a \<le> l_time l"
    using assms(1) by (auto simp: login_ok_def good_answer_def near_window_def a_def)
  moreover have "a div 90000 \<le> l_time l div 90000" using calculation(2) by (rule div_le_mono)
  moreover have "l_time l + 3 * 90000 \<le> seen" using assms(3-5) by simp
  then have "(l_time l + 3 * 90000) div 90000 \<le> seen div 90000" by (rule div_le_mono)
  then have "l_time l div 90000 + 3 \<le> seen div 90000" by simp
  moreover have "seen div 90000 \<le> n + 1" using assms(2) by (simp add: near_window_def)
  ultimately show ?thesis by linarith
qed

text \<open>The claim of a new window: it is newer than all the device has claimed, and remembered.\<close>

lemma claim_newer:
  assumes "fst (claim cfg now i n st)" and "stepSeconds cfg = 90" and "delay \<le> 90000"
    and "near_window n seen" and "now \<le> seen + delay"
    and "login_ok H delay l" and "l_time l \<le> now" and "remembered st now l" and "l_device l = i"
  shows "l_counter l < n" "remembered (snd (claim cfg now i n st)) now l"
proof -
  show less: "l_counter l < n"
  proof (cases "l_time l + 360000 \<le> now")
    case True
    then show ?thesis using stale_window [OF assms(6,4,5,3)] by blast
  next
    case False
    then obtain c e where c: "lastCounter st i = Some (c, e)" "l_counter l \<le> c" "l_time l + 360000 \<le> e"
      using assms(8,9) by (auto simp: remembered_def)
    show ?thesis
    proof (cases "now < e")
      case True
      then show ?thesis using claim_succeeds(2) [OF assms(1) c(1)] c(2) by simp
    next
      case False
      then show ?thesis using stale_window [OF assms(6,4,5,3)] c(3) by simp
    qed
  qed
  show "remembered (snd (claim cfg now i n st)) now l"
    using claim_succeeds(1) [OF assms(1)] assms(2,7,9) less by (simp add: remembered_def)
qed

lemma remembered_store:
  "lastCounter st' (l_device l) = lastCounter st (l_device l) \<Longrightarrow> remembered st now l \<Longrightarrow> remembered st' now l"
  by (simp add: remembered_def)

lemma remembered_sweep: "remembered st now l \<Longrightarrow> remembered (sweep cfg now st) now l"
  by (auto simp: remembered_def sweep_sel)

lemma remembered_later: "remembered st now l \<Longrightarrow> now \<le> now' \<Longrightarrow> remembered st now' l"
  by (auto simp: remembered_def)

lemma flight_ok_other: "\<not> (\<exists>i n. phase fl = Verified i (Some n)) \<Longrightarrow> flight_ok H now fl"
  by (auto simp: flight_ok_def)

lemma flight_ok_later: "list_all (flight_ok H now) fls \<Longrightarrow> now \<le> t \<Longrightarrow> list_all (flight_ok H t) fls"
  by (fastforce simp: flight_ok_def list_all_iff)

lemma login_inv_store:
  assumes "login_inv H delay s" and "lastCounter st' = lastCounter (wstore s)"
  shows "login_inv H delay (s\<lparr>wstore := st'\<rparr>)"
  using assms by (simp add: login_inv_def remembered_def)

lemma login_inv_flight:
  assumes "login_inv H delay s" and "flight_ok H (clock s) fl"
  shows "login_inv H delay (s\<lparr>flights := (flights s)[k := fl]\<rparr>)"
  using assms by (simp add: login_inv_def list_all_update)

lemma login_inv_claim:
  assumes "login_inv H (env_delay E) s" and "env_delay E \<le> 90000" and "stepSeconds (env_config E) = 90"
    and "fst (claim (env_config E) (clock s) i n (wstore s))" and "good_answer H i n a"
    and "an_time a \<le> clock s" and "clock s \<le> an_time a + env_delay E"
  shows "login_inv H (env_delay E) (s\<lparr>wstore := snd (claim (env_config E) (clock s) i n (wstore s)),
    logins := \<lparr>l_device = i, l_counter = n, l_time = clock s, l_answer = a\<rparr> # logins s\<rparr>)"
proof -
  let ?l = "\<lparr>l_device = i, l_counter = n, l_time = clock s, l_answer = a\<rparr>"
  let ?st = "snd (claim (env_config E) (clock s) i n (wstore s))"
  have last: "lastCounter ?st = (lastCounter (wstore s))(i \<mapsto> (n, clock s + 360000))"
    using claim_succeeds(1) [OF assms(4)] assms(3) by simp
  have near: "near_window n (an_time a)" using assms(5) by (simp add: good_answer_def)
  have old: "newer ?l l \<and> remembered ?st (clock s) l" if "l \<in> set (logins s)" for l
  proof (cases "l_device l = i")
    case True
    from that assms(1) have l: "login_ok H (env_delay E) l" "l_time l \<le> clock s" "remembered (wstore s) (clock s) l"
      by (auto simp: login_inv_def list_all_iff)
    from claim_newer [OF assms(4,3,2) near assms(7) l True] show ?thesis by (simp add: newer_def)
  next
    case False
    with that assms(1) show ?thesis
      by (auto simp: login_inv_def list_all_iff newer_def remembered_def last)
  qed
  have "remembered ?st (clock s) ?l" by (simp add: remembered_def last)
  moreover have "login_ok H (env_delay E) ?l" using assms(5-7) by (simp add: login_ok_def)
  ultimately show ?thesis
    using assms(1) old by (simp add: login_inv_def list_all_iff)
qed

lemma login_inv_piece:
  assumes "login_inv H (env_delay E) s" and "env_delay E \<le> 90000" and "stepSeconds (env_config E) = 90"
    and "k < length (flights s)" and "fl = flights s ! k"
    and "\<And>i n. phase fl = Verified i (Some n) \<Longrightarrow> \<exists>a. answered fl = Some a \<and> clock s \<le> an_time a + env_delay E"
    and "run_flight E (clock s) tok fl (wstore s) = (fl', st', new)"
  shows "login_inv H (env_delay E) (s\<lparr>wstore := st', logins := new @ logins s, flights := (flights s)[k := fl']\<rparr>)"
proof -
  have fl: "flight_ok H (clock s) fl" using assms(1) assms(4,5) by (simp add: login_inv_def list_all_length)
  from run_flight_claims [OF assms(7)] assms(6)
  have r: "\<not> (\<exists>i n. phase fl' = Verified i n)"
    "new = [] \<and> lastCounter st' = lastCounter (wstore s) \<or>
     (\<exists>i n a. phase fl = Verified i (Some n) \<and> answered fl = Some a \<and>
        fst (claim (env_config E) (clock s) i n (wstore s)) \<and> st' = snd (claim (env_config E) (clock s) i n (wstore s)) \<and>
        new = [\<lparr>l_device = i, l_counter = n, l_time = clock s, l_answer = a\<rparr>])"
    by (fastforce, fastforce)
  have "login_inv H (env_delay E) (s\<lparr>wstore := st', logins := new @ logins s\<rparr>)"
    using r(2)
  proof (elim disjE exE conjE)
    assume "new = []" "lastCounter st' = lastCounter (wstore s)"
    with login_inv_store [OF assms(1)] show ?thesis by simp
  next
    fix i n a
    assume c: "phase fl = Verified i (Some n)" "answered fl = Some a"
      "fst (claim (env_config E) (clock s) i n (wstore s))" "st' = snd (claim (env_config E) (clock s) i n (wstore s))"
      "new = [\<lparr>l_device = i, l_counter = n, l_time = clock s, l_answer = a\<rparr>]"
    have "good_answer H i n a" "an_time a \<le> clock s" using fl c(1,2) by (auto simp: flight_ok_def)
    moreover have "clock s \<le> an_time a + env_delay E" using assms(6) c(1,2) by auto
    ultimately show ?thesis using login_inv_claim [OF assms(1,2,3) c(3)] c(4,5) by simp
  qed
  then show ?thesis
    using login_inv_flight [of H "env_delay E" "s\<lparr>wstore := st', logins := new @ logins s\<rparr>" fl' k]
      flight_ok_other [of fl' H] r(1) by simp
qed

context sqlite_keystore
begin

lemma login_inv_step:
  assumes "hmac_digest_32 H" and "env_delay E \<le> 90000" and "stepSeconds (env_config E) = 90"
    and "login_inv H (env_delay E) s" and "web_step P tbl H R F dummy_key vuid auid E s t"
  shows "login_inv H (env_delay E) t"
  using assms(5)
proof (cases rule: web_step.cases)
  case (time_passes t')
  with assms(4) show ?thesis
    by (auto simp: login_inv_def list_all_iff intro: remembered_later flight_ok_later [unfolded list_all_iff, rule_format])
next
  case (received rq)
  with assms(4) show ?thesis by (auto simp: login_inv_def flight_ok_def)
next
  case (piece k fl tok fl' st' new)
  have "t = s\<lparr>wstore := st', logins := new @ logins s, flights := (flights s)[k := fl']\<rparr>" by (simp add: piece(1))
  with login_inv_piece [OF assms(4,2,3) piece(2-5)] show ?thesis by simp
next
  case (verified k fl i c line reply db' evs fl')
  have "flight_ok H (clock s) fl'"
    using verified_good [OF assms(1) _ verified(5,6,7)] assms(4)
    by (auto simp: flight_ok_def verified(8) login_inv_def)
  from login_inv_flight [OF assms(4) this, of k] show ?thesis
    by (simp add: verified(1) login_inv_def)
next
  case (unanswered k fl i)
  then show ?thesis using login_inv_flight [OF assms(4), of _ k] by (simp add: flight_ok_other)
next
  case (keystore_used ev)
  with assms(4) show ?thesis by (simp add: login_inv_def)
next
  case swept
  with assms(4) show ?thesis by (auto simp: login_inv_def list_all_iff intro: remembered_sweep)
next
  case (looked_up token)
  then show ?thesis using login_inv_store [OF assms(4)] by simp
next
  case (logged_out token)
  then show ?thesis using login_inv_store [OF assms(4)] by simp
qed

end

section \<open>Every sign-in has a login of its own\<close>

text \<open>The device a handler signs in, from the claim on.\<close>

definition signed_device :: "phase \<Rightarrow> js_string option" where
  "signed_device ph =
     (case ph of
        Claimed i ok \<Rightarrow> if ok then Some i else None
      | Created i tok \<Rightarrow> Some i
      | Replied (Signed_in i tok target) \<Rightarrow> Some i
      | _ \<Rightarrow> None)"

definition signed_inv :: "('r, 'f, 'db) web \<Rightarrow> bool" where
  "signed_inv s \<longleftrightarrow>
     (\<forall>i. length (filter (\<lambda>fl. signed_device (phase fl) = Some i) (flights s)) =
          length (filter (\<lambda>l. l_device l = i) (logins s)))"

lemma run_flight_signed:
  assumes "run_flight E now tok fl st = (fl', st', new)"
    and "\<And>i n. phase fl = Verified i (Some n) \<Longrightarrow> answered fl \<noteq> None"
  shows "new = [] \<and> signed_device (phase fl') = signed_device (phase fl) \<or>
    signed_device (phase fl) = None \<and> (\<exists>l. new = [l] \<and> signed_device (phase fl') = Some (l_device l))"
proof (cases "phase fl")
  case (Verified i r)
  with assms show ?thesis
    by (auto simp: run_flight_def Let_def signed_device_def split: prod.splits option.splits bool.splits)
next
  case (Replied r)
  with assms show ?thesis by (auto simp: run_flight_def)
qed (use assms in \<open>auto simp: run_flight_def Let_def signed_device_def split: prod.splits if_splits\<close>)

lemma signed_same:
  assumes "signed_inv s" and "k < length (flights s)"
    and "signed_device (phase fl) = signed_device (phase (flights s ! k))"
  shows "signed_inv (s\<lparr>flights := (flights s)[k := fl]\<rparr>)"
  unfolding signed_inv_def
proof
  fix i
  show "length (filter (\<lambda>fl. signed_device (phase fl) = Some i) (flights (s\<lparr>flights := (flights s)[k := fl]\<rparr>))) =
      length (filter (\<lambda>l. l_device l = i) (logins (s\<lparr>flights := (flights s)[k := fl]\<rparr>)))"
    using length_filter_update [OF assms(2), of "\<lambda>fl. signed_device (phase fl) = Some i" fl] assms(1,3)
    by (simp add: signed_inv_def split: if_splits)
qed

lemma signed_new:
  assumes "signed_inv s" and "k < length (flights s)" and "signed_device (phase (flights s ! k)) = None"
    and "signed_device (phase fl) = Some (l_device l)"
  shows "signed_inv (s\<lparr>flights := (flights s)[k := fl], logins := l # logins s\<rparr>)"
  unfolding signed_inv_def
proof
  fix i
  show "length (filter (\<lambda>fl. signed_device (phase fl) = Some i)
        (flights (s\<lparr>flights := (flights s)[k := fl], logins := l # logins s\<rparr>))) =
      length (filter (\<lambda>l. l_device l = i) (logins (s\<lparr>flights := (flights s)[k := fl], logins := l # logins s\<rparr>)))"
    using length_filter_update [OF assms(2), of "\<lambda>fl. signed_device (phase fl) = Some i" fl] assms(1,3,4)
    by (simp add: signed_inv_def split: if_splits)
qed

lemma signed_inv_step:
  assumes "signed_inv s" and "web_step P tbl H R F dummy_key vuid auid E s t"
  shows "signed_inv t"
  using assms(2)
proof (cases rule: web_step.cases)
  case (piece k fl tok fl' st' new)
  have "new = [] \<and> signed_device (phase fl') = signed_device (phase fl) \<or>
      signed_device (phase fl) = None \<and> (\<exists>l. new = [l] \<and> signed_device (phase fl') = Some (l_device l))"
    using run_flight_signed [OF piece(5)] piece(4) by fastforce
  then have "signed_inv (s\<lparr>flights := (flights s)[k := fl'], logins := new @ logins s\<rparr>)"
    using signed_same [OF assms(1) piece(2), of fl'] signed_new [OF assms(1) piece(2), of fl'] piece(3) by auto
  then show ?thesis by (simp add: piece(1) signed_inv_def)
next
  case (verified k fl i c line reply db' evs fl')
  then have "signed_inv (s\<lparr>flights := (flights s)[k := fl']\<rparr>)"
    by (intro signed_same [OF assms(1)]) (auto simp: signed_device_def)
  then show ?thesis by (simp add: verified(1) signed_inv_def)
next
  case (unanswered k fl i)
  then have "signed_device (phase fl) = None" by (auto simp: signed_device_def)
  then show ?thesis
    unfolding unanswered(1) by (intro signed_same [OF assms(1) unanswered(2)]) (simp add: signed_device_def unanswered(3))
qed (use assms(1) in \<open>auto simp: signed_inv_def signed_device_def\<close>)

section \<open>The attempt budget\<close>

text \<open>The device a handler asks the daemon about, from the charge to its budget on.\<close>

definition asks_device :: "phase \<Rightarrow> js_string option" where
  "asks_device ph =
     (case ph of
        Device_counted i c ok \<Rightarrow> if ok then Some i else None
      | Asking i c \<Rightarrow> Some i
      | Verified i n \<Rightarrow> Some i
      | Claimed i ok \<Rightarrow> Some i
      | Created i tok \<Rightarrow> Some i
      | Replied (Signed_in i tok target) \<Rightarrow> Some i
      | _ \<Rightarrow> None)"

definition charges :: "('r, 'f, 'db) web \<Rightarrow> js_string \<times> nat \<Rightarrow> nat" where
  "charges s key = length (filter (\<lambda>fl. charged fl = Some key) (flights s))"

definition budget_inv :: "web_config \<Rightarrow> ('r, 'f, 'db) web \<Rightarrow> bool" where
  "budget_inv cfg s \<longleftrightarrow>
     (\<forall>i w. charges s (i, w) \<le> attemptsPerWindow cfg \<and>
        (windowOf cfg (clock s) \<le> w + 1 \<longrightarrow> charges s (i, w) \<le> attempts (wstore s) (i, w)) \<and>
        (charges s (i, w) \<noteq> 0 \<longrightarrow> w \<le> windowOf cfg (clock s))) \<and>
     list_all (\<lambda>fl. \<forall>i. asks_device (phase fl) = Some i \<longrightarrow> (\<exists>w. charged fl = Some (i, w))) (flights s)"

lemma claim_attempts: "claim cfg t i c st = (ok, st') \<Longrightarrow> attempts st' = attempts st"
  using attempts_sel(4) [of cfg t i c st] by (simp del: attempts_sel)

lemma run_flight_charge:
  assumes "run_flight E now tok fl st = (fl', st', new)"
  defines "w \<equiv> windowOf (env_config E) now"
  shows "(charged fl' = charged fl \<or> charged fl' = None) \<and> (\<forall>k. attempts st k \<le> attempts st' k) \<and>
      (asks_device (phase fl') = None \<or> asks_device (phase fl') = asks_device (phase fl) \<and> charged fl' = charged fl) \<or>
    (\<exists>i. attempts st (i, w) < attemptsPerWindow (env_config E) \<and> charged fl' = Some (i, w) \<and>
       asks_device (phase fl') = Some i \<and>
       (\<forall>k. attempts st' k = attempts st k + (if k = (i, w) then 1 else 0)))"
proof (cases "phase fl")
  case (Verified i r)
  with assms(1) show ?thesis
    by (auto simp: run_flight_def Let_def asks_device_def split: prod.splits option.splits
        dest!: claim_attempts)
next
  case (Ip_counted ok)
  with assms(1) show ?thesis
    by (auto simp: run_flight_def Let_def asks_device_def w_def split: prod.splits if_splits
        dest!: allowDevice_result)
next
  case Received
  with assms(1) show ?thesis
    by (auto simp: run_flight_def Let_def asks_device_def split: prod.splits if_splits
        dest!: allowIp_result)
next
  case (Claimed i ok)
  with assms(1) show ?thesis
    by (auto simp: run_flight_def Let_def asks_device_def split: if_splits)
qed (use assms(1) in \<open>auto simp: run_flight_def Let_def asks_device_def split: if_splits\<close>)

lemma charges_update:
  assumes "k < length (flights s)"
  shows "charges (s\<lparr>flights := (flights s)[k := fl]\<rparr>) key + (if charged (flights s ! k) = Some key then 1 else 0) =
    charges s key + (if charged fl = Some key then 1 else 0)"
  using length_filter_update [OF assms, of "\<lambda>fl. charged fl = Some key" fl] by (simp add: charges_def)

lemma budgetD:
  assumes "budget_inv cfg s"
  shows "charges s (i, w) \<le> attemptsPerWindow cfg"
    "windowOf cfg (clock s) \<le> w + 1 \<Longrightarrow> charges s (i, w) \<le> attempts (wstore s) (i, w)"
    "charges s (i, w) \<noteq> 0 \<Longrightarrow> w \<le> windowOf cfg (clock s)"
  using assms unfolding budget_inv_def by blast+

text \<open>Steps that charge nobody.\<close>

lemma budget_inv_uncharged:
  assumes "budget_inv cfg s" and "k < length (flights s)"
    and "charged fl = charged (flights s ! k) \<or> charged fl = None"
    and "asks_device (phase fl) = None \<or>
      asks_device (phase fl) = asks_device (phase (flights s ! k)) \<and> charged fl = charged (flights s ! k)"
    and "\<forall>key. attempts (wstore s) key \<le> attempts st' key"
  shows "budget_inv cfg (s\<lparr>flights := (flights s)[k := fl], wstore := st'\<rparr>)"
proof -
  let ?t = "s\<lparr>flights := (flights s)[k := fl], wstore := st'\<rparr>"
  have le: "charges ?t key \<le> charges s key" for key
    using charges_update [OF assms(2), of fl key] assms(3) by (auto simp: charges_def split: if_splits)
  have "\<forall>i. asks_device (phase fl) = Some i \<longrightarrow> (\<exists>w. charged fl = Some (i, w))"
    using assms(1,2,4) by (auto simp: budget_inv_def list_all_length)
  then have "list_all (\<lambda>fl. \<forall>i. asks_device (phase fl) = Some i \<longrightarrow> (\<exists>w. charged fl = Some (i, w))) (flights ?t)"
    using assms(1) by (simp add: budget_inv_def list_all_update)
  moreover have "charges ?t (i, w) \<le> attemptsPerWindow cfg \<and>
      (windowOf cfg (clock ?t) \<le> w + 1 \<longrightarrow> charges ?t (i, w) \<le> attempts (wstore ?t) (i, w)) \<and>
      (charges ?t (i, w) \<noteq> 0 \<longrightarrow> w \<le> windowOf cfg (clock ?t))" for i w
    using budgetD [OF assms(1), where i = i and w = w] assms(5) [rule_format, of "(i, w)"] le [of "(i, w)"] by auto
  ultimately show ?thesis by (simp add: budget_inv_def)
qed

text \<open>The charge: the count was below the limit, and grows with the attempts.\<close>

lemma budget_inv_charged:
  assumes "budget_inv cfg s" and "k < length (flights s)" and "w = windowOf cfg (clock s)"
    and "attempts (wstore s) (i, w) < attemptsPerWindow cfg"
    and "charged fl = Some (i, w)" and "asks_device (phase fl) = Some i"
    and "\<forall>key. attempts st' key = attempts (wstore s) key + (if key = (i, w) then 1 else 0)"
  shows "budget_inv cfg (s\<lparr>flights := (flights s)[k := fl], wstore := st'\<rparr>)"
proof -
  let ?t = "s\<lparr>flights := (flights s)[k := fl], wstore := st'\<rparr>"
  have le: "charges ?t key \<le> charges s key + (if key = (i, w) then 1 else 0)" for key
    using charges_update [OF assms(2), of fl key] assms(5) by (auto simp: charges_def split: if_splits)
  have "list_all (\<lambda>fl. \<forall>i. asks_device (phase fl) = Some i \<longrightarrow> (\<exists>w. charged fl = Some (i, w))) (flights ?t)"
    using assms(1,5,6) by (simp add: budget_inv_def list_all_update)
  moreover have "charges ?t (j, v) \<le> attemptsPerWindow cfg \<and>
      (windowOf cfg (clock ?t) \<le> v + 1 \<longrightarrow> charges ?t (j, v) \<le> attempts (wstore ?t) (j, v)) \<and>
      (charges ?t (j, v) \<noteq> 0 \<longrightarrow> v \<le> windowOf cfg (clock ?t))" for j v
  proof (cases "(j, v) = (i, w)")
    case True
    have "charges s (i, w) \<le> attempts (wstore s) (i, w)"
      using assms(1,3) by (simp add: budget_inv_def)
    with True le [of "(i, w)"] assms(3,4,7) show ?thesis by auto
  next
    case False
    then show ?thesis
      using budgetD [OF assms(1), where i = j and w = v] assms(7) [rule_format, of "(j, v)"] le [of "(j, v)"] by auto
  qed
  ultimately show ?thesis by (simp add: budget_inv_def)
qed

lemma windowOf_mono: "t \<le> t' \<Longrightarrow> windowOf cfg t \<le> windowOf cfg t'"
  by (simp add: windowOf_def div_le_mono)

lemma attempts_sweep: "windowOf cfg t \<le> w + 1 \<Longrightarrow> attempts (sweep cfg t st) (i, w) = attempts st (i, w)"
  by (simp add: attempts_def sweep_def keep_entries_def split: option.split)

lemma budget_inv_later:
  assumes "budget_inv cfg s" and "clock s \<le> t"
  shows "budget_inv cfg (s\<lparr>clock := t\<rparr>)"
proof -
  have c: "charges (s\<lparr>clock := t\<rparr>) key = charges s key" for key by (simp add: charges_def)
  have "windowOf cfg (clock s) \<le> windowOf cfg t" using assms(2) by (rule windowOf_mono)
  then show ?thesis
    using assms(1) unfolding budget_inv_def c by (auto intro: order_trans)
qed

lemma budget_inv_store:
  assumes "budget_inv cfg s"
    and "\<And>i w. windowOf cfg (clock s) \<le> w + 1 \<Longrightarrow> attempts st' (i, w) = attempts (wstore s) (i, w)"
  shows "budget_inv cfg (s\<lparr>wstore := st'\<rparr>)"
proof -
  have c: "charges (s\<lparr>wstore := st'\<rparr>) key = charges s key" for key by (simp add: charges_def)
  show ?thesis using assms unfolding budget_inv_def c by simp
qed

lemma budget_inv_step:
  assumes "budget_inv (env_config E) s" and "web_step P tbl H R F dummy_key vuid auid E s t"
  shows "budget_inv (env_config E) t"
  using assms(2)
proof (cases rule: web_step.cases)
  case (time_passes t')
  then show ?thesis using budget_inv_later [OF assms(1)] by simp
next
  case (received rq)
  then have "charges t key = charges s key" for key by (simp add: charges_def)
  with received show ?thesis using assms(1) by (simp add: budget_inv_def asks_device_def)
next
  case (piece k fl tok fl' st' new)
  let ?w = "windowOf (env_config E) (clock s)"
  have "budget_inv (env_config E) (s\<lparr>flights := (flights s)[k := fl'], wstore := st'\<rparr>)"
    using run_flight_charge [OF piece(5)]
  proof (elim disjE exE conjE)
    fix i
    assume "attempts (wstore s) (i, ?w) < attemptsPerWindow (env_config E)" "charged fl' = Some (i, ?w)"
      "asks_device (phase fl') = Some i"
      "\<forall>k. attempts st' k = attempts (wstore s) k + (if k = (i, ?w) then 1 else 0)"
    then show ?thesis by (rule budget_inv_charged [OF assms(1) piece(2) refl])
  qed (use budget_inv_uncharged [OF assms(1) piece(2), of fl' st'] piece(3) in auto)
  then show ?thesis by (simp add: piece(1) budget_inv_def charges_def)
next
  case (verified k fl i c line reply db' evs fl')
  then have "asks_device (phase fl') = asks_device (phase fl)" "charged fl' = charged fl"
    by (simp_all add: asks_device_def)
  then have "budget_inv (env_config E) (s\<lparr>flights := (flights s)[k := fl'], wstore := wstore s\<rparr>)"
    using verified(3) by (intro budget_inv_uncharged [OF assms(1) verified(2)]) simp_all
  then show ?thesis by (simp add: verified(1) budget_inv_def charges_def)
next
  case (unanswered k fl i)
  let ?fl = "fl\<lparr>phase := Verified i None\<rparr>"
  have "asks_device (phase ?fl) = asks_device (phase fl)" "charged ?fl = charged fl"
    using unanswered(4) by (auto simp: asks_device_def)
  then have "budget_inv (env_config E) (s\<lparr>flights := (flights s)[k := ?fl], wstore := wstore s\<rparr>)"
    using unanswered(3) by (intro budget_inv_uncharged [OF assms(1) unanswered(2)]) simp_all
  then show ?thesis by (simp add: unanswered(1))
next
  case (keystore_used ev)
  then show ?thesis using assms(1) by (simp add: budget_inv_def charges_def)
next
  case swept
  then show ?thesis using budget_inv_store [OF assms(1)] attempts_sweep by simp
next
  case (looked_up token)
  then show ?thesis using budget_inv_store [OF assms(1)] by simp
next
  case (logged_out token)
  then show ?thesis using budget_inv_store [OF assms(1)] by simp
qed

section \<open>Sessions come from logins\<close>

definition logged_in :: "login list \<Rightarrow> nat \<Rightarrow> js_string \<Rightarrow> bool" where
  "logged_in ls now i \<longleftrightarrow> (\<exists>l \<in> set ls. l_device l = i \<and> l_time l \<le> now)"

definition session_inv :: "web_config \<Rightarrow> ('r, 'f, 'db) web \<Rightarrow> bool" where
  "session_inv cfg s \<longleftrightarrow>
     (\<forall>k ws. sess (wstore s) k = Some ws \<longrightarrow>
        ws_created ws \<le> clock s \<and> ws_expires ws = ws_created ws + sessionTtlSeconds cfg * 1000 \<and>
        logged_in (logins s) (ws_created ws) (ws_device ws)) \<and>
     list_all (\<lambda>fl. \<forall>i. signed_device (phase fl) = Some i \<longrightarrow> logged_in (logins s) (clock s) i) (flights s)"

lemma logged_in_mono:
  "logged_in ls now i \<Longrightarrow> set ls \<subseteq> set ls' \<Longrightarrow> now \<le> now' \<Longrightarrow> logged_in ls' now' i"
  by (force simp: logged_in_def)

lemma session_invD:
  assumes "session_inv cfg s"
  shows "sess (wstore s) k = Some ws \<Longrightarrow> ws_created ws \<le> clock s \<and>
      ws_expires ws = ws_created ws + sessionTtlSeconds cfg * 1000 \<and> logged_in (logins s) (ws_created ws) (ws_device ws)"
    and "fl \<in> set (flights s) \<Longrightarrow> signed_device (phase fl) = Some i \<Longrightarrow> logged_in (logins s) (clock s) i"
  using assms by (auto simp: session_inv_def list_all_iff)

lemma run_flight_session:
  assumes "run_flight E now tok fl st = (fl', st', new)"
  shows "sess st' = sess st \<or>
    (\<exists>i. phase fl = Claimed i True \<and> st' = session_create (env_config E) (env_hash E) now tok i st)"
proof (cases "phase fl")
  case (Claimed i ok)
  with assms show ?thesis by (auto simp: run_flight_def Let_def split: if_splits)
next
  case (Verified i r)
  with assms show ?thesis
    by (auto simp: run_flight_def Let_def split: prod.splits option.splits dest!: claim_sess)
qed (use assms in \<open>auto simp: run_flight_def Let_def split: prod.splits if_splits
      dest!: allowIp_result allowDevice_result\<close>)

text \<open>Fewer sessions, more logins, and handlers that signed in nobody new.\<close>

lemma session_inv_weaken:
  assumes "session_inv cfg s" and "clock s \<le> clock t" and "set (logins s) \<subseteq> set (logins t)"
    and "\<And>k ws. sess (wstore t) k = Some ws \<Longrightarrow> sess (wstore s) k = Some ws"
    and "\<And>fl i. fl \<in> set (flights t) \<Longrightarrow> signed_device (phase fl) = Some i \<Longrightarrow>
      logged_in (logins s) (clock s) i \<or> logged_in (logins t) (clock t) i"
  shows "session_inv cfg t"
  unfolding session_inv_def list_all_iff
proof (intro conjI allI impI ballI)
  fix k ws
  assume "sess (wstore t) k = Some ws"
  then have "sess (wstore s) k = Some ws" by (rule assms(4))
  note D = session_invD(1) [OF assms(1) this]
  show "ws_created ws \<le> clock t" "ws_expires ws = ws_created ws + sessionTtlSeconds cfg * 1000"
    using D assms(2) by simp_all
  show "logged_in (logins t) (ws_created ws) (ws_device ws)"
    using D assms(3) by (blast intro: logged_in_mono)
next
  fix fl i
  assume "fl \<in> set (flights t)" "signed_device (phase fl) = Some i"
  from assms(5) [OF this] show "logged_in (logins t) (clock t) i"
    using assms(2,3) by (auto intro: logged_in_mono)
qed

lemma session_inv_create:
  assumes "session_inv cfg s" and "logged_in (logins s) (clock s) i"
  shows "session_inv cfg (s\<lparr>wstore := session_create cfg hash (clock s) tok i (wstore s)\<rparr>)"
  using assms by (auto simp: session_inv_def session_create_def list_all_iff)

lemma session_inv_flight:
  assumes "session_inv cfg s" and "signed_device (phase fl') = None" and "flights t = (flights s)[k := fl']"
    and "clock t = clock s" and "logins t = logins s" and "wstore t = wstore s"
  shows "session_inv cfg t"
proof (rule session_inv_weaken [OF assms(1)])
  fix g j
  assume "g \<in> set (flights t)" "signed_device (phase g) = Some j"
  then show "logged_in (logins s) (clock s) j \<or> logged_in (logins t) (clock t) j"
    using session_invD(2) [OF assms(1)] set_update_subset_insert [of "flights s" k fl'] assms(2,3) by auto
qed (simp_all add: assms(4-6))

lemma session_inv_piece:
  assumes "session_inv (env_config E) s" and "k < length (flights s)" and "fl = flights s ! k"
    and "\<And>i n. phase fl = Verified i (Some n) \<Longrightarrow> \<exists>a. answered fl = Some a \<and> clock s \<le> an_time a + env_delay E"
    and "run_flight E (clock s) tok fl (wstore s) = (fl', st', new)"
  shows "session_inv (env_config E) (s\<lparr>flights := (flights s)[k := fl'], wstore := st', logins := new @ logins s\<rparr>)"
proof -
  define t where "t = s\<lparr>flights := (flights s)[k := fl'], wstore := st', logins := new @ logins s\<rparr>"
  have fl: "fl \<in> set (flights s)" using assms(2,3) by simp
  have "signed_device (phase fl') = signed_device (phase fl) \<or>
      (\<exists>l \<in> set new. signed_device (phase fl') = Some (l_device l) \<and> l_time l = clock s)"
  proof -
    have "new = [] \<and> signed_device (phase fl') = signed_device (phase fl) \<or>
        signed_device (phase fl) = None \<and> (\<exists>l. new = [l] \<and> signed_device (phase fl') = Some (l_device l))"
      using run_flight_signed [OF assms(5)] assms(4) by fastforce
    moreover have "l_time l = clock s" if "new = [l]" for l
      using run_flight_claims [OF assms(5)] assms(4) that by fastforce
    ultimately show ?thesis by fastforce
  qed
  then have signed: "logged_in (new @ logins s) (clock s) i" if "signed_device (phase fl') = Some i" for i
    using that session_invD(2) [OF assms(1) fl, of i]
    by (elim disjE) (auto simp: logged_in_def)
  let ?s1 = "s\<lparr>flights := (flights s)[k := fl'], logins := new @ logins s\<rparr>"
  have mid: "session_inv (env_config E) ?s1"
  proof (rule session_inv_weaken [OF assms(1)])
    fix g i
    assume "g \<in> set (flights ?s1)" "signed_device (phase g) = Some i"
    then show "logged_in (logins s) (clock s) i \<or> logged_in (logins ?s1) (clock ?s1) i"
      using session_invD(2) [OF assms(1)] signed set_update_subset_insert [of "flights s" k fl'] by auto
  qed simp_all
  have t: "t = ?s1\<lparr>wstore := st'\<rparr>" by (simp add: t_def)
  have "session_inv (env_config E) t"
    using run_flight_session [OF assms(5)]
  proof (elim disjE exE conjE)
    assume "sess st' = sess (wstore s)"
    then show "session_inv (env_config E) t" using mid by (simp add: t session_inv_def)
  next
    fix i
    assume c: "phase fl = Claimed i True" "st' = session_create (env_config E) (env_hash E) (clock s) tok i (wstore s)"
    have "logged_in (logins s) (clock s) i"
      using session_invD(2) [OF assms(1) fl] c(1) by (simp add: signed_device_def)
    then have "logged_in (logins ?s1) (clock ?s1) i" by (auto intro: logged_in_mono)
    from session_inv_create [OF mid this] show "session_inv (env_config E) t" by (simp add: t c(2))
  qed
  then show "session_inv (env_config E) (s\<lparr>flights := (flights s)[k := fl'], wstore := st', logins := new @ logins s\<rparr>)"
    by (simp only: t_def)
qed

lemma session_inv_step:
  assumes "session_inv (env_config E) s" and "web_step P tbl H R F dummy_key vuid auid E s t"
  shows "session_inv (env_config E) t"
  using assms(2)
proof (cases rule: web_step.cases)
  case (time_passes t')
  show ?thesis
    by (rule session_inv_weaken [OF assms(1)])
       (use session_invD(2) [OF assms(1)] time_passes in auto)
next
  case (received rq)
  with assms(1) show ?thesis by (auto simp: session_inv_def signed_device_def)
next
  case (piece k fl tok fl' st' new)
  from session_inv_piece [OF assms(1) piece(2-5)] show ?thesis by (simp only: piece(1))
next
  case (verified k fl i c line reply db' evs fl')
  show ?thesis
    by (rule session_inv_flight [OF assms(1), of fl' _ k]) (simp_all add: verified(1,8) signed_device_def)
next
  case (unanswered k fl i)
  show ?thesis
    by (rule session_inv_flight [OF assms(1), of "fl\<lparr>phase := Verified i None\<rparr>" _ k])
       (simp_all add: unanswered(1) signed_device_def)
next
  case (keystore_used ev)
  with assms(1) show ?thesis by (simp add: session_inv_def)
next
  case swept
  show ?thesis
    by (rule session_inv_weaken [OF assms(1)])
       (use session_invD(2) [OF assms(1)] in \<open>auto simp: swept sweep_sel\<close>)
next
  case (looked_up token)
  show ?thesis
    by (rule session_inv_weaken [OF assms(1)])
       (use session_invD(2) [OF assms(1)] in \<open>auto simp: looked_up dest: session_removed\<close>)
next
  case (logged_out token)
  show ?thesis
    by (rule session_inv_weaken [OF assms(1)])
       (use session_invD(2) [OF assms(1)] in \<open>auto simp: logged_out dest: session_removed\<close>)
qed

lemma start_inv:
  assumes "web_start s"
  shows "signed_inv s" "budget_inv cfg s" "session_inv cfg s" "login_inv H delay s"
  using assms
  by (simp_all add: web_start_def signed_inv_def budget_inv_def charges_def session_inv_def
      empty_store_def login_inv_def)

interpretation signed: invariant_system web_start "web_step P tbl H R F dummy_key vuid auid E" signed_inv
  by unfold_locales (erule start_inv, erule (1) signed_inv_step)

interpretation budget: invariant_system web_start "web_step P tbl H R F dummy_key vuid auid E"
    "budget_inv (env_config E)"
  by unfold_locales (erule start_inv, erule (1) budget_inv_step)

interpretation session: invariant_system web_start "web_step P tbl H R F dummy_key vuid auid E"
    "session_inv (env_config E)"
  by unfold_locales (erule start_inv, erule (1) session_inv_step)

context sqlite_keystore
begin

lemma login_invariant:
  assumes "hmac_digest_32 H" and "env_delay E \<le> 90000" and "stepSeconds (env_config E) = 90"
  shows "invariant_system web_start (web_step P tbl H R F dummy_key vuid auid E) (login_inv H (env_delay E))"
  by unfold_locales (erule start_inv, erule (1) login_inv_step [OF assms])

end

end
