(* ===== verification/Auth_Signin.thy ===== *)
theory Auth_Signin
  imports Auth_Login
begin

text \<open>
  What signing in at the web tier guarantees, over the system of \<open>Auth_Login\<close>: a run of the handler
  from the form to the session's cookie, and the properties of all its interleavings.
\<close>

section \<open>A right code signs in\<close>

text \<open>The states in which the newest request is under way, and one piece of it.\<close>

definition under_way ::
    "('r, 'f, 'db) web \<Rightarrow> flight \<Rightarrow> web_store \<Rightarrow> login list \<Rightarrow> ('r, 'f, 'db) server \<Rightarrow> ('r, 'f, 'db) web" where
  "under_way s fl st new sv =
     \<lparr>clock = clock s, wstore = st, flights = flights s @ [fl], logins = new @ logins s, srv = sv\<rparr>"

lemma under_way_piece:
  assumes "run_flight E (clock s) tok fl st = (fl', st', new')"
    and "\<And>i n. phase fl = Verified i (Some n) \<Longrightarrow> \<exists>a. answered fl = Some a \<and> clock s \<le> an_time a + env_delay E"
  shows "web_step P tbl H R F dummy_key vuid auid E (under_way s fl st new sv) (under_way s fl' st' (new' @ new) sv)"
proof -
  have "web_step P tbl H R F dummy_key vuid auid E (under_way s fl st new sv)
      ((under_way s fl st new sv)\<lparr>flights := (flights (under_way s fl st new sv))[length (flights s) := fl'],
         wstore := st', logins := new' @ logins (under_way s fl st new sv)\<rparr>)"
    by (rule web_step.piece [where fl = fl and tok = tok]) (use assms in \<open>simp_all add: under_way_def\<close>)
  then show ?thesis by (simp add: under_way_def)
qed

lemma under_way_verified:
  assumes "phase fl = Asking (units ident) (units code)"
    and "verifier_handle_request P H dummy_key (daemon_now (clock s)) (''VERIFY '' @ ident @ '' '' @ code)
      (srv_db sv) = (Inr reply, db')"
  shows "web_step P tbl H R F dummy_key vuid auid E (under_way s fl st new sv)
    (under_way s (fl\<lparr>phase := Verified (units ident) (client_verify (units ident) (units code) [Data reply]),
        answered := Some \<lparr>an_code = units code, an_time = clock s, an_row = tbl (srv_db sv) ident\<rparr>\<rparr>)
      st new (sv\<lparr>srv_db := db'\<rparr>))"
proof -
  let ?u = "under_way s fl st new sv"
  let ?fl = "fl\<lparr>phase := Verified (units ident) (client_verify (units ident) (units code) [Data reply]),
        answered := Some \<lparr>an_code = units code, an_time = clock s, an_row = tbl (srv_db sv) ident\<rparr>\<rparr>"
  have "web_step P tbl H R F dummy_key vuid auid E ?u
      (?u\<lparr>flights := (flights ?u)[length (flights s) := ?fl], srv := (srv ?u)\<lparr>srv_db := db'\<rparr>\<rparr>)"
    by (rule web_step.verified [where fl = fl and i = "units ident" and c = "units code"
          and line = "''VERIFY '' @ ident @ '' '' @ code" and reply = reply and evs = "[Data reply]"])
       (use assms in \<open>simp_all add: under_way_def verify_line_def\<close>)
  then show ?thesis by (simp add: under_way_def)
qed

text \<open>The budgets leave room, and the window is newer than the last one claimed.\<close>

definition has_room :: "web_env \<Rightarrow> ('r, 'f, 'db) web \<Rightarrow> string \<Rightarrow> js_string \<Rightarrow> nat \<Rightarrow> bool" where
  "has_room E s ip i n \<longleftrightarrow>
     fst (allowIp (env_config E) (clock s) ip (wstore s)) \<and>
     attempts (wstore s) (i, windowOf (env_config E) (clock s)) < attemptsPerWindow (env_config E) \<and>
     (case lastCounter (wstore s) i of Some (prev, e) \<Rightarrow> e \<le> clock s \<or> prev < n | None \<Rightarrow> True)"

lemma claim_room:
  assumes "case lastCounter st i of Some (prev, e) \<Rightarrow> e \<le> t \<or> prev < n | None \<Rightarrow> True"
  shows "fst (claim cfg t i n st)"
  using assms by (auto simp: claim_def split: option.splits)

text \<open>The handler on its way, in three runs: up to the question, the answer, and behind it.\<close>

definition flight_at :: "otp_request \<Rightarrow> phase \<Rightarrow> (js_string \<times> nat) option \<Rightarrow> answer option \<Rightarrow> flight" where
  "flight_at rq ph ch an = \<lparr>request = rq, phase = ph, charged = ch, answered = an\<rparr>"

lemma flight_at_piece:
  assumes "run_flight E (clock s) tok (flight_at rq ph ch an) st = (flight_at rq ph' ch' an', st', new')"
    and "(\<forall>i n. ph \<noteq> Verified i n) \<or> (\<exists>a. an = Some a \<and> an_time a = clock s)"
  shows "web_step P tbl H R F dummy_key vuid auid E (under_way s (flight_at rq ph ch an) st new sv)
    (under_way s (flight_at rq ph' ch' an') st' (new' @ new) sv)"
  by (rule under_way_piece [OF assms(1)]) (use assms(2) in \<open>auto simp: flight_at_def\<close>)

lemma login_asked:
  fixes s :: "('r, 'f, 'db) web"
  assumes "rq_origin rq = Some (env_origin E)" and "env_origin E \<noteq> ''''"
    and "normalizeId (env_upper E) (rq_device rq) = i" and "isValidId i"
    and "normalizeCode (rq_code rq) = c" and "isValidCode c" and "has_room E s (rq_ip rq) i n"
  shows "\<exists>st ch. (web_step P tbl H R F dummy_key vuid auid E)\<^sup>*\<^sup>* s
      (under_way s (flight_at rq (Asking i c) ch None) st [] (srv s)) \<and>
    fst (claim (env_config E) (clock s) i n st)"
proof -
  let ?step = "web_step P tbl H R F dummy_key vuid auid E"
  let ?ch = "Some (i, windowOf (env_config E) (clock s))"
  let ?u = "\<lambda>ph ch st. under_way s (flight_at rq ph ch None) st [] (srv s)"
  obtain st1 where st1: "allowIp (env_config E) (clock s) (rq_ip rq) (wstore s) = (True, st1)"
    using assms(7) unfolding has_room_def by (metis prod.collapse)
  note keep1 = allowIp_result [OF st1]
  obtain ok st2 where st2: "allowDevice (env_config E) i (windowOf (env_config E) (clock s)) st1 = (ok, st2)" by fastforce
  note keep2 = allowDevice_result [OF st2]
  have ok: "ok" using keep1 keep2 assms(7) by (simp add: has_room_def)
  have room: "fst (claim (env_config E) (clock s) i n st2)"
    using assms(7) keep1 keep2 by (intro claim_room) (simp add: has_room_def)
  have go: "?step (?u ph ch st) (?u ph' ch' st')"
    if "run_flight E (clock s) tok (flight_at rq ph ch None) st = (flight_at rq ph' ch' None, st', [])"
      and "\<forall>i n. ph \<noteq> Verified i n" for ph ch st ph' ch' st' tok
    using flight_at_piece [OF that(1), where new = "[]"] that(2) by simp
  have "?step\<^sup>*\<^sup>* s s" by simp
  also have "?step s (?u Received None (wstore s))"
    using web_step.received [of P tbl H R F dummy_key vuid auid E s rq]
    by (cases s) (simp add: under_way_def flight_at_def)
  also have "?step (?u Received None (wstore s)) (?u (Ip_counted True) None st1)"
    by (rule go) (use assms(1,2) in \<open>simp_all add: run_flight_def flight_at_def st1\<close>)
  also have "?step (?u (Ip_counted True) None st1) (?u (Device_counted i c True) ?ch st2)"
    by (rule go) (use assms(3-6) ok in \<open>simp_all add: run_flight_def flight_at_def st2\<close>)
  also have "?step (?u (Device_counted i c True) ?ch st2) (?u (Asking i c) ?ch st2)"
    by (rule go) (simp_all add: run_flight_def flight_at_def)
  finally show ?thesis using room by blast
qed

lemma login_answered:
  assumes "fst (claim (env_config E) (clock s) i n st)" and "an_time a = clock s"
  shows "\<exists>st' l. (web_step P tbl H R F dummy_key vuid auid E)\<^sup>*\<^sup>*
      (under_way s (flight_at rq (Verified i (Some n)) ch (Some a)) st [] sv)
      (under_way s (flight_at rq (Replied (Signed_in i tok (rq_target rq))) ch (Some a)) st' [l] sv) \<and>
    sess st' (env_hash E tok) = Some \<lparr>ws_device = i, ws_created = clock s,
      ws_expires = clock s + sessionTtlSeconds (env_config E) * 1000\<rparr> \<and>
    l_device l = i \<and> l_counter l = n"
proof -
  let ?step = "web_step P tbl H R F dummy_key vuid auid E"
  let ?u = "\<lambda>ph st new. under_way s (flight_at rq ph ch (Some a)) st new sv"
  let ?l = "\<lparr>l_device = i, l_counter = n, l_time = clock s, l_answer = a\<rparr>"
  obtain st3 where st3: "claim (env_config E) (clock s) i n st = (True, st3)"
    using assms(1) by (metis prod.collapse)
  let ?st4 = "session_create (env_config E) (env_hash E) (clock s) tok i st3"
  have go: "?step (?u ph st new) (?u ph' st' (new' @ new))"
    if "run_flight E (clock s) tok (flight_at rq ph ch (Some a)) st = (flight_at rq ph' ch (Some a), st', new')"
    for ph st new ph' st' new'
    by (rule flight_at_piece [OF that]) (simp add: assms(2))
  have "?step\<^sup>*\<^sup>* (?u (Verified i (Some n)) st []) (?u (Verified i (Some n)) st [])" by simp
  also have "?step (?u (Verified i (Some n)) st []) (?u (Claimed i True) st3 ([?l] @ []))"
    by (rule go) (simp add: run_flight_def flight_at_def st3)
  also have "?step (?u (Claimed i True) st3 ([?l] @ [])) (?u (Created i tok) ?st4 ([] @ [?l] @ []))"
    by (rule go) (simp add: run_flight_def flight_at_def)
  also have "?step (?u (Created i tok) ?st4 ([] @ [?l] @ []))
      (?u (Replied (Signed_in i tok (rq_target rq))) ?st4 ([] @ [] @ [?l] @ []))"
    by (rule go) (simp add: run_flight_def flight_at_def)
  finally have "?step\<^sup>*\<^sup>* (?u (Verified i (Some n)) st []) (?u (Replied (Signed_in i tok (rq_target rq))) ?st4 [?l])"
    by simp
  then show ?thesis by (intro exI [of _ ?st4] exI [of _ ?l]) (simp add: session_create_def)
qed

lemma login_run:
  fixes s :: "('r, 'f, 'db) web" and rq :: otp_request
  assumes "rq_origin rq = Some (env_origin E)" and "env_origin E \<noteq> ''''"
    and "normalizeId (env_upper E) (rq_device rq) = units ident" and "valid_device_id ident"
    and "normalizeCode (rq_code rq) = units code" and "isValidCode (units code)"
    and "has_room E s (rq_ip rq) (units ident) n" and "n < 10 ^ 15"
    and "verifier_handle_request P H dummy_key (daemon_now (clock s)) (''VERIFY '' @ ident @ '' '' @ code)
      (srv_db (srv s)) = (Inr (''OK '' @ nat_to_string n @ [nl]), db')"
  shows "\<exists>fl st l. (web_step P tbl H R F dummy_key vuid auid E)\<^sup>*\<^sup>* s
      (under_way s fl st [l] ((srv s)\<lparr>srv_db := db'\<rparr>)) \<and>
    request fl = rq \<and> phase fl = Replied (Signed_in (units ident) tok (rq_target rq)) \<and>
    sess st (env_hash E tok) = Some \<lparr>ws_device = units ident, ws_created = clock s,
      ws_expires = clock s + sessionTtlSeconds (env_config E) * 1000\<rparr> \<and>
    l_device l = units ident \<and> l_counter l = n"
proof -
  let ?i = "units ident" and ?c = "units code"
  let ?a = "\<lparr>an_code = ?c, an_time = clock s, an_row = tbl (srv_db (srv s)) ident\<rparr>"
  have "isValidId ?i" using assms(4) by simp
  from login_asked [OF assms(1-3) this assms(5-7)] obtain st ch where
    asked: "(web_step P tbl H R F dummy_key vuid auid E)\<^sup>*\<^sup>* s
      (under_way s (flight_at rq (Asking ?i ?c) ch None) st [] (srv s))"
    and room: "fst (claim (env_config E) (clock s) ?i n st)"
    by blast
  have reply: "client_verify ?i ?c [Data (''OK '' @ nat_to_string n @ [nl])] = Some n"
    using assms(4,6,8) client_verify_OK by simp
  have "web_step P tbl H R F dummy_key vuid auid E
      (under_way s (flight_at rq (Asking ?i ?c) ch None) st [] (srv s))
      (under_way s (flight_at rq (Verified ?i (Some n)) ch (Some ?a)) st [] ((srv s)\<lparr>srv_db := db'\<rparr>))"
    using under_way_verified [OF _ assms(9), of "flight_at rq (Asking ?i ?c) ch None"] reply by (simp add: flight_at_def)
  note asked = rtranclp.rtrancl_into_rtrancl [OF asked this]
  have "an_time ?a = clock s" by simp
  from login_answered [OF room this] obtain st' l where
    "(web_step P tbl H R F dummy_key vuid auid E)\<^sup>*\<^sup>*
      (under_way s (flight_at rq (Verified ?i (Some n)) ch (Some ?a)) st [] ((srv s)\<lparr>srv_db := db'\<rparr>))
      (under_way s (flight_at rq (Replied (Signed_in ?i tok (rq_target rq))) ch (Some ?a)) st' [l] ((srv s)\<lparr>srv_db := db'\<rparr>))"
    and l: "sess st' (env_hash E tok) = Some \<lparr>ws_device = ?i, ws_created = clock s,
      ws_expires = clock s + sessionTtlSeconds (env_config E) * 1000\<rparr>" "l_device l = ?i" "l_counter l = n"
    by blast
  note run = rtranclp_trans [OF asked this(1)]
  have "(web_step P tbl H R F dummy_key vuid auid E)\<^sup>*\<^sup>* s
      (under_way s (flight_at rq (Replied (Signed_in ?i tok (rq_target rq))) ch (Some ?a)) st' [l] ((srv s)\<lparr>srv_db := db'\<rparr>))"
    by (rule run)
  with l show ?thesis by (intro exI conjI) (assumption | simp add: flight_at_def)+
qed

section \<open>A sample run\<close>

definition sample_env :: web_env where
  "sample_env =
     \<lparr>env_config = \<lparr>sessionTtlSeconds = 43200, stepSeconds = 90, attemptsPerWindow = 2, ipAttemptsPerMinute = 10\<rparr>,
      env_upper = map (\<lambda>u. if unit_in (CHR ''a'') (CHR ''z'') u then u - 32 else u),
      env_origin = ''https://auth.example.com'', env_hash = (\<lambda>s. s), env_delay = 2000\<rparr>"

definition sample_code :: string where
  "sample_code = code_string sample_hmac sample_key 20"

definition sample_request :: otp_request where
  "sample_request =
     \<lparr>rq_origin = Some ''https://auth.example.com'', rq_target = None, rq_ip = ''192.0.2.1'',
      rq_device = Some (units ''7q5-v''), rq_code = Some (units sample_code)\<rparr>"

definition sample_web :: "(byte list, disk, mem_db) web" where
  "sample_web = \<lparr>clock = 1800000, wstore = empty_store, flights = [], logins = [], srv = sample_server\<rparr>"

abbreviation sample_step ::
    "(byte list, disk, mem_db) web \<Rightarrow> (byte list, disk, mem_db) web \<Rightarrow> bool" where
  "sample_step \<equiv> web_step mem_platform mem_tbl sample_hmac list_rng disk_calls sample_key (-1) (-1) sample_env"

lemma sample_env_sel [simp]:
  "sessionTtlSeconds (env_config sample_env) = 43200" "stepSeconds (env_config sample_env) = 90"
  "env_origin sample_env = ''https://auth.example.com''" "env_hash sample_env = (\<lambda>s. s)"
  "attemptsPerWindow (env_config sample_env) = 2" "env_delay sample_env = 2000"
  by (simp_all add: sample_env_def)

lemma sample_web_sel [simp]:
  "clock sample_web = 1800000" "wstore sample_web = empty_store" "srv sample_web = sample_server"
  "web_start sample_web"
  by (simp_all add: sample_web_def web_start_def MAX_DATE_def)

lemma digit_kept: "unit_in (CHR ''0'') (CHR ''9'') u \<Longrightarrow> \<not> (js_space u \<or> u = code_unit (CHR ''-''))"
  by (auto simp: unit_in_def js_space_def word_le_nat_alt word_unat_eq_iff unat_code_unit)

lemma normalizeCode_digits: "isValidCode code \<Longrightarrow> normalizeCode (Some code) = code"
  by (auto simp: normalizeCode_def without_separators_def js_text_def isValidCode_def list_all_iff
      filter_id_conv dest: digit_kept)

lemma sample_code_valid: "isValidCode (units sample_code)"
  unfolding isValidCode_iff sample_code_def
  by (rule exI [of _ "code_string sample_hmac sample_key 20"])
     (simp add: code_string_wellformed [OF hmac_digest_32_sample] flip: all_digits_iff)

lemma sample_request_sel:
  "normalizeId (env_upper sample_env) (rq_device sample_request) = units ''7Q5V''"
  "normalizeCode (rq_code sample_request) = units sample_code"
  "rq_origin sample_request = Some ''https://auth.example.com''"
  using normalizeCode_digits [OF sample_code_valid]
  by (simp_all add: sample_request_def sample_env_def normalizeId_def js_trim_def js_text_def
      without_separators_def units_def code_unit_def unit_in_def js_space_def)

lemma sample_window:
  obtains c :: u64
  where "window_match sample_hmac (c_str (r_key (sample_row 1))) (daemon_now 1800000 div 90) sample_code = Some c"
    "unat c < 10 ^ 15"
proof -
  have "window_match sample_hmac sample_key (daemon_now 1800000 div 90) sample_code \<noteq> None"
    by (simp add: window_match_def sample_code_def daemon_now_def)
  then obtain c where c: "window_match sample_hmac sample_key (daemon_now 1800000 div 90) sample_code = Some c"
    by blast
  moreover have "unat c < 10 ^ 15" using window_match_SomeD(1) [OF c] by (auto simp: daemon_now_def)
  ultimately show thesis using that by simp
qed

lemma sample_room: "has_room sample_env sample_web (rq_ip sample_request) (units ''7Q5V'') n"
  by (simp add: has_room_def sample_env_def allowIp_def bump_def empty_store_def attempts_def)

text \<open>The run in which the sample device signs in.\<close>

lemma sample_run:
  obtains t l fl where "reachable web_start sample_step t" "clock t = 1800000" "flights t = [fl]" "logins t = [l]"
    "phase fl = Replied (Signed_in (units ''7Q5V'') ''tok'' (rq_target sample_request))"
    "sess (wstore t) ''tok'' = Some \<lparr>ws_device = units ''7Q5V'', ws_created = 1800000, ws_expires = 45000000\<rparr>"
    "l_device l = units ''7Q5V''"
proof -
  obtain c :: u64
    where c: "window_match sample_hmac (c_str (r_key (sample_row 1))) (daemon_now (clock sample_web) div 90) sample_code = Some c"
      "unat c < 10 ^ 15"
    using sample_window by (metis sample_web_sel(1))
  let ?db = "srv_db (srv sample_web)"
  have row: "mem_up ?db" "mem_tbl ?db ''7Q5V'' = Some (sample_row 1)" "r_status (sample_row 1) = 1"
    "length (c_str (r_key (sample_row 1))) = 128"
    by (simp_all add: sample_server_def)
  obtain db' where v: "verifier_handle_request mem_platform sample_hmac sample_key (daemon_now (clock sample_web))
      (''VERIFY '' @ ''7Q5V'' @ '' '' @ sample_code) ?db = (Inr (''OK '' @ nat_to_string (unat c) @ [nl]), db')"
    using mem.verify_complete [OF hmac_digest_32_sample row(1) sample_ids(1) row(2-4) c(1), of sample_key]
    by (metis prod.collapse)
  have "rq_origin sample_request = Some (env_origin sample_env)" "env_origin sample_env \<noteq> ''''"
    by (simp_all add: sample_request_sel(3))
  from login_run [OF this sample_request_sel(1) sample_ids(1) sample_request_sel(2) sample_code_valid sample_room c(2) v,
      of mem_tbl list_rng disk_calls "-1" "-1" "''tok''"]
  obtain fl st l where r: "sample_step\<^sup>*\<^sup>* sample_web (under_way sample_web fl st [l] ((srv sample_web)\<lparr>srv_db := db'\<rparr>))"
    "phase fl = Replied (Signed_in (units ''7Q5V'') ''tok'' (rq_target sample_request))"
    "sess st ''tok'' = Some \<lparr>ws_device = units ''7Q5V'', ws_created = 1800000, ws_expires = 45000000\<rparr>"
    "l_device l = units ''7Q5V''"
    by (auto simp: sample_env_sel sample_web_sel)
  have "reachable web_start sample_step (under_way sample_web fl st [l] ((srv sample_web)\<lparr>srv_db := db'\<rparr>))"
    using r(1) reach_init [of web_start sample_web sample_step] by (rule reachable_star) simp
  from that [OF this _ _ _ r(2)] r(3,4) show thesis by (simp add: under_way_def sample_web_def)
qed

section \<open>Properties\<close>

text \<open>
  C5. A code signs in once. However the handlers of any number of requests interleave, with the
  daemon, the admin daemon, the tool, the sweeper and the clock, as many requests are answered, or
  about to be answered, with a session for a device as windows were claimed for it, and the windows
  claimed for a device only grow. Behind each claim is an answer of the daemon, not older than the
  client's timer, to the code the device's key shows in that very window, given while its row was
  active; and the window is at most one away from the time of the answer. This needs the daemon's
  step of 90 seconds and a timer below 90 seconds: then no code outlives the four windows for which
  a claim is remembered.
\<close>

theorem login_single_use:
  assumes "sqlite_keystore P tbl" and "hmac_digest_32 H"
    and "env_delay E \<le> 90000" and "stepSeconds (env_config E) = 90"
    and "reachable web_start (web_step P tbl H R F dummy_key vuid auid E) s"
  shows "(\<forall>i. length (filter (\<lambda>fl. signed_device (phase fl) = Some i) (flights s)) =
        length (filter (\<lambda>l. l_device l = i) (logins s))) \<and>
    sorted_wrt (\<lambda>l old. l_device l = l_device old \<longrightarrow> l_counter old < l_counter l) (logins s) \<and>
    (\<forall>l \<in> set (logins s).
       an_time (l_answer l) \<le> l_time l \<and> l_time l \<le> an_time (l_answer l) + env_delay E \<and>
       near_window (l_counter l) (an_time (l_answer l)) \<and>
       (\<exists>ident r c. l_device l = units ident \<and> valid_device_id ident \<and>
          an_row (l_answer l) = Some r \<and> r_status r = 1 \<and> unat (c :: u64) = l_counter l \<and>
          an_code (l_answer l) = units (code_string H (c_str (r_key r)) c)))"
proof -
  have "signed_inv s" using assms(5) by (rule signed.reachable_inv)
  moreover have inv: "login_inv H (env_delay E) s"
    using sqlite_keystore.login_invariant [OF assms(1-4)] assms(5) by (rule invariant_system.reachable_inv)
  moreover have "login_ok H (env_delay E) l" if "l \<in> set (logins s)" for l
    using inv that by (simp add: login_inv_def list_all_iff)
  moreover have "newer = (\<lambda>l old. l_device l = l_device old \<longrightarrow> l_counter old < l_counter l)"
    by (simp add: newer_def fun_eq_iff)
  ultimately show ?thesis
    by (fastforce simp: signed_inv_def login_inv_def login_ok_def good_answer_def)
qed

theorem login_single_use_witness:
  "\<exists>t l. reachable web_start sample_step t \<and> logins t = [l] \<and> l_device l = units ''7Q5V'' \<and>
    near_window (l_counter l) (an_time (l_answer l)) \<and>
    length (filter (\<lambda>fl. signed_device (phase fl) = Some (units ''7Q5V'')) (flights t)) = 1"
proof -
  obtain t l fl where t: "reachable web_start sample_step t" "logins t = [l]" "l_device l = units ''7Q5V''"
    by (rule sample_run)
  have "env_delay sample_env \<le> 90000" "stepSeconds (env_config sample_env) = 90" by simp_all
  note u = login_single_use [OF mem.sqlite_keystore_axioms hmac_digest_32_sample this t(1)]
  have "length (filter (\<lambda>fl. signed_device (phase fl) = Some (units ''7Q5V'')) (flights t)) =
      length (filter (\<lambda>l. l_device l = units ''7Q5V'') (logins t))"
    using u by blast
  moreover have "near_window (l_counter l) (an_time (l_answer l))" using u t(2) by simp
  ultimately show ?thesis using t by auto
qed

text \<open>
  C15. The attempt budget. No more than \<open>attemptsPerWindow\<close> requests are charged to a device in one
  window, and every request that has the daemon asked about a device, or that signs it in, is
  charged to it: nobody can try more codes than that per window, however many connections they use.
\<close>

theorem attempts_bounded:
  assumes "reachable web_start (web_step P tbl H R F dummy_key vuid auid E) s"
  shows "length (filter (\<lambda>fl. charged fl = Some (i, w)) (flights s)) \<le> attemptsPerWindow (env_config E) \<and>
    (\<forall>fl \<in> set (flights s). \<forall>j. asks_device (phase fl) = Some j \<longrightarrow>
       (\<exists>v \<le> windowOf (env_config E) (clock s). charged fl = Some (j, v)))"
proof -
  have inv: "budget_inv (env_config E) s" using assms by (rule budget.reachable_inv)
  have "\<exists>v \<le> windowOf (env_config E) (clock s). charged fl = Some (j, v)"
    if fl: "fl \<in> set (flights s)" "asks_device (phase fl) = Some j" for fl j
  proof -
    have "\<exists>v. charged fl = Some (j, v)" using inv fl unfolding budget_inv_def list_all_iff by blast
    then obtain v where v: "charged fl = Some (j, v)" ..
    with fl(1) have "charges s (j, v) \<noteq> 0" by (auto simp: charges_def filter_empty_conv)
    with budgetD(3) [OF inv] v show ?thesis by blast
  qed
  then show ?thesis using budgetD(1) [OF inv, of i w] by (simp add: charges_def)
qed

theorem attempts_bounded_witness:
  "\<exists>t fl v. reachable web_start sample_step t \<and> flights t = [fl] \<and> v \<le> windowOf (env_config sample_env) (clock t) \<and>
    charged fl = Some (units ''7Q5V'', v)"
proof -
  obtain t fl where t: "reachable web_start sample_step t" "flights t = [fl]"
    "phase fl = Replied (Signed_in (units ''7Q5V'') ''tok'' (rq_target sample_request))"
    by (rule sample_run)
  have "asks_device (phase fl) = Some (units ''7Q5V'')" by (simp add: asks_device_def t(3))
  then have "\<exists>v \<le> windowOf (env_config sample_env) (clock t). charged fl = Some (units ''7Q5V'', v)"
    using attempts_bounded [OF t(1)] t(2) by simp
  with t show ?thesis by blast
qed

text \<open>
  C13. A right code signs in. A request from the login page's origin, with a device's identifier and
  the code its key shows in one of the three windows, however they were typed, has a run that ends
  with the session's cookie, and with a session for that device in the store: provided that the
  keystore answers, the device is active, the budgets leave room, and the window the code matched
  is newer than the last one claimed.
\<close>

theorem login_completes:
  fixes rq :: otp_request
  assumes "sqlite_available P tbl up" and "hmac_digest_32 H"
    and "up (srv_db (srv s))" and "valid_device_id ident" and "tbl (srv_db (srv s)) ident = Some r"
    and "r_status r = 1" and "length (c_str (r_key r)) = 128"
    and "window_match H (c_str (r_key r)) (daemon_now (clock s) div 90) code = Some c" and "unat c < 10 ^ 15"
    and "rq_origin rq = Some (env_origin E)" and "env_origin E \<noteq> ''''"
    and "normalizeId (env_upper E) (rq_device rq) = units ident" and "normalizeCode (rq_code rq) = units code"
    and "has_room E s (rq_ip rq) (units ident) (unat c)"
  shows "\<exists>t. (web_step P tbl H R F dummy_key vuid auid E)\<^sup>*\<^sup>* s t \<and> clock t = clock s \<and>
    request (last (flights t)) = rq \<and>
    phase (last (flights t)) = Replied (Signed_in (units ident) tok (rq_target rq)) \<and>
    sess (wstore t) (env_hash E tok) = Some \<lparr>ws_device = units ident, ws_created = clock s,
      ws_expires = clock s + sessionTtlSeconds (env_config E) * 1000\<rparr>"
proof -
  have code: "length code = 8" "all_digits code" using window_match_wellformed [OF assms(2,8)] by simp_all
  then have "isValidCode (units code)" by (auto simp: isValidCode_iff all_digits_iff)
  moreover obtain db' where "verifier_handle_request P H dummy_key (daemon_now (clock s))
      (''VERIFY '' @ ident @ '' '' @ code) (srv_db (srv s)) = (Inr (''OK '' @ nat_to_string (unat c) @ [nl]), db')"
    using sqlite_available.verify_complete [OF assms(1-8), of dummy_key] by (metis prod.collapse)
  ultimately have "\<exists>fl st l. (web_step P tbl H R F dummy_key vuid auid E)\<^sup>*\<^sup>* s
        (under_way s fl st [l] ((srv s)\<lparr>srv_db := db'\<rparr>)) \<and>
      request fl = rq \<and> phase fl = Replied (Signed_in (units ident) tok (rq_target rq)) \<and>
      sess st (env_hash E tok) = Some \<lparr>ws_device = units ident, ws_created = clock s,
        ws_expires = clock s + sessionTtlSeconds (env_config E) * 1000\<rparr> \<and>
      l_device l = units ident \<and> l_counter l = unat c"
    by (intro login_run [OF assms(10-12,4,13) _ assms(14,9)])
  then obtain fl st l where t: "(web_step P tbl H R F dummy_key vuid auid E)\<^sup>*\<^sup>* s
      (under_way s fl st [l] ((srv s)\<lparr>srv_db := db'\<rparr>))"
    and fl: "request fl = rq \<and> phase fl = Replied (Signed_in (units ident) tok (rq_target rq)) \<and>
      sess st (env_hash E tok) = Some \<lparr>ws_device = units ident, ws_created = clock s,
        ws_expires = clock s + sessionTtlSeconds (env_config E) * 1000\<rparr>"
    by blast
  show ?thesis
  proof (intro exI conjI)
    show "(web_step P tbl H R F dummy_key vuid auid E)\<^sup>*\<^sup>* s (under_way s fl st [l] ((srv s)\<lparr>srv_db := db'\<rparr>))"
      by (rule t)
  qed (use fl in \<open>simp_all add: under_way_def\<close>)
qed

theorem login_completes_witness:
  "\<exists>t. sample_step\<^sup>*\<^sup>* sample_web t \<and>
    sess (wstore t) ''tok'' = Some \<lparr>ws_device = units ''7Q5V'', ws_created = 1800000, ws_expires = 45000000\<rparr>"
proof -
  obtain c :: u64
    where c: "window_match sample_hmac (c_str (r_key (sample_row 1))) (daemon_now (clock sample_web) div 90) sample_code = Some c"
      "unat c < 10 ^ 15"
    using sample_window by (metis sample_web_sel(1))
  have row: "mem_up (srv_db (srv sample_web))" "mem_tbl (srv_db (srv sample_web)) ''7Q5V'' = Some (sample_row 1)"
    "r_status (sample_row 1) = 1" "length (c_str (r_key (sample_row 1))) = 128"
    "rq_origin sample_request = Some (env_origin sample_env)" "env_origin sample_env \<noteq> ''''"
    by (simp_all add: sample_server_def sample_request_sel(3))
  from login_completes [OF mem.sqlite_available_axioms hmac_digest_32_sample row(1) sample_ids(1) row(2-4) c row(5,6)
      sample_request_sel(1,2) sample_room, of list_rng disk_calls sample_key "-1" "-1" "''tok''"]
  show ?thesis by auto
qed

end
