(* ===== verification/Auth_Tokens.thy ===== *)
theory Auth_Tokens
  imports Auth_Store "HOL-Library.AList"
begin

text \<open>
  Device tokens, \<open>auth-web/src/stores/memory.js\<close>: long-lived credentials for clients that cannot
  follow the login. The two \<open>Map\<close>s are association lists, because \<open>list\<close> shows a map's insertion
  order; \<open>AList.update\<close> keeps the place of a key, as \<open>Map.set\<close> does. The new token, its identifier
  and its hash are arguments. Only the hash is stored.
\<close>

section \<open>The store\<close>

record token_config =
  tokenTtlSeconds :: nat
  maxTokensPerDevice :: nat

record web_token =
  wt_id :: string
  wt_device :: js_string
  wt_label :: js_string
  wt_created :: nat
  wt_used :: "nat option"
  wt_expires :: nat

record token_store =
  toks :: "(string \<times> web_token) list"
  tokIds :: "(string \<times> string) list"

definition empty_tokens :: token_store where
  "empty_tokens = \<lparr>toks = [], tokIds = []\<rparr>"

definition live :: "nat \<Rightarrow> web_token \<Rightarrow> bool" where
  "live now r \<longleftrightarrow> now < wt_expires r"

definition owned :: "nat \<Rightarrow> js_string \<Rightarrow> token_store \<Rightarrow> web_token list" where
  "owned now device ts = filter (\<lambda>r. wt_device r = device \<and> live now r) (map snd (toks ts))"

definition token_create ::
    "token_config \<Rightarrow> nat \<Rightarrow> string \<Rightarrow> string \<Rightarrow> js_string \<Rightarrow> js_string \<Rightarrow> token_store \<Rightarrow>
     web_token option \<times> token_store" where
  "token_create cfg now hashed tid device label ts =
     (if maxTokensPerDevice cfg \<le> length (owned now device ts) then (None, ts)
      else let r = \<lparr>wt_id = tid, wt_device = device, wt_label = label, wt_created = now, wt_used = None,
                     wt_expires = now + tokenTtlSeconds cfg * 1000\<rparr>
           in (Some r, \<lparr>toks = AList.update hashed r (toks ts), tokIds = AList.update tid hashed (tokIds ts)\<rparr>))"

text \<open>\<open>TOKEN_RE\<close>, and a lookup by the hash of what the client sent.\<close>

definition token_char :: "char \<Rightarrow> bool" where
  "token_char c \<longleftrightarrow>
     CHR ''A'' \<le> c \<and> c \<le> CHR ''Z'' \<or> CHR ''a'' \<le> c \<and> c \<le> CHR ''z'' \<or> CHR ''0'' \<le> c \<and> c \<le> CHR ''9'' \<or>
     c = CHR ''_'' \<or> c = CHR ''-''"

definition isTokenShaped :: "string \<Rightarrow> bool" where
  "isTokenShaped v \<longleftrightarrow> take 4 v = ''xat_'' \<and> length v = 47 \<and> list_all token_char (drop 4 v)"

definition token_lookup :: "(string \<Rightarrow> string) \<Rightarrow> nat \<Rightarrow> string \<Rightarrow> token_store \<Rightarrow> web_token option" where
  "token_lookup hash now token ts =
     (if \<not> isTokenShaped token then None
      else case map_of (toks ts) (hash token) of
        Some r \<Rightarrow> if live now r then Some r else None
      | None \<Rightarrow> None)"

definition token_list :: "nat \<Rightarrow> js_string \<Rightarrow> token_store \<Rightarrow> web_token list" where
  "token_list now device ts = sort_key wt_created (owned now device ts)"

definition token_revoke :: "js_string \<Rightarrow> string \<Rightarrow> token_store \<Rightarrow> bool \<times> token_store" where
  "token_revoke device tid ts =
     (case map_of (tokIds ts) tid of
        None \<Rightarrow> (False, ts)
      | Some h \<Rightarrow>
          if h = '''' then (False, ts)
          else (case map_of (toks ts) h of
             None \<Rightarrow> (False, ts)
           | Some r \<Rightarrow>
               if wt_device r \<noteq> device then (False, ts)
               else (True, \<lparr>toks = AList.delete h (toks ts), tokIds = AList.delete tid (tokIds ts)\<rparr>)))"

definition token_touch :: "nat \<Rightarrow> web_token \<Rightarrow> token_store \<Rightarrow> token_store" where
  "token_touch now t ts =
     (case map_of (tokIds ts) (wt_id t) of
        None \<Rightarrow> ts
      | Some h \<Rightarrow>
          if h = '''' then ts
          else (case map_of (toks ts) h of
             None \<Rightarrow> ts
           | Some r \<Rightarrow>
               if (case wt_used r of None \<Rightarrow> True | Some u \<Rightarrow> u + 60000 < now)
               then ts\<lparr>toks := AList.update h (r\<lparr>wt_used := Some now\<rparr>) (toks ts)\<rparr> else ts))"

text \<open>The token part of \<open>sweep\<close>: the loop deletes from both maps as it goes over the first.\<close>

definition token_sweep :: "nat \<Rightarrow> token_store \<Rightarrow> token_store" where
  "token_sweep now ts =
     (let gone = filter (\<lambda>(k, r). wt_expires r \<le> now) (toks ts)
      in \<lparr>toks = filter (\<lambda>(k, r). \<not> wt_expires r \<le> now) (toks ts),
          tokIds = foldl (\<lambda>ids (k, r). AList.delete (wt_id r) ids) (tokIds ts) gone\<rparr>)"

section \<open>Any use of the store\<close>

datatype token_event =
    Tok_create string string js_string js_string
  | Tok_revoke js_string string
  | Tok_touch web_token
  | Tok_sweep

definition token_event :: "token_config \<Rightarrow> nat \<Rightarrow> token_event \<Rightarrow> token_store \<Rightarrow> token_store" where
  "token_event cfg now ev ts =
     (case ev of
        Tok_create hashed tid device label \<Rightarrow> snd (token_create cfg now hashed tid device label ts)
      | Tok_revoke device tid \<Rightarrow> snd (token_revoke device tid ts)
      | Tok_touch t \<Rightarrow> token_touch now t ts
      | Tok_sweep \<Rightarrow> token_sweep now ts)"

section \<open>The number of tokens\<close>

definition count_values :: "('v \<Rightarrow> bool) \<Rightarrow> ('k \<times> 'v) list \<Rightarrow> nat" where
  "count_values Q xs = length (filter Q (map snd xs))"

lemma count_values_simps [simp]:
  "count_values Q [] = 0"
  "count_values Q (p # xs) = (if Q (snd p) then 1 else 0) + count_values Q xs"
  by (simp_all add: count_values_def)

lemma count_values_update:
  "count_values Q (AList.update k v xs) \<le> count_values Q xs + (if Q v then 1 else 0)"
  by (induction xs) auto

lemma count_values_replace:
  "map_of xs k = Some r \<Longrightarrow> Q v = Q r \<Longrightarrow> count_values Q (AList.update k v xs) = count_values Q xs"
  by (induction xs) auto

lemma count_values_filter: "count_values Q (filter p xs) \<le> count_values Q xs"
  by (induction xs) auto

lemma count_values_delete: "count_values Q (AList.delete k xs) \<le> count_values Q xs"
  unfolding AList.delete_eq by (rule count_values_filter)

lemma count_values_mono: "(\<And>v. Q v \<Longrightarrow> Q' v) \<Longrightarrow> count_values Q xs \<le> count_values Q' xs"
  by (induction xs) (auto intro: le_SucI)

lemma length_owned: "length (owned now device ts) = count_values (\<lambda>r. wt_device r = device \<and> live now r) (toks ts)"
  by (simp add: owned_def count_values_def)

lemma owned_later: "now \<le> t \<Longrightarrow> length (owned t device ts) \<le> length (owned now device ts)"
  unfolding length_owned by (rule count_values_mono) (auto simp: live_def)

lemma owned_event:
  assumes "\<forall>d. length (owned now d ts) \<le> maxTokensPerDevice cfg"
  shows "length (owned now d (token_event cfg now ev ts)) \<le> maxTokensPerDevice cfg"
proof (cases ev)
  case (Tok_create h tid device label)
  let ?r = "\<lparr>wt_id = tid, wt_device = device, wt_label = label, wt_created = now, wt_used = None,
     wt_expires = now + tokenTtlSeconds cfg * 1000\<rparr>"
  have "count_values (\<lambda>r. wt_device r = d \<and> live now r) (AList.update h ?r (toks ts)) \<le> maxTokensPerDevice cfg"
    if "length (owned now device ts) < maxTokensPerDevice cfg"
    using count_values_update [of "\<lambda>r. wt_device r = d \<and> live now r" h ?r "toks ts"] assms that
    by (auto simp: length_owned split: if_splits dest: spec [of _ d])
  then show ?thesis using assms Tok_create by (auto simp: token_event_def token_create_def length_owned Let_def)
next
  case (Tok_revoke device tid)
  then show ?thesis using assms
    by (auto simp: token_event_def token_revoke_def length_owned split: option.splits
        intro: order_trans [OF count_values_delete])
next
  case (Tok_touch t)
  then show ?thesis using assms
    by (auto simp: token_event_def token_touch_def length_owned live_def count_values_replace split: option.splits)
next
  case Tok_sweep
  then show ?thesis using assms
    by (auto simp: token_event_def token_sweep_def length_owned Let_def intro: order_trans [OF count_values_filter])
qed

text \<open>A history of uses, each with its time; time does not run backwards.\<close>

definition token_run :: "token_config \<Rightarrow> (nat \<times> token_event) list \<Rightarrow> token_store \<Rightarrow> token_store" where
  "token_run cfg evs ts = fold (\<lambda>(t, ev). token_event cfg t ev) evs ts"

lemma owned_run:
  assumes "sorted (map fst evs)" and "\<forall>p \<in> set evs. t0 \<le> fst p"
    and "\<forall>d. length (owned t0 d ts) \<le> maxTokensPerDevice cfg"
    and "t0 \<le> now" and "\<forall>p \<in> set evs. fst p \<le> now"
  shows "length (owned now d (token_run cfg evs ts)) \<le> maxTokensPerDevice cfg"
  using assms
proof (induction evs arbitrary: ts t0)
  case Nil
  then show ?case using owned_later [of t0 now d ts] by (auto simp: token_run_def intro: order_trans)
next
  case (Cons p evs)
  obtain t ev where p: "p = (t, ev)" by fastforce
  have "length (owned t e ts) \<le> maxTokensPerDevice cfg" for e
    using owned_later [of t0 t e ts] Cons.prems(2,3) p by (auto intro: order_trans)
  then have "\<forall>e. length (owned t e (token_event cfg t ev ts)) \<le> maxTokensPerDevice cfg"
    using owned_event by blast
  from Cons.IH [OF _ _ this] Cons.prems p show ?case by (auto simp: token_run_def)
qed

section \<open>Whose token\<close>

text \<open>The device and the expiry of a record never change once it is stored.\<close>

definition token_of :: "string \<Rightarrow> token_store \<Rightarrow> (js_string \<times> nat) option" where
  "token_of h ts = map_option (\<lambda>r. (wt_device r, wt_expires r)) (map_of (toks ts) h)"

lemma token_of_event:
  assumes "token_of h ts = Some (d, e)" and "now < e" and "distinct (map fst (toks ts))"
    and "\<forall>tid. ev \<noteq> Tok_revoke d tid" and "\<forall>tid d' l. ev \<noteq> Tok_create h tid d' l"
  shows "token_of h (token_event cfg now ev ts) = Some (d, e)"
proof -
  obtain r where r: "map_of (toks ts) h = Some r" "wt_device r = d" "wt_expires r = e"
    using assms(1) by (auto simp: token_of_def)
  show ?thesis
  proof (cases ev)
    case (Tok_create h' tid device label)
    with assms(5) r show ?thesis
      by (auto simp: token_event_def token_create_def token_of_def Let_def update_conv')
  next
    case (Tok_revoke device tid)
    with assms(4) r show ?thesis
      by (auto simp: token_event_def token_revoke_def token_of_def delete_conv' split: option.splits)
  next
    case (Tok_touch t)
    with r show ?thesis
      by (auto simp: token_event_def token_touch_def token_of_def update_conv' split: option.splits)
  next
    case Tok_sweep
    have "map_of (filter (\<lambda>(k, r). \<not> wt_expires r \<le> now) (toks ts)) h = Some r"
      using map_of_SomeD [OF r(1)] r(3) assms(2,3) by (intro map_of_is_SomeI) (auto intro: distinct_map_filter)
    with Tok_sweep r show ?thesis by (simp add: token_event_def token_sweep_def token_of_def Let_def)
  qed
qed

lemma distinct_keys_filter: "distinct (map fst xs) \<Longrightarrow> distinct (map fst (filter p xs))"
  by (rule distinct_map_filter)

lemma keys_event:
  assumes "distinct (map fst (toks ts))"
  shows "distinct (map fst (toks (token_event cfg now ev ts)))"
proof (cases ev)
  case (Tok_create h tid device label)
  with assms show ?thesis by (auto simp: token_event_def token_create_def Let_def intro: distinct_update)
next
  case (Tok_revoke device tid)
  with assms show ?thesis
    by (auto simp: token_event_def token_revoke_def AList.delete_eq split: option.splits
        intro: distinct_keys_filter)
next
  case (Tok_touch t)
  with assms show ?thesis
    by (auto simp: token_event_def token_touch_def split: option.splits intro: distinct_update)
next
  case Tok_sweep
  with assms show ?thesis
    by (auto simp: token_event_def token_sweep_def Let_def intro: distinct_keys_filter)
qed

lemma token_of_run:
  assumes "token_of h ts = Some (d, e)" and "\<forall>p \<in> set evs. fst p < e" and "distinct (map fst (toks ts))"
    and "\<forall>p \<in> set evs. (\<forall>tid. snd p \<noteq> Tok_revoke d tid) \<and> (\<forall>tid d' l. snd p \<noteq> Tok_create h tid d' l)"
  shows "token_of h (token_run cfg evs ts) = Some (d, e)"
  using assms
proof (induction evs arbitrary: ts)
  case Nil
  then show ?case by (simp add: token_run_def)
next
  case (Cons p evs)
  obtain t ev where p: "p = (t, ev)" by fastforce
  have "token_of h (token_event cfg t ev ts) = Some (d, e)"
    using Cons.prems p by (intro token_of_event) auto
  from Cons.IH [OF this _ keys_event] Cons.prems p show ?case by (simp add: token_run_def)
qed

section \<open>Properties\<close>

text \<open>
  C33. Device tokens. Whatever requests create, use and revoke tokens and whenever the sweeper runs,
  as long as the server's clock does not run backwards, a
  device never has more than \<open>maxTokensPerDevice\<close> tokens that are still valid. A token of a
  device stays, with its device and its expiry, until it expires or that device revokes a token:
  no other device's revocation removes it.
\<close>

theorem tokens_of_devices:
  assumes "sorted (map fst evs)" and "\<forall>p \<in> set evs. fst p \<le> now"
    and "distinct (map fst (toks ts))" and "\<forall>d. length (owned 0 d ts) \<le> maxTokensPerDevice cfg"
  shows "length (token_list now d (token_run cfg evs ts)) \<le> maxTokensPerDevice cfg \<and>
    (token_of h ts = Some (d, e) \<and> now < e \<and>
     (\<forall>p \<in> set evs. (\<forall>tid. snd p \<noteq> Tok_revoke d tid) \<and> (\<forall>tid d' l. snd p \<noteq> Tok_create h tid d' l)) \<longrightarrow>
     token_of h (token_run cfg evs ts) = Some (d, e))"
proof
  have "length (owned now d (token_run cfg evs ts)) \<le> maxTokensPerDevice cfg"
    by (rule owned_run [where ?t0.0 = 0]) (use assms in simp_all)
  then show "length (token_list now d (token_run cfg evs ts)) \<le> maxTokensPerDevice cfg"
    by (simp add: token_list_def)
  show "token_of h ts = Some (d, e) \<and> now < e \<and>
     (\<forall>p \<in> set evs. (\<forall>tid. snd p \<noteq> Tok_revoke d tid) \<and> (\<forall>tid d' l. snd p \<noteq> Tok_create h tid d' l)) \<longrightarrow>
     token_of h (token_run cfg evs ts) = Some (d, e)"
    using assms(2,3) by (intro impI token_of_run) (auto intro: le_less_trans)
qed

theorem tokens_of_devices_witness:
  "let cfg = \<lparr>tokenTtlSeconds = 60, maxTokensPerDevice = 1\<rparr>;
       ts = snd (token_create cfg 0 ''h1'' ''id1'' (units ''7Q5V'') (units ''phone'') empty_tokens);
       evs = [(5, Tok_create ''h2'' ''id2'' (units ''7Q5V'') (units ''tv'')), (9, Tok_revoke (units ''AB12'') ''id1''),
              (9, Tok_sweep)]
   in length (token_list 10 (units ''7Q5V'') (token_run cfg evs ts)) \<le> 1 \<and>
      token_of ''h1'' (token_run cfg evs ts) = Some (units ''7Q5V'', 60000)"
proof -
  let ?cfg = "\<lparr>tokenTtlSeconds = 60, maxTokensPerDevice = 1\<rparr>"
  let ?ts = "snd (token_create ?cfg 0 ''h1'' ''id1'' (units ''7Q5V'') (units ''phone'') empty_tokens)"
  let ?evs = "[(5 :: nat, Tok_create ''h2'' ''id2'' (units ''7Q5V'') (units ''tv'')),
    (9, Tok_revoke (units ''AB12'') ''id1''), (9, Tok_sweep)]"
  have ids: "units ''7Q5V'' \<noteq> units ''AB12''" by (simp add: units_def)
  have "sorted (map fst ?evs)" "\<forall>p \<in> set ?evs. fst p \<le> 10" "distinct (map fst (toks ?ts))"
    "\<forall>d. length (owned 0 d ?ts) \<le> maxTokensPerDevice ?cfg"
    "token_of ''h1'' ?ts = Some (units ''7Q5V'', 60000)"
    "\<forall>p \<in> set ?evs. (\<forall>tid. snd p \<noteq> Tok_revoke (units ''7Q5V'') tid) \<and>
      (\<forall>tid d' l. snd p \<noteq> Tok_create ''h1'' tid d' l)"
    using ids by (simp_all add: token_create_def owned_def empty_tokens_def token_of_def Let_def)
  from tokens_of_devices [OF this(1-4), of "units ''7Q5V''" "''h1''" 60000] this(5,6)
  show ?thesis by (simp add: Let_def)
qed

end
