(* ===== verification/Auth_Verify.thy ===== *)
theory Auth_Verify
  imports Auth_Signin Auth_Tokens
begin

text \<open>
  The gate: \<open>auth-web/src/routes/verify.js\<close>, which nginx asks about every request to a gated
  application, and the cache of device states behind it, \<open>createStatusChecker\<close> in
  \<open>auth-web/src/verifier.js\<close>. The handler runs in pieces, as the one of \<open>Auth_Login\<close> does, on a
  system that has the login system as a part.
\<close>

section \<open>The handler\<close>

text \<open>
  The answers are 200 and 401; a proof wants to know for which device a 200 was given.
\<close>

type_synonym status_cache = "js_string \<rightharpoonup> bool \<times> nat"

datatype verify_phase =
    V_received
  | V_session "web_session option"
  | V_token "web_token option"
  | V_asking js_string
  | V_reply js_string device_status
  | V_checked js_string bool
  | V_granted js_string
  | V_refused

text \<open>\<open>isActive\<close> up to its \<open>await\<close>, and after it.\<close>

definition isActive_cached :: "nat \<Rightarrow> js_string \<Rightarrow> status_cache \<Rightarrow> verify_phase" where
  "isActive_cached now device cache =
     (case cache device of
        Some (active, until) \<Rightarrow> if now < until then V_checked device active else V_asking device
      | None \<Rightarrow> V_asking device)"

definition isActive_reply ::
    "nat \<Rightarrow> nat \<Rightarrow> js_string \<Rightarrow> device_status \<Rightarrow> status_cache \<Rightarrow> bool \<times> status_cache" where
  "isActive_reply ttl now device status cache =
     (case status of
        Status_error \<Rightarrow> (False, cache(device := None))
      | Active \<Rightarrow> (True, cache(device \<mapsto> (True, now + ttl)))
      | Inactive \<Rightarrow> (False, cache(device \<mapsto> (False, now + ttl))))"

text \<open>
  A request: the session cookie and the token header, as far as it sent them, and the session or
  the token that was found, and when. Of the other times, one is when the daemon gave the answer
  the handler waits for, the last when \<open>isActive\<close> returned.
\<close>

record check =
  ck_cookie :: "string option"
  ck_header :: "string option"
  ck_session :: "web_session option"
  ck_token :: "web_token option"
  ck_looked :: nat
  ck_phase :: verify_phase
  ck_asked :: nat
  ck_decided :: nat

record gate_state =
  gs_store :: web_store
  gs_tokens :: token_store
  gs_cache :: status_cache

text \<open>\<open>cfg\<close> is \<open>STATUS_CACHE_SECONDS\<close> in milliseconds.\<close>

definition verify_piece ::
    "nat \<Rightarrow> (string \<Rightarrow> string) \<Rightarrow> nat \<Rightarrow> check \<Rightarrow> gate_state \<Rightarrow> check \<times> gate_state" where
  "verify_piece ttl hash now ck g =
     (case ck_phase ck of
        V_received \<Rightarrow>
          (let (found, st) = session_get hash now (ck_cookie ck) (gs_store g)
           in (ck\<lparr>ck_session := found, ck_looked := now, ck_phase := V_session found\<rparr>, g\<lparr>gs_store := st\<rparr>))
      | V_session (Some session) \<Rightarrow>
          (ck\<lparr>ck_phase := isActive_cached now (ws_device session) (gs_cache g), ck_decided := now\<rparr>, g)
      | V_session None \<Rightarrow>
          (case ck_header ck of
             Some header \<Rightarrow>
               if header = '''' then (ck\<lparr>ck_phase := V_refused\<rparr>, g)
               else let found = token_lookup hash now header (gs_tokens g)
                    in (ck\<lparr>ck_token := found, ck_looked := now, ck_phase := V_token found\<rparr>, g)
           | None \<Rightarrow> (ck\<lparr>ck_phase := V_refused\<rparr>, g))
      | V_token (Some token) \<Rightarrow>
          (ck\<lparr>ck_phase := isActive_cached now (wt_device token) (gs_cache g), ck_decided := now\<rparr>, g)
      | V_token None \<Rightarrow> (ck\<lparr>ck_phase := V_refused\<rparr>, g)
      | V_asking device \<Rightarrow> (ck, g)
      | V_reply device status \<Rightarrow>
          (let (active, cache) = isActive_reply ttl now device status (gs_cache g)
           in (ck\<lparr>ck_phase := V_checked device active, ck_decided := now\<rparr>, g\<lparr>gs_cache := cache\<rparr>))
      | V_checked device active \<Rightarrow>
          (ck\<lparr>ck_phase := if active then V_granted device else V_refused\<rparr>,
           (case ck_token ck of
              Some t \<Rightarrow> if active then g\<lparr>gs_tokens := token_touch now t (gs_tokens g)\<rparr> else g
            | None \<Rightarrow> g))
      | V_granted device \<Rightarrow> (ck, g)
      | V_refused \<Rightarrow> (ck, g))"

definition status_line :: "js_string \<Rightarrow> string" where
  "status_line device = ''STATUS '' @ ascii_bytes device @ [nl]"

section \<open>The system\<close>

text \<open>
  The login system, the tokens, the cache and the requests under way. \<open>answers\<close> remembers when
  the daemon called which device active.
\<close>

record ('r, 'f, 'db) gate =
  g_web :: "('r, 'f, 'db) web"
  g_tokens :: token_store
  g_cache :: status_cache
  g_checks :: "check list"
  g_answers :: "(js_string \<times> nat) list"

abbreviation g_clock :: "('r, 'f, 'db) gate \<Rightarrow> nat" where
  "g_clock s \<equiv> clock (g_web s)"

abbreviation g_db :: "('r, 'f, 'db) gate \<Rightarrow> 'db" where
  "g_db s \<equiv> srv_db (srv (g_web s))"

definition gate_view :: "('r, 'f, 'db) gate \<Rightarrow> gate_state" where
  "gate_view s = \<lparr>gs_store = wstore (g_web s), gs_tokens = g_tokens s, gs_cache = g_cache s\<rparr>"

definition gate_put :: "gate_state \<Rightarrow> ('r, 'f, 'db) gate \<Rightarrow> ('r, 'f, 'db) gate" where
  "gate_put g s =
     s\<lparr>g_web := (g_web s)\<lparr>wstore := gs_store g\<rparr>, g_tokens := gs_tokens g, g_cache := gs_cache g\<rparr>"

text \<open>
  The answers of the daemon reach a request whole, cut short or not at all; an identifier that is
  not well-formed is inactive without a question.
\<close>

inductive gate_step ::
    "'db platform \<Rightarrow> ('db \<Rightarrow> table) \<Rightarrow> hmac_fn \<Rightarrow> 'r rng \<Rightarrow> 'f files \<Rightarrow> string \<Rightarrow> int \<Rightarrow> int \<Rightarrow> web_env \<Rightarrow>
     token_config \<Rightarrow> nat \<Rightarrow> ('r, 'f, 'db) gate \<Rightarrow> ('r, 'f, 'db) gate \<Rightarrow> bool"
  for P :: "'db platform" and tbl :: "'db \<Rightarrow> table" and H :: hmac_fn and R :: "'r rng" and F :: "'f files"
    and dummy_key :: string and vuid :: int and auid :: int and E :: web_env
    and tcfg :: token_config and ttl :: nat where
  login_side: "web_step P tbl H R F dummy_key vuid auid E (g_web s) w \<Longrightarrow>
    gate_step P tbl H R F dummy_key vuid auid E tcfg ttl s (s\<lparr>g_web := w\<rparr>)"
| tokens_used:
    "gate_step P tbl H R F dummy_key vuid auid E tcfg ttl s
      (s\<lparr>g_tokens := token_event tcfg (g_clock s) ev (g_tokens s)\<rparr>)"
| check_received:
    "gate_step P tbl H R F dummy_key vuid auid E tcfg ttl s
      (s\<lparr>g_checks := g_checks s @ [\<lparr>ck_cookie = cookie, ck_header = header, ck_session = None, ck_token = None,
         ck_looked = 0, ck_phase = V_received, ck_asked = 0, ck_decided = 0\<rparr>]\<rparr>)"
| check_piece: "k < length (g_checks s) \<Longrightarrow> ck = g_checks s ! k \<Longrightarrow>
    (\<And>i st. ck_phase ck = V_reply i st \<Longrightarrow> g_clock s \<le> ck_asked ck + env_delay E) \<Longrightarrow>
    verify_piece ttl (env_hash E) (g_clock s) ck (gate_view s) = (ck', g) \<Longrightarrow>
    gate_step P tbl H R F dummy_key vuid auid E tcfg ttl s
      (gate_put g (s\<lparr>g_checks := (g_checks s)[k := ck']\<rparr>))"
| status_told: "k < length (g_checks s) \<Longrightarrow> ck = g_checks s ! k \<Longrightarrow> ck_phase ck = V_asking i \<Longrightarrow>
    isValidId i \<Longrightarrow> status_line i = line @ [nl] \<Longrightarrow>
    verifier_handle_request P H dummy_key (daemon_now (g_clock s)) line (g_db s) = (Inr reply, db') \<Longrightarrow>
    prefix (data_of evs) reply \<Longrightarrow> client_status i evs = status \<Longrightarrow>
    gate_step P tbl H R F dummy_key vuid auid E tcfg ttl s
      (s\<lparr>g_web := (g_web s)\<lparr>srv := (srv (g_web s))\<lparr>srv_db := db'\<rparr>\<rparr>,
         g_checks := (g_checks s)[k := ck\<lparr>ck_phase := V_reply i status, ck_asked := g_clock s\<rparr>],
         g_answers := (if status = Active then [(i, g_clock s)] else []) @ g_answers s\<rparr>)"
| status_unasked: "k < length (g_checks s) \<Longrightarrow> ck = g_checks s ! k \<Longrightarrow> ck_phase ck = V_asking i \<Longrightarrow>
    \<not> isValidId i \<Longrightarrow>
    gate_step P tbl H R F dummy_key vuid auid E tcfg ttl s
      (s\<lparr>g_checks := (g_checks s)[k := ck\<lparr>ck_phase := V_reply i Inactive, ck_asked := g_clock s\<rparr>]\<rparr>)"
| status_missed: "k < length (g_checks s) \<Longrightarrow> ck = g_checks s ! k \<Longrightarrow> isValidId i \<Longrightarrow>
    ck_phase ck = V_asking i \<or> (\<exists>st. ck_phase ck = V_reply i st) \<Longrightarrow>
    gate_step P tbl H R F dummy_key vuid auid E tcfg ttl s
      (s\<lparr>g_checks := (g_checks s)[k := ck\<lparr>ck_phase := V_reply i Status_error, ck_asked := g_clock s\<rparr>]\<rparr>)"

definition gate_start :: "('r, 'f, 'db) gate \<Rightarrow> bool" where
  "gate_start s \<longleftrightarrow>
     web_start (g_web s) \<and> g_tokens s = empty_tokens \<and> g_cache s = Map.empty \<and> g_checks s = [] \<and> g_answers s = []"

section \<open>No grant without a recent answer\<close>

text \<open>
  \<open>fresh\<close>: at time \<open>g\<close> the device may count as active, on an answer the daemon gave at \<open>a\<close>.
\<close>

definition fresh :: "nat \<Rightarrow> nat \<Rightarrow> (js_string \<times> nat) list \<Rightarrow> js_string \<Rightarrow> nat \<Rightarrow> bool" where
  "fresh delay ttl answers i g \<longleftrightarrow>
     (\<exists>a. (i, a) \<in> set answers \<and> a \<le> g \<and> g < a + delay + max 1 ttl)"

definition check_ok :: "nat \<Rightarrow> nat \<Rightarrow> (js_string \<times> nat) list \<Rightarrow> nat \<Rightarrow> check \<Rightarrow> bool" where
  "check_ok delay ttl answers now ck \<longleftrightarrow>
     (\<forall>i. ck_phase ck = V_reply i Active \<longrightarrow> (i, ck_asked ck) \<in> set answers) \<and>
     (\<forall>i. ck_phase ck = V_checked i True \<or> ck_phase ck = V_granted i \<longrightarrow>
        ck_decided ck \<le> now \<and> fresh delay ttl answers i (ck_decided ck))"

definition cache_ok :: "nat \<Rightarrow> nat \<Rightarrow> (js_string \<times> nat) list \<Rightarrow> status_cache \<Rightarrow> bool" where
  "cache_ok delay ttl answers cache \<longleftrightarrow>
     (\<forall>i until. cache i = Some (True, until) \<longrightarrow> (\<exists>a. (i, a) \<in> set answers \<and> until \<le> a + delay + ttl))"

definition answers_ok :: "(js_string \<times> nat) list \<Rightarrow> nat \<Rightarrow> bool" where
  "answers_ok answers now \<longleftrightarrow> (\<forall>(i, a) \<in> set answers. a \<le> now)"

definition fresh_inv :: "nat \<Rightarrow> nat \<Rightarrow> ('r, 'f, 'db) gate \<Rightarrow> bool" where
  "fresh_inv delay ttl s \<longleftrightarrow>
     answers_ok (g_answers s) (g_clock s) \<and> cache_ok delay ttl (g_answers s) (g_cache s) \<and>
     list_all (check_ok delay ttl (g_answers s) (g_clock s)) (g_checks s)"

lemma check_ok_mono:
  "check_ok delay ttl answers now ck \<Longrightarrow> set answers \<subseteq> set answers' \<Longrightarrow> now \<le> now' \<Longrightarrow>
   check_ok delay ttl answers' now' ck"
  by (fastforce simp: check_ok_def fresh_def)

lemma cache_ok_mono:
  "cache_ok delay ttl answers cache \<Longrightarrow> set answers \<subseteq> set answers' \<Longrightarrow> cache_ok delay ttl answers' cache"
  by (fastforce simp: cache_ok_def)

lemma cache_ok_update:
  "cache_ok delay ttl answers cache \<Longrightarrow>
   (\<And>until. v = Some (True, until) \<Longrightarrow> \<exists>a. (i, a) \<in> set answers \<and> until \<le> a + delay + ttl) \<Longrightarrow>
   cache_ok delay ttl answers (cache(i := v))"
  by (simp add: cache_ok_def)

lemma isActive_cached_ok:
  assumes "cache_ok delay ttl answers cache" and "answers_ok answers now"
    and "isActive_cached now i cache = V_checked j True"
  shows "j = i \<and> fresh delay ttl answers i now"
proof -
  from assms(3) obtain until where c: "cache i = Some (True, until)" "now < until" "j = i"
    by (auto simp: isActive_cached_def split: option.splits if_splits)
  with assms(1) obtain a where a: "(i, a) \<in> set answers" "until \<le> a + delay + ttl" by (auto simp: cache_ok_def)
  with assms(2) c show ?thesis by (force simp: fresh_def answers_ok_def)
qed

lemma isActive_cached_other:
  "isActive_cached now i cache \<noteq> V_reply j st" "isActive_cached now i cache \<noteq> V_granted j"
  by (auto simp: isActive_cached_def split: option.splits)

lemma verify_piece_ok:
  assumes "check_ok delay ttl answers now ck" and "cache_ok delay ttl answers (gs_cache g)"
    and "answers_ok answers now" and "\<And>i st. ck_phase ck = V_reply i st \<Longrightarrow> now \<le> ck_asked ck + delay"
    and "verify_piece ttl hash now ck g = (ck', g')"
  shows "check_ok delay ttl answers now ck' \<and> cache_ok delay ttl answers (gs_cache g')"
proof (cases "ck_phase ck")
  case (V_session found)
  with assms show ?thesis
    by (auto simp: verify_piece_def check_ok_def Let_def isActive_cached_other split: option.splits if_splits
        dest: isActive_cached_ok)
next
  case (V_token found)
  with assms show ?thesis
    by (auto simp: verify_piece_def check_ok_def isActive_cached_other split: option.splits
        dest: isActive_cached_ok)
next
  case (V_reply i st)
  then have now: "now \<le> ck_asked ck + delay" by (rule assms(4))
  have "(i, ck_asked ck) \<in> set answers" if "st = Active"
    using assms(1) V_reply that by (simp add: check_ok_def)
  then have "fresh delay ttl answers i now" "\<exists>a. (i, a) \<in> set answers \<and> now + ttl \<le> a + delay + ttl" if "st = Active"
    using now that assms(3) by (force simp: fresh_def answers_ok_def)+
  with assms(2,5) V_reply show ?thesis
    by (auto simp: verify_piece_def isActive_reply_def check_ok_def split: device_status.splits
        intro!: cache_ok_update) blast
qed (use assms in \<open>auto simp: verify_piece_def check_ok_def fresh_def split: prod.splits option.splits if_splits\<close>)

lemma web_step_grows:
  assumes "web_step P tbl H R F dummy_key vuid auid E s t"
  shows "clock s \<le> clock t" "set (logins s) \<subseteq> set (logins t)"
  using assms by (auto elim!: web_step.cases)

lemma fresh_inv_step:
  assumes "fresh_inv (env_delay E) ttl s" and "gate_step P tbl H R F dummy_key vuid auid E tcfg ttl s t"
  shows "fresh_inv (env_delay E) ttl t"
  using assms(2)
proof (cases rule: gate_step.cases)
  case (login_side w)
  with assms(1) web_step_grows(1) [OF login_side(2)] show ?thesis
    by (auto simp: fresh_inv_def answers_ok_def list_all_iff intro: check_ok_mono)
next
  case (check_piece k ck ck' g)
  have "check_ok (env_delay E) ttl (g_answers s) (g_clock s) ck"
    using assms(1) check_piece(2,3) by (simp add: fresh_inv_def list_all_length)
  from verify_piece_ok [OF this _ _ check_piece(4,5)] assms(1)
  show ?thesis by (simp add: check_piece(1) fresh_inv_def gate_put_def gate_view_def list_all_update)
next
  case (status_told k ck i line reply db' evs status)
  define new where "new = (if status = Active then [(i, g_clock s)] else []) @ g_answers s"
  have "set (g_answers s) \<subseteq> set new" by (auto simp: new_def)
  then have "cache_ok (env_delay E) ttl new (g_cache s)"
    "list_all (check_ok (env_delay E) ttl new (g_clock s)) (g_checks s)"
    using assms(1) by (auto simp: fresh_inv_def list_all_iff intro: cache_ok_mono check_ok_mono)
  moreover have "check_ok (env_delay E) ttl new (g_clock s) (ck\<lparr>ck_phase := V_reply i status, ck_asked := g_clock s\<rparr>)"
    by (simp add: check_ok_def new_def)
  moreover have "answers_ok new (g_clock s)" using assms(1) by (auto simp: fresh_inv_def answers_ok_def new_def)
  ultimately show ?thesis by (simp add: status_told(1) new_def fresh_inv_def list_all_update)
next
  case (status_missed k ck i)
  with assms(1) show ?thesis
    by (auto simp: fresh_inv_def check_ok_def list_all_update)
qed (use assms(1) in \<open>auto simp: fresh_inv_def check_ok_def list_all_update\<close>)

section \<open>Who is behind a grant\<close>

definition check_device :: "verify_phase \<Rightarrow> js_string option" where
  "check_device ph =
     (case ph of
        V_session found \<Rightarrow> map_option ws_device found
      | V_token found \<Rightarrow> map_option wt_device found
      | V_asking i \<Rightarrow> Some i
      | V_reply i st \<Rightarrow> Some i
      | V_checked i active \<Rightarrow> Some i
      | V_granted i \<Rightarrow> Some i
      | _ \<Rightarrow> None)"

text \<open>
  A session of the device that had not expired, with the login it comes from, or a token of the
  device that had not expired, which the request showed.
\<close>

definition session_backed :: "nat \<Rightarrow> login list \<Rightarrow> nat \<Rightarrow> web_session \<Rightarrow> bool" where
  "session_backed life ls looked ws \<longleftrightarrow>
     looked < ws_created ws + life * 1000 \<and> (\<exists>l \<in> set ls. l_device l = ws_device ws \<and> l_time l \<le> ws_created ws)"

definition token_backed :: "nat \<Rightarrow> string option \<Rightarrow> web_token \<Rightarrow> bool" where
  "token_backed looked header t \<longleftrightarrow> looked < wt_expires t \<and> (\<exists>h. header = Some h \<and> isTokenShaped h)"

definition backed :: "nat \<Rightarrow> login list \<Rightarrow> check \<Rightarrow> bool" where
  "backed life ls ck \<longleftrightarrow>
     (\<forall>i. check_device (ck_phase ck) = Some i \<longrightarrow>
        (\<exists>ws. ck_session ck = Some ws \<and> ws_device ws = i \<and> session_backed life ls (ck_looked ck) ws) \<or>
        (\<exists>t. ck_token ck = Some t \<and> wt_device t = i \<and> token_backed (ck_looked ck) (ck_header ck) t)) \<and>
     (\<forall>ws. ck_phase ck = V_session (Some ws) \<longrightarrow> ck_session ck = Some ws) \<and>
     (\<forall>t. ck_phase ck = V_token (Some t) \<longrightarrow> ck_token ck = Some t)"

definition backed_inv :: "web_env \<Rightarrow> ('r, 'f, 'db) gate \<Rightarrow> bool" where
  "backed_inv E s \<longleftrightarrow>
     session_inv (env_config E) (g_web s) \<and>
     list_all (backed (sessionTtlSeconds (env_config E)) (logins (g_web s))) (g_checks s)"

lemma backed_mono: "backed life ls ck \<Longrightarrow> set ls \<subseteq> set ls' \<Longrightarrow> backed life ls' ck"
  by (fastforce simp: backed_def session_backed_def)

lemma backed_phase:
  "backed life ls ck \<Longrightarrow> check_device ph = check_device (ck_phase ck) \<Longrightarrow>
   (\<And>ws. ph \<noteq> V_session ws) \<Longrightarrow> (\<And>t. ph \<noteq> V_token t) \<Longrightarrow>
   backed life ls (ck\<lparr>ck_phase := ph, ck_asked := n\<rparr>)"
  by (simp add: backed_def)

text \<open>What a piece does to the sessions is what any lookup does.\<close>

lemma verify_piece_store:
  "verify_piece ttl hash now ck g = (ck', g') \<Longrightarrow>
   gs_store g' = gs_store g \<or> gs_store g' = snd (session_get hash now (ck_cookie ck) (gs_store g))"
  by (auto simp: verify_piece_def Let_def split: verify_phase.splits option.splits prod.splits if_splits)

lemma isActive_cached_device:
  "check_device (isActive_cached now i cache) = Some i"
  "isActive_cached now i cache \<noteq> V_session found" "isActive_cached now i cache \<noteq> V_token tok"
  by (auto simp: isActive_cached_def check_device_def split: option.splits)

lemma token_lookup_live:
  "token_lookup hash now h ts = Some t \<Longrightarrow> isTokenShaped h \<and> now < wt_expires t"
  by (simp add: token_lookup_def live_def split: if_splits option.splits)

text \<open>
  What a request shows at a state of the system, written out over the stores: under the hash of its
  cookie an unexpired session, under the hash of its header, of the shape of a token, an unexpired
  token. The lookups find just that.
\<close>

definition shown_session :: "web_env \<Rightarrow> ('r, 'f, 'db) gate \<Rightarrow> string option \<Rightarrow> web_session \<Rightarrow> bool" where
  "shown_session E s cookie ws \<longleftrightarrow>
     (\<exists>c. cookie = Some c \<and> c \<noteq> '''' \<and> length c \<le> 128 \<and> sess (wstore (g_web s)) (env_hash E c) = Some ws \<and>
       g_clock s < ws_expires ws)"

definition shown_token :: "web_env \<Rightarrow> ('r, 'f, 'db) gate \<Rightarrow> string option \<Rightarrow> web_token \<Rightarrow> bool" where
  "shown_token E s header t \<longleftrightarrow>
     (\<exists>h. header = Some (''xat_'' @ h) \<and> length h = 43 \<and> list_all token_char h \<and>
       map_of (toks (g_tokens s)) (env_hash E (''xat_'' @ h)) = Some t \<and> g_clock s < wt_expires t)"

lemma session_get_shown:
  "fst (session_get (env_hash E) (g_clock s) cookie (wstore (g_web s))) = Some ws \<longleftrightarrow> shown_session E s cookie ws"
  by (auto simp: session_get_def shown_session_def split: option.splits)

lemma isTokenShaped_iff:
  "isTokenShaped v \<longleftrightarrow> (\<exists>h. v = ''xat_'' @ h \<and> length h = 43 \<and> list_all token_char h)"
proof
  assume v: "isTokenShaped v"
  have "v = take 4 v @ drop 4 v" by (simp only: append_take_drop_id)
  with v have "v = ''xat_'' @ drop 4 v" by (simp only: isTokenShaped_def)
  moreover have "length (drop 4 v) = 43" "list_all token_char (drop 4 v)"
    using v by (simp_all add: isTokenShaped_def)
  ultimately show "\<exists>h. v = ''xat_'' @ h \<and> length h = 43 \<and> list_all token_char h" by blast
qed (auto simp: isTokenShaped_def)

lemma token_lookup_shown:
  "token_lookup (env_hash E) (g_clock s) h (g_tokens s) = Some t \<longleftrightarrow> shown_token E s (Some h) t"
  by (auto simp: token_lookup_def shown_token_def live_def isTokenShaped_iff split: option.splits if_splits)

lemma verify_piece_backed:
  assumes "backed life ls ck" and "verify_piece ttl hash now ck g = (ck', g')"
    and "\<And>ws st. session_get hash now (ck_cookie ck) (gs_store g) = (Some ws, st) \<Longrightarrow> session_backed life ls now ws"
  shows "backed life ls ck'"
proof (cases "ck_phase ck")
  case V_received
  obtain found st where f: "session_get hash now (ck_cookie ck) (gs_store g) = (found, st)" by fastforce
  have "session_backed life ls now ws" if "found = Some ws" for ws
    by (rule assms(3) [OF f [unfolded that]])
  with f V_received assms(2) show ?thesis
    by (auto simp: verify_piece_def backed_def check_device_def)
next
  case (V_session found)
  with assms(1,2) show ?thesis
    by (auto simp: verify_piece_def backed_def isActive_cached_device Let_def split: option.splits if_splits)
       (auto simp: check_device_def token_backed_def dest: token_lookup_live)
next
  case (V_token found)
  with assms(1,2) show ?thesis
    by (auto simp: verify_piece_def backed_def isActive_cached_device split: option.splits)
       (auto simp: check_device_def)
next
  case (V_checked i active)
  with assms(1,2) show ?thesis
    by (auto simp: verify_piece_def backed_def check_device_def split: if_splits)
qed (use assms(1,2) in \<open>auto simp: verify_piece_def backed_def check_device_def split: prod.splits\<close>)

lemma session_found:
  assumes "session_inv cfg w" and "session_get hash now token (wstore w) = (Some ws, st)"
  shows "session_backed (sessionTtlSeconds cfg) (logins w) now ws"
proof -
  obtain k where "sess (wstore w) k = Some ws" using session_get_live(2) [OF assms(2)] ..
  from session_invD(1) [OF assms(1) this] session_get_live(1) [OF assms(2)]
  show ?thesis by (auto simp: session_backed_def logged_in_def)
qed

lemma backed_inv_step:
  assumes "backed_inv E s" and "gate_step P tbl H R F dummy_key vuid auid E tcfg ttl s t"
  shows "backed_inv E t"
  using assms(2)
proof (cases rule: gate_step.cases)
  case (login_side w)
  with assms(1) web_step_grows(2) [OF login_side(2)] session_inv_step [OF _ login_side(2)] show ?thesis
    by (auto simp: backed_inv_def list_all_iff intro: backed_mono)
next
  case (check_piece k ck ck' g)
  have inv: "session_inv (env_config E) (g_web s)"
    and ck: "backed (sessionTtlSeconds (env_config E)) (logins (g_web s)) ck"
    using assms(1) check_piece(2,3) by (simp_all add: backed_inv_def list_all_length)
  have "backed (sessionTtlSeconds (env_config E)) (logins (g_web s)) ck'"
    by (rule verify_piece_backed [OF ck check_piece(5)]) (simp add: gate_view_def session_found [OF inv])
  moreover have "session_inv (env_config E) ((g_web s)\<lparr>wstore := gs_store g\<rparr>)"
    using verify_piece_store [OF check_piece(5)] inv
      session_inv_step [OF inv looked_up [of P tbl H R F dummy_key vuid auid E "g_web s" "ck_cookie ck"]]
    by (auto simp: gate_view_def)
  ultimately show ?thesis using assms(1)
    by (simp add: check_piece(1) backed_inv_def gate_put_def list_all_update)
next
  case (status_told k ck i line reply db' evs status)
  have "backed (sessionTtlSeconds (env_config E)) (logins (g_web s))
      (ck\<lparr>ck_phase := V_reply i status, ck_asked := g_clock s\<rparr>)"
    by (rule backed_phase)
       (use assms(1) status_told(2-4) in \<open>simp_all add: backed_inv_def list_all_length check_device_def\<close>)
  with assms(1) show ?thesis
    by (simp add: status_told(1) backed_inv_def list_all_update session_inv_def)
next
  case (status_missed k ck i)
  have "backed (sessionTtlSeconds (env_config E)) (logins (g_web s))
      (ck\<lparr>ck_phase := V_reply i Status_error, ck_asked := g_clock s\<rparr>)"
    by (rule backed_phase)
       (use assms(1) status_missed(2,3,5) in \<open>auto simp: backed_inv_def list_all_length check_device_def\<close>)
  with assms(1) show ?thesis by (simp add: status_missed(1) backed_inv_def list_all_update)
next
  case (status_unasked k ck i)
  have "backed (sessionTtlSeconds (env_config E)) (logins (g_web s))
      (ck\<lparr>ck_phase := V_reply i Inactive, ck_asked := g_clock s\<rparr>)"
    by (rule backed_phase)
       (use assms(1) status_unasked(2-4) in \<open>auto simp: backed_inv_def list_all_length check_device_def\<close>)
  with assms(1) show ?thesis by (simp add: status_unasked(1) backed_inv_def list_all_update)
qed (use assms(1) in \<open>auto simp: backed_inv_def backed_def check_device_def\<close>)

lemma gate_start_inv:
  assumes "gate_start s"
  shows "fresh_inv delay ttl s" "backed_inv E s"
  using assms start_inv(3) [of "g_web s" "env_config E"]
  by (simp_all add: gate_start_def fresh_inv_def answers_ok_def cache_ok_def backed_inv_def)

interpretation gate_fresh: invariant_system gate_start
    "gate_step P tbl H R F dummy_key vuid auid E tcfg ttl" "fresh_inv (env_delay E) ttl"
  by unfold_locales (erule gate_start_inv, erule (1) fresh_inv_step)

interpretation gate_backed: invariant_system gate_start
    "gate_step P tbl H R F dummy_key vuid auid E tcfg ttl" "backed_inv E"
  by unfold_locales (erule gate_start_inv, erule (1) backed_inv_step)

section \<open>Revocation\<close>

definition inactive :: "('db \<Rightarrow> table) \<Rightarrow> string \<Rightarrow> ('r, 'f, 'db) gate \<Rightarrow> bool" where
  "inactive tbl ident s \<longleftrightarrow> (\<forall>r. tbl (g_db s) ident = Some r \<longrightarrow> r_status r \<noteq> 1)"

context sqlite_keystore
begin

text \<open>The daemon does not call an inactive device active.\<close>

lemma status_inactive_told:
  assumes "hmac_digest_32 H" and "status_line (units ident) = line @ [nl]"
    and "verifier_handle_request P H dummy_key now line db = (Inr reply, db')"
    and "prefix (data_of evs) reply" and "\<And>r. tbl db ident = Some r \<Longrightarrow> r_status r \<noteq> 1"
  shows "client_status (units ident) evs \<noteq> Active"
proof
  assume active: "client_status (units ident) evs = Active"
  then have valid: "isValidId (units ident)" by (auto simp: client_status_def split: if_splits)
  have "reply \<in> verifier_replies"
    using verifier_reply_total [OF assms(1), of P dummy_key now line db] assms(3) by auto
  from client_status_iff [OF this assms(4) valid] active have reply: "reply = ''ACTIVE'' @ [nl]" by blast
  have "line = ''STATUS '' @ ident"
    using assms(2) unfolding status_line_def ascii_bytes_units by (simp only: append_assoc [symmetric] append1_eq_conv)
  moreover have "CHR '' '' \<notin> set ident" using valid by (simp add: valid_device_id_chars)
  ultimately have "fst (verifier_handle_request P H dummy_key now line db) \<in>
      {Inr (''INACTIVE'' @ [nl]), Inr (''ERR'' @ [nl])}"
    using status_inactive [OF _ assms(5)] by blast
  then show False unfolding assms(3) reply by simp
qed

lemma status_active_told:
  assumes "hmac_digest_32 H" and "isValidId i" and "status_line i = line @ [nl]"
    and "verifier_handle_request P H dummy_key now line db = (Inr reply, db')"
    and "prefix (data_of evs) reply" and "client_status i evs = Active"
  shows "\<exists>ident r. i = units ident \<and> tbl db ident = Some r \<and> r_status r = 1"
proof -
  obtain ident where ident: "i = units ident" using assms(2) by (auto simp: isValidId_iff)
  have "\<not> (\<forall>r. tbl db ident = Some r \<longrightarrow> r_status r \<noteq> 1)"
    using status_inactive_told [OF assms(1) assms(3) [unfolded ident] assms(4,5)] assms(6)
    unfolding ident by blast
  then show ?thesis unfolding ident by blast
qed

lemma answers_inactive:
  assumes "hmac_digest_32 H" and "gate_step P tbl H R F dummy_key vuid auid E tcfg ttl s t"
    and "inactive tbl ident s" and "(units ident, a) \<in> set (g_answers t)"
  shows "(units ident, a) \<in> set (g_answers s)"
  using assms(2)
proof (cases rule: gate_step.cases)
  case (status_told k ck i line reply db' evs status)
  have "status \<noteq> Active" if "i = units ident"
    using status_inactive_told [OF assms(1) _ status_told(7,8)] status_told(6,9) that assms(3)
    by (auto simp: inactive_def)
  with assms(4) show ?thesis by (auto simp: status_told(1) split: if_splits)
qed (use assms(4) in \<open>auto simp: gate_put_def\<close>)

lemma answers_while_inactive:
  assumes "hmac_digest_32 H"
    and "(\<lambda>u v. gate_step P tbl H R F dummy_key vuid auid E tcfg ttl u v \<and> inactive tbl ident u)\<^sup>*\<^sup>* s t"
    and "(units ident, a) \<in> set (g_answers t)"
  shows "(units ident, a) \<in> set (g_answers s)"
  using assms(2,3)
  by (induction rule: rtranclp_induct) (auto dest: answers_inactive [OF assms(1)])

end

section \<open>The history of a grant\<close>

text \<open>
  \<open>past\<close> are the states of the run so far. What a request has found, it has shown when it was looked
  up; when the daemon called a device active, its row was.
\<close>

definition looked_past :: "web_env \<Rightarrow> ('r, 'f, 'db) gate set \<Rightarrow> check \<Rightarrow> bool" where
  "looked_past E past ck \<longleftrightarrow>
     (\<forall>ws. ck_session ck = Some ws \<longrightarrow> (\<exists>u \<in> past. g_clock u = ck_looked ck \<and> shown_session E u (ck_cookie ck) ws)) \<and>
     (\<forall>t. ck_token ck = Some t \<longrightarrow> (\<exists>u \<in> past. g_clock u = ck_looked ck \<and> shown_token E u (ck_header ck) t)) \<and>
     (ck_phase ck = V_received \<longrightarrow> ck_token ck = None) \<and>
     (ck_phase ck = V_session None \<longrightarrow> ck_session ck = None)"

definition active_at :: "('db \<Rightarrow> table) \<Rightarrow> js_string \<Rightarrow> ('r, 'f, 'db) gate \<Rightarrow> bool" where
  "active_at tbl i u \<longleftrightarrow> (\<exists>ident r. i = units ident \<and> tbl (g_db u) ident = Some r \<and> r_status r = 1)"

definition answers_past :: "('db \<Rightarrow> table) \<Rightarrow> ('r, 'f, 'db) gate set \<Rightarrow> (js_string \<times> nat) list \<Rightarrow> bool" where
  "answers_past tbl past answers \<longleftrightarrow> (\<forall>(i, a) \<in> set answers. \<exists>u \<in> past. g_clock u = a \<and> active_at tbl i u)"

definition history_ok :: "web_env \<Rightarrow> ('db \<Rightarrow> table) \<Rightarrow> ('r, 'f, 'db) gate set \<Rightarrow> ('r, 'f, 'db) gate \<Rightarrow> bool" where
  "history_ok E tbl past s \<longleftrightarrow>
     list_all (looked_past E past) (g_checks s) \<and> answers_past tbl past (g_answers s)"

lemma looked_past_mono: "looked_past E past ck \<Longrightarrow> past \<subseteq> past' \<Longrightarrow> looked_past E past' ck"
  unfolding looked_past_def by (elim conjE, intro conjI) blast+

lemma answers_past_mono: "answers_past tbl past answers \<Longrightarrow> past \<subseteq> past' \<Longrightarrow> answers_past tbl past' answers"
  unfolding answers_past_def case_prod_beta by blast

lemma history_ok_mono: "history_ok E tbl past s \<Longrightarrow> past \<subseteq> past' \<Longrightarrow> history_ok E tbl past' s"
  unfolding history_ok_def list_all_iff by (blast intro: looked_past_mono answers_past_mono)

lemma looked_past_phase:
  "looked_past E past ck \<Longrightarrow> ph \<noteq> V_received \<Longrightarrow> ph \<noteq> V_session None \<Longrightarrow>
   looked_past E past (ck\<lparr>ck_phase := ph, ck_asked := n\<rparr>)"
  "looked_past E past ck \<Longrightarrow> ph \<noteq> V_received \<Longrightarrow> ph \<noteq> V_session None \<Longrightarrow>
   looked_past E past (ck\<lparr>ck_phase := ph, ck_decided := n\<rparr>)"
  "looked_past E past ck \<Longrightarrow> ph \<noteq> V_received \<Longrightarrow> ph \<noteq> V_session None \<Longrightarrow>
   looked_past E past (ck\<lparr>ck_phase := ph\<rparr>)"
  by (simp_all add: looked_past_def)

lemma isActive_cached_not_received: "isActive_cached now i cache \<noteq> V_received"
  by (auto simp: isActive_cached_def split: option.splits)

lemma verify_piece_looked:
  assumes "looked_past E past ck" and "s \<in> past"
    and "verify_piece ttl (env_hash E) (g_clock s) ck (gate_view s) = (ck', g)"
  shows "looked_past E past ck'"
proof (cases "ck_phase ck")
  case V_received
  obtain found st where f: "session_get (env_hash E) (g_clock s) (ck_cookie ck) (wstore (g_web s)) = (found, st)"
    by fastforce
  then have "found = Some ws \<Longrightarrow> shown_session E s (ck_cookie ck) ws" for ws
    using session_get_shown [of E s "ck_cookie ck" ws] by simp
  with f assms V_received show ?thesis
    by (auto simp: verify_piece_def looked_past_def gate_view_def)
next
  case (V_session found)
  show ?thesis
  proof (cases found)
    case None
    with assms V_session show ?thesis
      by (auto simp: verify_piece_def Let_def looked_past_def gate_view_def token_lookup_shown
          split: option.splits if_splits)
  next
    case (Some ws)
    with assms V_session show ?thesis
      by (auto simp: verify_piece_def isActive_cached_device isActive_cached_not_received
          intro: looked_past_phase)
  qed
next
  case (V_token found)
  with assms show ?thesis
    by (auto simp: verify_piece_def isActive_cached_device isActive_cached_not_received
        split: option.splits intro: looked_past_phase)
qed (use assms in \<open>auto simp: verify_piece_def split: prod.splits if_splits intro: looked_past_phase\<close>)

context sqlite_keystore
begin

lemma history_ok_step:
  assumes "hmac_digest_32 H" and "history_ok E tbl past s" and "s \<in> past"
    and "gate_step P tbl H R F dummy_key vuid auid E tcfg ttl s t"
  shows "history_ok E tbl past t"
  using assms(4)
proof (cases rule: gate_step.cases)
  case (check_piece k ck ck' g)
  have "looked_past E past ck" using assms(2) check_piece(2,3) by (simp add: history_ok_def list_all_length)
  from verify_piece_looked [OF this assms(3) check_piece(5)] assms(2)
  show ?thesis by (simp add: check_piece(1) history_ok_def gate_put_def list_all_update)
next
  case (status_told k ck i line reply db' evs status)
  have "looked_past E past ck" using assms(2) status_told(2,3) by (simp add: history_ok_def list_all_length)
  then have "looked_past E past (ck\<lparr>ck_phase := V_reply i status, ck_asked := g_clock s\<rparr>)"
    by (rule looked_past_phase) simp_all
  moreover have "active_at tbl i s" if "status = Active"
    unfolding active_at_def
    by (rule status_active_told [OF assms(1) status_told(5-8)]) (simp add: status_told(9) that)
  ultimately show ?thesis using assms(2,3)
    by (auto simp: status_told(1) history_ok_def answers_past_def list_all_update)
next
  case (status_unasked k ck i)
  have "looked_past E past ck" using assms(2) status_unasked(2,3) by (simp add: history_ok_def list_all_length)
  then have "looked_past E past (ck\<lparr>ck_phase := V_reply i Inactive, ck_asked := g_clock s\<rparr>)"
    by (rule looked_past_phase) simp_all
  with assms(2) show ?thesis by (simp add: status_unasked(1) history_ok_def list_all_update)
next
  case (status_missed k ck i)
  have "looked_past E past ck" using assms(2) status_missed(2,3) by (simp add: history_ok_def list_all_length)
  then have "looked_past E past (ck\<lparr>ck_phase := V_reply i Status_error, ck_asked := g_clock s\<rparr>)"
    by (rule looked_past_phase) simp_all
  with assms(2) show ?thesis by (simp add: status_missed(1) history_ok_def list_all_update)
qed (use assms(2) in \<open>auto simp: history_ok_def looked_past_def\<close>)

lemma history_ok_run:
  assumes "hmac_digest_32 H"
    and "states_run gate_start (gate_step P tbl H R F dummy_key vuid auid E tcfg ttl) ss"
  shows "history_ok E tbl (set ss) (last ss)"
  using assms(2)
proof (induction rule: states_run.induct)
  case (run_init s)
  then show ?case by (simp add: gate_start_def history_ok_def answers_past_def)
next
  case (run_step ss t)
  have "last ss \<in> set ss" using states_run_reachable [OF run_step(1)] by simp
  from history_ok_step [OF assms(1) run_step(3) this run_step(2)]
  show ?case by (auto intro: history_ok_mono)
qed

end

section \<open>A sample run\<close>

text \<open>
  A request with a device token finds the device active; the device is revoked while the answer is
  on its way; and a second request, nearly seven seconds later, passes on the cached answer.
\<close>

definition sample_token :: string where
  "sample_token = ''xat_'' @ replicate 43 (CHR ''A'')"

definition sample_record :: web_token where
  "sample_record =
     \<lparr>wt_id = ''id1'', wt_device = units ''7Q5V'', wt_label = units ''phone'', wt_created = 1800000, wt_used = None,
      wt_expires = 1860000\<rparr>"

definition sample_tokens :: token_store where
  "sample_tokens = \<lparr>toks = [(sample_token, sample_record)], tokIds = [(''id1'', sample_token)]\<rparr>"

abbreviation sample_gate_step ::
    "(byte list, disk, mem_db) gate \<Rightarrow> (byte list, disk, mem_db) gate \<Rightarrow> bool" where
  "sample_gate_step \<equiv> gate_step mem_platform mem_tbl sample_hmac list_rng disk_calls sample_key (-1) (-1) sample_env
     \<lparr>tokenTtlSeconds = 60, maxTokensPerDevice = 1\<rparr> 5000"

definition sample_check :: "verify_phase \<Rightarrow> web_token option \<Rightarrow> nat \<Rightarrow> nat \<Rightarrow> nat \<Rightarrow> check" where
  "sample_check ph found looked asked decided =
     \<lparr>ck_cookie = None, ck_header = Some sample_token, ck_session = None, ck_token = found, ck_looked = looked,
      ck_phase = ph, ck_asked = asked, ck_decided = decided\<rparr>"

lemma sample_token_shaped: "isTokenShaped sample_token"
  by (simp add: isTokenShaped_def sample_token_def list_all_iff token_char_def)

lemma sample_lookup:
  "now < 1860000 \<Longrightarrow> token_lookup (\<lambda>s. s) now sample_token sample_tokens = Some sample_record"
  using sample_token_shaped by (simp add: token_lookup_def sample_tokens_def sample_record_def live_def)

lemma sample_created:
  "sample_gate_step \<lparr>g_web = sample_web, g_tokens = empty_tokens, g_cache = Map.empty, g_checks = [], g_answers = []\<rparr>
     \<lparr>g_web = sample_web, g_tokens = sample_tokens, g_cache = Map.empty, g_checks = [], g_answers = []\<rparr>"
  using tokens_used [of mem_platform mem_tbl sample_hmac list_rng disk_calls sample_key "-1" "-1" sample_env
      "\<lparr>tokenTtlSeconds = 60, maxTokensPerDevice = 1\<rparr>" 5000
      "\<lparr>g_web = sample_web, g_tokens = empty_tokens, g_cache = Map.empty, g_checks = [], g_answers = []\<rparr>"
      "Tok_create sample_token ''id1'' (units ''7Q5V'') (units ''phone'')"]
  by (simp add: token_event_def token_create_def empty_tokens_def owned_def Let_def sample_tokens_def sample_record_def)

lemma sample_revoked:
  assumes "mem_up (srv_db s)"
    and "mem_tbl (srv_db (server_event mem_platform sample_hmac list_rng disk_calls sample_key (-1) (-1)
      (Admin_conn (sample_conn ''REVOKE 7Q5V'')) s)) ''7Q5V'' = Some r'"
  shows "r_status r' = 0"
proof -
  obtain l db' where d: "set_device_status mem_platform ''7Q5V'' 0 (srv_db s) = (l, db')" by fastforce
  have "l \<noteq> Error" using mem.set_device_status_up [OF assms(1) _ d] by simp
  then have "r_status r' = 0" if "mem_tbl db' ''7Q5V'' = Some r'"
    using mem.set_device_status_refines [OF d] that by (cases l) (auto simp: update_spec_def)
  moreover have "admin_read_line (incoming (sample_conn ''REVOKE 7Q5V'')) = (Some ''REVOKE 7Q5V'', [])"
    by (simp add: sample_conn_def admin_read_line_def read_line_loop.simps ADMIN_MAX_REQUEST_def)
  then have "srv_db (server_event mem_platform sample_hmac list_rng disk_calls sample_key (-1) (-1)
      (Admin_conn (sample_conn ''REVOKE 7Q5V'')) s) = db'"
    by (simp add: admin_serve_def sample_conn_def peer_allowed_def admin_handle_request_def str_find_def Let_def d
        split: sum.splits)
  ultimately show ?thesis using assms(2) by simp
qed

text \<open>The states of the run: the clock, the server, the cache, the requests and the answers.\<close>

definition sample_gate ::
    "nat \<Rightarrow> (byte list, disk, mem_db) server \<Rightarrow> status_cache \<Rightarrow> check list \<Rightarrow> (js_string \<times> nat) list \<Rightarrow>
     (byte list, disk, mem_db) gate" where
  "sample_gate now sv cache cks ans =
     \<lparr>g_web = sample_web\<lparr>clock := now, srv := sv\<rparr>, g_tokens = sample_tokens, g_cache = cache, g_checks = cks,
      g_answers = ans\<rparr>"

lemma sample_received:
  "sample_gate_step (sample_gate now sv cache cks ans)
     (sample_gate now sv cache (cks @ [sample_check V_received None 0 0 0]) ans)"
  using check_received [of mem_platform mem_tbl sample_hmac list_rng disk_calls sample_key "-1" "-1" sample_env
      "\<lparr>tokenTtlSeconds = 60, maxTokensPerDevice = 1\<rparr>" 5000 "sample_gate now sv cache cks ans" None "Some sample_token"]
  by (simp add: sample_gate_def sample_check_def)

lemma sample_piece:
  assumes "verify_piece 5000 (\<lambda>s. s) now ck \<lparr>gs_store = empty_store, gs_tokens = sample_tokens, gs_cache = cache\<rparr> =
      (ck', \<lparr>gs_store = empty_store, gs_tokens = sample_tokens, gs_cache = cache'\<rparr>)"
    and "\<And>i st. ck_phase ck = V_reply i st \<Longrightarrow> now \<le> ck_asked ck + 2000"
  shows "sample_gate_step (sample_gate now sv cache (cks @ [ck]) ans) (sample_gate now sv cache' (cks @ [ck']) ans)"
proof -
  let ?s = "sample_gate now sv cache (cks @ [ck]) ans"
  have "verify_piece 5000 (env_hash sample_env) (g_clock ?s) ck (gate_view ?s) =
      (ck', \<lparr>gs_store = empty_store, gs_tokens = sample_tokens, gs_cache = cache'\<rparr>)"
    using assms(1) by (simp add: gate_view_def sample_gate_def sample_web_def)
  moreover have "length cks < length (g_checks ?s)" "ck = g_checks ?s ! length cks" by (simp_all add: sample_gate_def)
  ultimately have "sample_gate_step ?s
      (gate_put \<lparr>gs_store = empty_store, gs_tokens = sample_tokens, gs_cache = cache'\<rparr>
        (?s\<lparr>g_checks := (g_checks ?s)[length cks := ck']\<rparr>))"
    by (intro check_piece) (use assms(2) in \<open>simp_all add: sample_gate_def\<close>)
  then show ?thesis by (simp add: gate_put_def sample_gate_def sample_web_def)
qed

text \<open>The steps from states with a given server.\<close>

definition sample_gate_with ::
    "(byte list, disk, mem_db) server \<Rightarrow> (byte list, disk, mem_db) gate \<Rightarrow> (byte list, disk, mem_db) gate \<Rightarrow> bool" where
  "sample_gate_with sv u v \<longleftrightarrow> sample_gate_step u v \<and> srv (g_web u) = sv"

lemma sample_gate_with_step:
  "sample_gate_step u v \<Longrightarrow> srv (g_web u) = sv \<Longrightarrow> sample_gate_with sv u v"
  by (simp add: sample_gate_with_def)

lemma sample_gate_srv: "srv (g_web (sample_gate now sv cache cks ans)) = sv"
  by (simp add: sample_gate_def)

text \<open>A request on its way to the daemon's answer, or to the cached one.\<close>

lemma sample_steps:
  assumes "now < 1860000" and "isActive_cached now (units ''7Q5V'') cache = ph"
  shows "(sample_gate_with sv)\<^sup>*\<^sup>* (sample_gate now sv cache cks ans)
    (sample_gate now sv cache (cks @ [sample_check ph (Some sample_record) now 0 now]) ans)"
proof -
  have 1: "sample_gate_step (sample_gate now sv cache (cks @ [sample_check V_received None 0 0 0]) ans)
      (sample_gate now sv cache (cks @ [sample_check (V_session None) None now 0 0]) ans)"
    by (rule sample_piece) (simp_all add: verify_piece_def sample_check_def session_get_def)
  have 2: "sample_gate_step (sample_gate now sv cache (cks @ [sample_check (V_session None) None now 0 0]) ans)
      (sample_gate now sv cache (cks @ [sample_check (V_token (Some sample_record)) (Some sample_record) now 0 0]) ans)"
    using assms(1) sample_token_shaped
    by (intro sample_piece)
       (auto simp: verify_piece_def sample_check_def sample_lookup isTokenShaped_def Let_def)
  have 3: "sample_gate_step
      (sample_gate now sv cache (cks @ [sample_check (V_token (Some sample_record)) (Some sample_record) now 0 0]) ans)
      (sample_gate now sv cache (cks @ [sample_check ph (Some sample_record) now 0 now]) ans)"
    using assms(2) by (intro sample_piece) (simp_all add: verify_piece_def sample_check_def, simp add: sample_record_def)
  note with_srv = sample_gate_with_step [OF _ sample_gate_srv]
  from with_srv [OF sample_received] with_srv [OF 1] with_srv [OF 2] with_srv [OF 3] show ?thesis
    by (meson converse_rtranclp_into_rtranclp r_into_rtranclp)
qed

lemma sample_told:
  assumes "mem_up (srv_db sv)" and "mem_tbl (srv_db sv) ''7Q5V'' = Some r" and "r_status r = 1"
  obtains db' where "mem_up db'" and
    "sample_gate_step (sample_gate now sv cache [sample_check (V_asking (units ''7Q5V'')) found l 0 d] ans)
      (sample_gate now (sv\<lparr>srv_db := db'\<rparr>) cache [sample_check (V_reply (units ''7Q5V'') Active) found l now d]
        ((units ''7Q5V'', now) # ans))"
proof -
  obtain db' where f: "find_device mem_platform ''7Q5V'' device_default (srv_db sv) =
      (Found, found_device ''7Q5V'' r device_default, db')" "mem_up db'"
    using mem.ks.find_present [OF assms(1) sample_ids(1) assms(2)] by blast
  have reply: "verifier_handle_request mem_platform sample_hmac sample_key (daemon_now now) (''STATUS '' @ ''7Q5V'')
      (srv_db sv) = (Inr (''ACTIVE'' @ [nl]), db')"
    using status_reply [OF f(1), of sample_hmac sample_key "daemon_now now"] assms(3)
    by (simp add: found_device_def)
  have status: "client_status (units ''7Q5V'') [Data (''ACTIVE'' @ [nl])] = Active"
    by (simp add: client_status_def Let_def)
  let ?s = "sample_gate now sv cache [sample_check (V_asking (units ''7Q5V'')) found l 0 d] ans"
  have "sample_gate_step ?s
      (?s\<lparr>g_web := (g_web ?s)\<lparr>srv := (srv (g_web ?s))\<lparr>srv_db := db'\<rparr>\<rparr>,
         g_checks := (g_checks ?s)[0 := (g_checks ?s ! 0)\<lparr>ck_phase := V_reply (units ''7Q5V'') Active,
            ck_asked := g_clock ?s\<rparr>],
         g_answers := (if Active = Active then [(units ''7Q5V'', g_clock ?s)] else []) @ g_answers ?s\<rparr>)"
    by (rule status_told [where line = "''STATUS '' @ ''7Q5V''" and evs = "[Data (''ACTIVE'' @ [nl])]"
          and reply = "''ACTIVE'' @ [nl]"])
       (use reply status in \<open>simp_all add: sample_gate_def sample_check_def status_line_def\<close>)
  then show thesis using that f(2) by (simp add: sample_gate_def sample_check_def)
qed

lemma sample_web_side:
  "sample_gate_step (sample_gate now sv cache cks ans)
     (sample_gate now (server_event mem_platform sample_hmac list_rng disk_calls sample_key (-1) (-1) ev sv) cache cks ans)"
  "now \<le> later \<Longrightarrow> later \<le> MAX_DATE \<Longrightarrow>
   sample_gate_step (sample_gate now sv cache cks ans) (sample_gate later sv cache cks ans)"
proof -
  let ?s = "sample_gate now sv cache cks ans"
  have "sample_step (g_web ?s) ((g_web ?s)\<lparr>srv := server_event mem_platform sample_hmac list_rng disk_calls sample_key (-1) (-1)
      ev (srv (g_web ?s))\<rparr>)"
    by (rule keystore_used)
  from login_side [OF this] show "sample_gate_step ?s (sample_gate now
      (server_event mem_platform sample_hmac list_rng disk_calls sample_key (-1) (-1) ev sv) cache cks ans)"
    by (simp add: sample_gate_def)
  assume "now \<le> later" "later \<le> MAX_DATE"
  then have "sample_step (g_web ?s) ((g_web ?s)\<lparr>clock := later\<rparr>)" by (intro time_passes) (simp_all add: sample_gate_def)
  from login_side [OF this] show "sample_gate_step ?s (sample_gate later sv cache cks ans)"
    by (simp add: sample_gate_def sample_web_def)
qed

lemma sample_granted:
  obtains t where "sample_gate_step (sample_gate now sv cache (cks @ [sample_check (V_checked i True) found l a d]) ans) t"
    "sample_check (V_granted i) found l a d \<in> set (g_checks t)"
proof -
  let ?s = "sample_gate now sv cache (cks @ [sample_check (V_checked i True) found l a d]) ans"
  obtain g where g: "verify_piece 5000 (env_hash sample_env) (g_clock ?s) (sample_check (V_checked i True) found l a d)
      (gate_view ?s) = (sample_check (V_granted i) found l a d, g)"
    by (auto simp: verify_piece_def sample_check_def)
  have "sample_gate_step ?s (gate_put g (?s\<lparr>g_checks := (g_checks ?s)[length cks := sample_check (V_granted i) found l a d]\<rparr>))"
    by (rule check_piece [OF _ _ _ g]) (simp_all add: sample_gate_def sample_check_def)
  then show thesis by (rule that) (simp add: gate_put_def sample_gate_def)
qed

lemma sample_history:
  obtains s t where "reachable gate_start sample_gate_step s" "g_clock s = 1800000" "inactive mem_tbl ''7Q5V'' s"
    "(\<lambda>u v. sample_gate_step u v \<and> inactive mem_tbl ''7Q5V'' u)\<^sup>*\<^sup>* s t"
    "\<exists>ck \<in> set (g_checks t). ck_phase ck = V_granted (units ''7Q5V'') \<and> ck_session ck = None \<and>
      ck_decided ck = 1806999"
proof -
  let ?i = "units ''7Q5V''" and ?n = "1800000 :: nat" and ?ev = "Admin_conn (sample_conn ''REVOKE 7Q5V'')"
  let ?ck = "\<lambda>ph a d. sample_check ph (Some sample_record) ?n a d"
  have sv: "mem_up (srv_db sample_server)" "mem_tbl (srv_db sample_server) ''7Q5V'' = Some (sample_row 1)"
    "r_status (sample_row 1) = 1"
    by (simp_all add: sample_server_def)
  obtain db' where db': "mem_up db'" and told: "sample_gate_step
      (sample_gate ?n sample_server Map.empty [?ck (V_asking ?i) 0 ?n] [])
      (sample_gate ?n (sample_server\<lparr>srv_db := db'\<rparr>) Map.empty [?ck (V_reply ?i Active) ?n ?n] [(?i, ?n)])"
    by (rule sample_told [OF sv])
  define sv1 where "sv1 = server_event mem_platform sample_hmac list_rng disk_calls sample_key (-1) (-1) ?ev
    (sample_server\<lparr>srv_db := db'\<rparr>)"
  let ?s = "sample_gate ?n sv1 Map.empty [?ck (V_reply ?i Active) ?n ?n] [(?i, ?n)]"
  have "r_status r' = 0" if "mem_tbl (srv_db sv1) ''7Q5V'' = Some r'" for r'
    using sample_revoked [of "sample_server\<lparr>srv_db := db'\<rparr>" r'] that db' by (simp add: sv1_def)
  then have off: "inactive mem_tbl ''7Q5V'' u" if "srv (g_web u) = sv1" for u :: "(byte list, disk, mem_db) gate"
    using that by (auto simp: inactive_def)
  have "reachable gate_start sample_gate_step (sample_gate ?n sample_server Map.empty [] [])"
  proof (rule reach_step [OF reach_init])
    show "sample_gate_step \<lparr>g_web = sample_web, g_tokens = empty_tokens, g_cache = Map.empty, g_checks = [], g_answers = []\<rparr>
        (sample_gate ?n sample_server Map.empty [] [])"
      using sample_created by (simp add: sample_gate_def sample_web_def)
  qed (simp add: gate_start_def)
  moreover have "sample_gate_step\<^sup>*\<^sup>* (sample_gate ?n sample_server Map.empty [] [])
      (sample_gate ?n sample_server Map.empty [?ck (V_asking ?i) 0 ?n] [])"
    using sample_steps [of ?n Map.empty "V_asking ?i" sample_server "[]" "[]"]
    by (auto simp: isActive_cached_def sample_gate_with_def elim: rtranclp_mono [THEN predicate2D, rotated])
  ultimately have s: "reachable gate_start sample_gate_step ?s"
    using told sample_web_side(1) [of ?n "sample_server\<lparr>srv_db := db'\<rparr>" Map.empty "[?ck (V_reply ?i Active) ?n ?n]"
        "[(?i, ?n)]" ?ev, folded sv1_def]
    by (blast intro: reach_step reachable_star)
  let ?cache = "[?i \<mapsto> (True, 1807000)] :: status_cache"
  let ?cks = "[?ck (V_checked ?i True) ?n 1802000]"
  note with_srv = sample_gate_with_step [OF _ sample_gate_srv]
  have "sample_gate_with sv1 ?s (sample_gate 1802000 sv1 Map.empty [?ck (V_reply ?i Active) ?n ?n] [(?i, ?n)])"
    by (rule with_srv [OF sample_web_side(2)]) (simp_all add: MAX_DATE_def)
  moreover have "sample_gate_with sv1 (sample_gate 1802000 sv1 Map.empty ([] @ [?ck (V_reply ?i Active) ?n ?n]) [(?i, ?n)])
      (sample_gate 1802000 sv1 ?cache ([] @ ?cks) [(?i, ?n)])"
    by (rule with_srv [OF sample_piece]) (simp_all add: verify_piece_def sample_check_def isActive_reply_def)
  moreover have "sample_gate_with sv1 (sample_gate 1802000 sv1 ?cache ?cks [(?i, ?n)])
      (sample_gate 1806999 sv1 ?cache ?cks [(?i, ?n)])"
    by (rule with_srv [OF sample_web_side(2)]) (simp_all add: MAX_DATE_def)
  moreover have "(sample_gate_with sv1)\<^sup>*\<^sup>* (sample_gate 1806999 sv1 ?cache ?cks [(?i, ?n)])
      (sample_gate 1806999 sv1 ?cache (?cks @ [sample_check (V_checked ?i True) (Some sample_record) 1806999 0 1806999])
        [(?i, ?n)])"
    by (rule sample_steps) (simp_all add: isActive_cached_def)
  moreover obtain t where t: "sample_gate_step
      (sample_gate 1806999 sv1 ?cache (?cks @ [sample_check (V_checked ?i True) (Some sample_record) 1806999 0 1806999])
        [(?i, ?n)]) t"
    "sample_check (V_granted ?i) (Some sample_record) 1806999 0 1806999 \<in> set (g_checks t)"
    by (rule sample_granted)
  ultimately have "(sample_gate_with sv1)\<^sup>*\<^sup>* ?s t"
    using with_srv [OF t(1)] by (simp add: converse_rtranclp_into_rtranclp rtranclp.rtrancl_into_rtrancl)
  then have "(\<lambda>u v. sample_gate_step u v \<and> inactive mem_tbl ''7Q5V'' u)\<^sup>*\<^sup>* ?s t"
    by (rule rtranclp_mono [THEN predicate2D, rotated]) (auto simp: sample_gate_with_def off)
  from that [OF s _ _ this] t(2) off [of ?s] show thesis
    by (force simp: sample_gate_def sample_check_def)
qed

section \<open>Properties\<close>

text \<open>
  C12. The gate opens only for a login or a token. In every run of the system, whatever logins,
  logouts, token requests and sweeps are interleaved with it, a request that \<open>/verify\<close> lets pass has
  been looked up at an earlier state of that run, at which the store held under the hash of the cookie
  it shows an unexpired session of the device, which a login that claimed a code of the same device
  created, or under the hash of the token it shows, of a token's shape, an unexpired token of the
  device. And at another earlier state, not longer ago than the cache's life and the client's timer
  together, the row of the device was active in the keystore, and the daemon said so.
\<close>

theorem gate_grants_backed:
  assumes "sqlite_keystore P tbl" and "hmac_digest_32 H"
    and "states_run gate_start (gate_step P tbl H R F dummy_key vuid auid E tcfg ttl) ss"
    and "ck \<in> set (g_checks (last ss))" and "ck_phase ck = V_granted i"
  shows "((\<exists>ws l. ck_session ck = Some ws \<and> ws_device ws = i \<and>
            (\<exists>u \<in> set ss. g_clock u = ck_looked ck \<and> shown_session E u (ck_cookie ck) ws) \<and>
            ck_looked ck < ws_created ws + sessionTtlSeconds (env_config E) * 1000 \<and>
            l \<in> set (logins (g_web (last ss))) \<and> l_device l = i \<and> l_time l \<le> ws_created ws) \<or>
          (\<exists>t. ck_token ck = Some t \<and> wt_device t = i \<and>
            (\<exists>u \<in> set ss. g_clock u = ck_looked ck \<and> shown_token E u (ck_header ck) t))) \<and>
    (\<exists>u \<in> set ss. \<exists>ident r. i = units ident \<and> tbl (g_db u) ident = Some r \<and> r_status r = 1 \<and>
        (i, g_clock u) \<in> set (g_answers (last ss)) \<and>
        g_clock u \<le> ck_decided ck \<and> ck_decided ck < g_clock u + env_delay E + max 1 ttl)"
proof
  let ?s = "last ss"
  have reach: "reachable gate_start (gate_step P tbl H R F dummy_key vuid auid E tcfg ttl) ?s"
    using states_run_reachable [OF assms(3)] by blast
  have past: "history_ok E tbl (set ss) ?s" by (rule sqlite_keystore.history_ok_run [OF assms(1-3)])
  then have ck: "looked_past E (set ss) ck" using assms(4) by (simp add: history_ok_def list_all_iff)
  have "backed_inv E ?s" using reach by (rule gate_backed.reachable_inv)
  then have "backed (sessionTtlSeconds (env_config E)) (logins (g_web ?s)) ck"
    using assms(4) by (simp add: backed_inv_def list_all_iff)
  then show "(\<exists>ws l. ck_session ck = Some ws \<and> ws_device ws = i \<and>
        (\<exists>u \<in> set ss. g_clock u = ck_looked ck \<and> shown_session E u (ck_cookie ck) ws) \<and>
        ck_looked ck < ws_created ws + sessionTtlSeconds (env_config E) * 1000 \<and>
        l \<in> set (logins (g_web ?s)) \<and> l_device l = i \<and> l_time l \<le> ws_created ws) \<or>
      (\<exists>t. ck_token ck = Some t \<and> wt_device t = i \<and>
        (\<exists>u \<in> set ss. g_clock u = ck_looked ck \<and> shown_token E u (ck_header ck) t))"
    using ck assms(5) unfolding backed_def looked_past_def session_backed_def
    by (simp add: check_device_def) metis
  have "fresh_inv (env_delay E) ttl ?s" using reach by (rule gate_fresh.reachable_inv)
  then have "check_ok (env_delay E) ttl (g_answers ?s) (g_clock ?s) ck"
    using assms(4) by (simp add: fresh_inv_def list_all_iff)
  then obtain a where a: "(i, a) \<in> set (g_answers ?s)" "a \<le> ck_decided ck" "ck_decided ck < a + env_delay E + max 1 ttl"
    using assms(5) by (auto simp: check_ok_def fresh_def)
  then obtain u where "u \<in> set ss" "g_clock u = a" "active_at tbl i u"
    using past by (fastforce simp: history_ok_def answers_past_def)
  with a show "\<exists>u \<in> set ss. \<exists>ident r. i = units ident \<and> tbl (g_db u) ident = Some r \<and> r_status r = 1 \<and>
        (i, g_clock u) \<in> set (g_answers ?s) \<and>
        g_clock u \<le> ck_decided ck \<and> ck_decided ck < g_clock u + env_delay E + max 1 ttl"
    unfolding active_at_def by blast
qed

theorem gate_grants_backed_witness:
  "\<exists>ss ck t u v r. states_run gate_start sample_gate_step ss \<and> ck \<in> set (g_checks (last ss)) \<and>
    ck_phase ck = V_granted (units ''7Q5V'') \<and> ck_token ck = Some t \<and> wt_device t = units ''7Q5V'' \<and>
    u \<in> set ss \<and> g_clock u = ck_looked ck \<and> shown_token sample_env u (ck_header ck) t \<and>
    v \<in> set ss \<and> mem_tbl (g_db v) ''7Q5V'' = Some r \<and> r_status r = 1 \<and> ck_decided ck < g_clock v + 7000"
proof -
  obtain s t where h: "reachable gate_start sample_gate_step s"
    "(\<lambda>u v. sample_gate_step u v \<and> inactive mem_tbl ''7Q5V'' u)\<^sup>*\<^sup>* s t"
    "\<exists>ck \<in> set (g_checks t). ck_phase ck = V_granted (units ''7Q5V'') \<and> ck_session ck = None \<and> ck_decided ck = 1806999"
    by (rule sample_history)
  then obtain ck where ck: "ck \<in> set (g_checks t)" "ck_phase ck = V_granted (units ''7Q5V'')" "ck_session ck = None"
    by blast
  obtain ss where ss: "states_run gate_start sample_gate_step ss" "last ss = t"
    using reachable_states_run [OF reachable_while [OF h(1,2)]] by blast
  have last: "ck \<in> set (g_checks (last ss))" using ck(1) ss(2) by simp
  note backed = gate_grants_backed [OF mem.sqlite_keystore_axioms hmac_digest_32_sample ss(1) last ck(2)]
  from conjunct1 [OF backed] obtain tok u where tok: "ck_token ck = Some tok" "wt_device tok = units ''7Q5V''"
    "u \<in> set ss" "g_clock u = ck_looked ck" "shown_token sample_env u (ck_header ck) tok"
    by (elim disjE exE conjE bexE) (simp_all only: ck(3) option.distinct)
  from conjunct2 [OF backed] obtain v ident r where v: "v \<in> set ss" "units ''7Q5V'' = units ident"
    "mem_tbl (g_db v) ident = Some r" "r_status r = 1" "ck_decided ck < g_clock v + env_delay sample_env + max 1 5000"
    by (elim bexE exE conjE)
  have "ident = ''7Q5V''" using v(2) by (auto simp: units_def)
  then have "mem_tbl (g_db v) ''7Q5V'' = Some r" "ck_decided ck < g_clock v + 7000" using v(3,5) by simp_all
  with ss(1) last ck(2) tok v(1,4) show ?thesis by blast
qed

text \<open>
  C7. Revocation reaches the gate. From a moment on, let the row of a device be inactive. Then no
  request of its sessions and tokens passes that is decided later than the cache's life plus the
  client's timer after that moment, for as long as the row stays inactive. The cache's life alone,
  which the settings and the documents name as the bound, is not one: an answer that was
  under way at the revocation is cached for its full life when it arrives.
\<close>

theorem revocation_reaches_gate:
  assumes "sqlite_keystore P tbl" and "hmac_digest_32 H"
    and "reachable gate_start (gate_step P tbl H R F dummy_key vuid auid E tcfg ttl) s"
    and "(\<lambda>u v. gate_step P tbl H R F dummy_key vuid auid E tcfg ttl u v \<and> inactive tbl ident u)\<^sup>*\<^sup>* s t"
    and "ck \<in> set (g_checks t)" and "ck_phase ck = V_granted (units ident)"
  shows "ck_decided ck < g_clock s + env_delay E + max 1 ttl"
proof -
  have "fresh_inv (env_delay E) ttl t"
    using reachable_while [OF assms(3,4)] by (rule gate_fresh.reachable_inv)
  then have "check_ok (env_delay E) ttl (g_answers t) (g_clock t) ck"
    using assms(5) by (simp add: fresh_inv_def list_all_iff)
  then obtain a where a: "(units ident, a) \<in> set (g_answers t)" "ck_decided ck < a + env_delay E + max 1 ttl"
    using assms(6) by (auto simp: check_ok_def fresh_def)
  have "(units ident, a) \<in> set (g_answers s)"
    using sqlite_keystore.answers_while_inactive [OF assms(1,2,4) a(1)] .
  then have "a \<le> g_clock s"
    using gate_fresh.reachable_inv [OF assms(3)] by (auto simp: fresh_inv_def answers_ok_def)
  with a(2) show ?thesis by linarith
qed

text \<open>The bound is reached: here a grant comes 6.999 seconds after the revocation, with a cache of 5.\<close>

theorem revocation_reaches_gate_witness:
  "\<exists>s t ck. inactive mem_tbl ''7Q5V'' s \<and>
    (\<lambda>u v. sample_gate_step u v \<and> inactive mem_tbl ''7Q5V'' u)\<^sup>*\<^sup>* s t \<and>
    ck \<in> set (g_checks t) \<and> ck_phase ck = V_granted (units ''7Q5V'') \<and> g_clock s + 5000 < ck_decided ck \<and>
    ck_decided ck < g_clock s + env_delay sample_env + max 1 5000"
proof -
  obtain s t where h: "reachable gate_start sample_gate_step s" "g_clock s = 1800000" "inactive mem_tbl ''7Q5V'' s"
    "(\<lambda>u v. sample_gate_step u v \<and> inactive mem_tbl ''7Q5V'' u)\<^sup>*\<^sup>* s t"
    "\<exists>ck \<in> set (g_checks t). ck_phase ck = V_granted (units ''7Q5V'') \<and> ck_session ck = None \<and> ck_decided ck = 1806999"
    by (rule sample_history)
  then obtain ck where ck: "ck \<in> set (g_checks t)" "ck_phase ck = V_granted (units ''7Q5V'')" "ck_decided ck = 1806999"
    by blast
  with revocation_reaches_gate [OF mem.sqlite_keystore_axioms hmac_digest_32_sample h(1,4) ck(1,2)] h(2-4)
  show ?thesis by (intro exI [of _ s] exI [of _ t] exI [of _ ck]) simp
qed

end
