(* ===== verification/Auth_Trip.thy ===== *)
theory Auth_Trip
  imports Auth_Verify
begin

text \<open>
  The gate from the visitor's side: a request that shows a session or a token of an active device has
  a run on which it passes, whether the device's state is cached or asked for. This is used by the
  trip from enrolment to an open gate in the root theory.
\<close>

section \<open>A request on its way\<close>

text \<open>At the end of the run, without time passing, the request behind \<open>ck\<close> has been let through.\<close>

definition passes :: "('r, 'f, 'db) gate \<Rightarrow> ('r, 'f, 'db) gate \<Rightarrow> check \<Rightarrow> js_string \<Rightarrow> bool" where
  "passes s t ck i \<longleftrightarrow>
     g_clock t = g_clock s \<and> (\<exists>cks ck'. g_checks t = cks @ [ck'] \<and> ck_cookie ck' = ck_cookie ck \<and>
       ck_header ck' = ck_header ck \<and> ck_phase ck' = V_granted i)"

text \<open>One piece of the request that came last.\<close>

lemma last_piece:
  assumes "g_checks s = cks @ [ck]"
    and "verify_piece ttl (env_hash E) (g_clock s) ck (gate_view s) = (ck', g)"
    and "\<And>i st. ck_phase ck = V_reply i st \<Longrightarrow> g_clock s \<le> ck_asked ck + env_delay E"
  shows "gate_step P tbl H R F dummy_key vuid auid E tcfg ttl s (gate_put g (s\<lparr>g_checks := cks @ [ck']\<rparr>))"
proof -
  have "gate_step P tbl H R F dummy_key vuid auid E tcfg ttl s
      (gate_put g (s\<lparr>g_checks := (g_checks s)[length cks := ck']\<rparr>))"
    by (rule check_piece [OF _ _ assms(3,2)]) (simp_all add: assms(1))
  then show ?thesis by (simp add: assms(1))
qed

lemma passes_step:
  assumes "gate_step P tbl H R F dummy_key vuid auid E tcfg ttl s u" and "g_clock u = g_clock s"
    and "ck_cookie ck' = ck_cookie ck" and "ck_header ck' = ck_header ck"
    and "\<exists>t. (gate_step P tbl H R F dummy_key vuid auid E tcfg ttl)\<^sup>*\<^sup>* u t \<and> passes u t ck' i"
  shows "\<exists>t. (gate_step P tbl H R F dummy_key vuid auid E tcfg ttl)\<^sup>*\<^sup>* s t \<and> passes s t ck i"
  using assms by (auto simp: passes_def intro: converse_rtranclp_into_rtranclp)

lemma gate_put_sel [simp]:
  "g_checks (gate_put g s) = g_checks s" "g_clock (gate_put g s) = g_clock s" "g_db (gate_put g s) = g_db s"
  "g_cache (gate_put g s) = gs_cache g" "g_tokens (gate_put g s) = gs_tokens g"
  "wstore (g_web (gate_put g s)) = gs_store g"
  by (simp_all add: gate_put_def)

lemma gate_view_sel [simp]:
  "gs_store (gate_view s) = wstore (g_web s)" "gs_tokens (gate_view s) = g_tokens s"
  "gs_cache (gate_view s) = g_cache s"
  by (simp_all add: gate_view_def)

lemma gate_view_put [simp]: "gate_view (gate_put g s) = g"
  by (simp add: gate_view_def gate_put_def)

lemma checked_passes:
  assumes "g_checks s = cks @ [ck]" and "ck_phase ck = V_checked i True"
  shows "\<exists>t. (gate_step P tbl H R F dummy_key vuid auid E tcfg ttl)\<^sup>*\<^sup>* s t \<and> passes s t ck i"
proof -
  obtain g where "verify_piece ttl (env_hash E) (g_clock s) ck (gate_view s) = (ck\<lparr>ck_phase := V_granted i\<rparr>, g)"
    by (simp add: verify_piece_def assms(2))
  then have "gate_step P tbl H R F dummy_key vuid auid E tcfg ttl s
      (gate_put g (s\<lparr>g_checks := cks @ [ck\<lparr>ck_phase := V_granted i\<rparr>]\<rparr>))"
    by (rule last_piece [OF assms(1)]) (simp add: assms(2))
  then show ?thesis by (auto simp: passes_def)
qed

lemma reply_passes:
  assumes "g_checks s = cks @ [ck]" and "ck_phase ck = V_reply i Active" and "ck_asked ck = g_clock s"
  shows "\<exists>t. (gate_step P tbl H R F dummy_key vuid auid E tcfg ttl)\<^sup>*\<^sup>* s t \<and> passes s t ck i"
proof -
  let ?ck = "ck\<lparr>ck_phase := V_checked i True, ck_decided := g_clock s\<rparr>"
  obtain g where "verify_piece ttl (env_hash E) (g_clock s) ck (gate_view s) = (?ck, g)"
    by (simp add: verify_piece_def assms(2) isActive_reply_def)
  then have step: "gate_step P tbl H R F dummy_key vuid auid E tcfg ttl s (gate_put g (s\<lparr>g_checks := cks @ [?ck]\<rparr>))"
    by (rule last_piece [OF assms(1)]) (simp add: assms(3))
  show ?thesis by (rule passes_step [OF step _ _ _ checked_passes [of _ cks ?ck i]]) simp_all
qed

text \<open>What \<open>isActive\<close> does not refuse from its cache.\<close>

definition not_denied :: "status_cache \<Rightarrow> js_string \<Rightarrow> nat \<Rightarrow> bool" where
  "not_denied cache i now \<longleftrightarrow> (\<forall>until. cache i = Some (False, until) \<longrightarrow> until \<le> now)"

lemma not_denied_cached:
  "not_denied cache i now \<Longrightarrow> isActive_cached now i cache \<in> {V_checked i True, V_asking i}"
  by (auto simp: not_denied_def isActive_cached_def split: option.splits)

text \<open>
  What lets a request pass: the cookie of an unexpired session of the device; or else, where there is
  no session, the header with an unexpired token of the device. Both are said of what the stores hold,
  not of what the lookups find.
\<close>

definition shows_pass ::
    "web_env \<Rightarrow> ('r, 'f, 'db) gate \<Rightarrow> string option \<Rightarrow> string option \<Rightarrow> js_string \<Rightarrow> bool" where
  "shows_pass E s cookie header i \<longleftrightarrow>
     (\<exists>ws. shown_session E s cookie ws \<and> ws_device ws = i) \<or>
     (\<forall>ws. \<not> shown_session E s cookie ws) \<and> (\<exists>t. shown_token E s header t \<and> wt_device t = i)"

lemma shows_pass_found:
  assumes "shows_pass E s cookie header i"
    and "session_get (env_hash E) (g_clock s) cookie (wstore (g_web s)) = (found, st)"
  shows "found = Some ws \<Longrightarrow> ws_device ws = i"
    and "found = None \<Longrightarrow> \<exists>h t. header = Some h \<and> wt_device t = i \<and>
      token_lookup (env_hash E) (g_clock s) h (g_tokens s) = Some t"
proof -
  have found: "found = Some ws \<longleftrightarrow> shown_session E s cookie ws" for ws
    using session_get_shown [of E s cookie ws] assms(2) by simp
  have unique: "shown_session E s cookie a \<Longrightarrow> shown_session E s cookie b \<Longrightarrow> a = b" for a b
    by (auto simp: shown_session_def)
  show "ws_device ws = i" if "found = Some ws"
    using assms(1) that unique unfolding shows_pass_def found by blast
  show "\<exists>h t. header = Some h \<and> wt_device t = i \<and> token_lookup (env_hash E) (g_clock s) h (g_tokens s) = Some t"
    if "found = None"
  proof -
    have "\<not> shown_session E s cookie ws" for ws using found [of ws] that by simp
    then obtain t where "shown_token E s header t" "wt_device t = i"
      using assms(1) unfolding shows_pass_def by blast
    moreover from this(1) obtain h where "header = Some h" by (auto simp: shown_token_def)
    ultimately show ?thesis using token_lookup_shown [of E s h t] by blast
  qed
qed

text \<open>
  A form of the login page with the identifier and the code, however typed, that the budgets and the
  claimed windows leave room for; and a login with it that is followed by a request with its cookie,
  which passes.
\<close>

definition right_form ::
    "web_env \<Rightarrow> ('r, 'f, 'db) web \<Rightarrow> otp_request \<Rightarrow> string \<Rightarrow> string \<Rightarrow> nat \<Rightarrow> bool" where
  "right_form E w rq ident code n \<longleftrightarrow>
     rq_origin rq = Some (env_origin E) \<and> env_origin E \<noteq> '''' \<and>
     normalizeId (env_upper E) (rq_device rq) = units ident \<and> normalizeCode (rq_code rq) = units code \<and>
     has_room E w (rq_ip rq) (units ident) n"

definition signs_in_and_passes ::
    "(('r, 'f, 'db) gate \<Rightarrow> ('r, 'f, 'db) gate \<Rightarrow> bool) \<Rightarrow> ('r, 'f, 'db) gate \<Rightarrow> otp_request \<Rightarrow> string \<Rightarrow> string \<Rightarrow> bool" where
  "signs_in_and_passes step s rq ident tok \<longleftrightarrow>
     (\<exists>u v cks ck. step\<^sup>*\<^sup>* s u \<and> request (last (flights (g_web u))) = rq \<and>
        phase (last (flights (g_web u))) = Replied (Signed_in (units ident) tok (rq_target rq)) \<and>
        step\<^sup>*\<^sup>* u v \<and> g_checks v = cks @ [ck] \<and> ck_cookie ck = Some tok \<and> ck_phase ck = V_granted (units ident))"

lemma login_side_star:
  "(web_step P tbl H R F dummy_key vuid auid E)\<^sup>*\<^sup>* (g_web s) w \<Longrightarrow>
   (gate_step P tbl H R F dummy_key vuid auid E tcfg ttl)\<^sup>*\<^sup>* s (s\<lparr>g_web := w\<rparr>)"
proof (induction rule: rtranclp_induct)
  case (step w w')
  have "gate_step P tbl H R F dummy_key vuid auid E tcfg ttl (s\<lparr>g_web := w\<rparr>) ((s\<lparr>g_web := w\<rparr>)\<lparr>g_web := w'\<rparr>)"
    by (rule login_side) (simp add: step(2))
  with step.IH show ?case by (simp add: rtranclp.rtrancl_into_rtrancl)
qed simp

context sqlite_available
begin

lemma asking_passes:
  assumes "g_checks s = cks @ [ck]" and "ck_phase ck = V_asking (units ident)"
    and "up (g_db s)" and "valid_device_id ident" and "tbl (g_db s) ident = Some r" and "r_status r = 1"
  shows "\<exists>t. (gate_step P tbl H R F dummy_key vuid auid E tcfg ttl)\<^sup>*\<^sup>* s t \<and> passes s t ck (units ident)"
proof -
  let ?i = "units ident"
  obtain db' where f: "find_device P ident device_default (g_db s) = (Found, found_device ident r device_default, db')"
    using ks.find_present [OF assms(3-5)] by blast
  have reply: "verifier_handle_request P H dummy_key (daemon_now (g_clock s)) (''STATUS '' @ ident) (g_db s) =
      (Inr (''ACTIVE'' @ [nl]), db')"
    using status_reply [OF f valid_device_id_chars(3) [OF assms(4)]] assms(6) by (simp add: found_device_def)
  have status: "client_status ?i [Data (''ACTIVE'' @ [nl])] = Active"
    using assms(4) by (simp add: client_status_def Let_def)
  let ?ck = "ck\<lparr>ck_phase := V_reply ?i Active, ck_asked := g_clock s\<rparr>"
  let ?t = "s\<lparr>g_web := (g_web s)\<lparr>srv := (srv (g_web s))\<lparr>srv_db := db'\<rparr>\<rparr>,
      g_checks := (g_checks s)[length cks := ?ck], g_answers := (if Active = Active then [(?i, g_clock s)] else []) @ g_answers s\<rparr>"
  have step: "gate_step P tbl H R F dummy_key vuid auid E tcfg ttl s ?t"
    by (rule status_told [where line = "''STATUS '' @ ident" and evs = "[Data (''ACTIVE'' @ [nl])]"
          and reply = "''ACTIVE'' @ [nl]"])
       (use reply status assms(1,2,4) in \<open>simp_all add: status_line_def\<close>)
  show ?thesis
    by (rule passes_step [OF step _ _ _ reply_passes [of _ cks ?ck]]) (simp_all add: assms(1))
qed

text \<open>Behind the lookup of the session or the token.\<close>

lemma isActive_passes:
  assumes "g_checks s = cks @ [ck]"
    and "verify_piece ttl (env_hash E) (g_clock s) ck (gate_view s) =
      (ck\<lparr>ck_phase := isActive_cached (g_clock s) (units ident) (g_cache s), ck_decided := g_clock s\<rparr>, gate_view s)"
    and "\<And>i st. ck_phase ck \<noteq> V_reply i st"
    and "up (g_db s)" and "valid_device_id ident" and "tbl (g_db s) ident = Some r" and "r_status r = 1"
    and "not_denied (g_cache s) (units ident) (g_clock s)"
  shows "\<exists>t. (gate_step P tbl H R F dummy_key vuid auid E tcfg ttl)\<^sup>*\<^sup>* s t \<and> passes s t ck (units ident)"
proof -
  let ?ck = "ck\<lparr>ck_phase := isActive_cached (g_clock s) (units ident) (g_cache s), ck_decided := g_clock s\<rparr>"
  let ?u = "gate_put (gate_view s) (s\<lparr>g_checks := cks @ [?ck]\<rparr>)"
  have step: "gate_step P tbl H R F dummy_key vuid auid E tcfg ttl s ?u"
    by (rule last_piece [OF assms(1,2)]) (simp add: assms(3))
  have "\<exists>t. (gate_step P tbl H R F dummy_key vuid auid E tcfg ttl)\<^sup>*\<^sup>* ?u t \<and> passes ?u t ?ck (units ident)"
    using not_denied_cached [OF assms(8)]
  proof (elim insertE emptyE)
    assume "isActive_cached (g_clock s) (units ident) (g_cache s) = V_checked (units ident) True"
    then show ?thesis by (intro checked_passes [of _ cks]) simp_all
  next
    assume "isActive_cached (g_clock s) (units ident) (g_cache s) = V_asking (units ident)"
    then show ?thesis by (intro asking_passes [of _ cks _ ident r]) (simp_all add: assms(4-7))
  qed
  then show ?thesis by (rule passes_step [OF step, rotated 3]) simp_all
qed

lemma token_passes:
  assumes "g_checks s = cks @ [ck]" and "ck_phase ck = V_session None" and "ck_header ck = Some h"
    and "token_lookup (env_hash E) (g_clock s) h (g_tokens s) = Some t" and "wt_device t = units ident"
    and "up (g_db s)" and "valid_device_id ident" and "tbl (g_db s) ident = Some r" and "r_status r = 1"
    and "not_denied (g_cache s) (units ident) (g_clock s)"
  shows "\<exists>t. (gate_step P tbl H R F dummy_key vuid auid E tcfg ttl)\<^sup>*\<^sup>* s t \<and> passes s t ck (units ident)"
proof -
  let ?ck = "ck\<lparr>ck_token := Some t, ck_looked := g_clock s, ck_phase := V_token (Some t)\<rparr>"
  let ?u = "gate_put (gate_view s) (s\<lparr>g_checks := cks @ [?ck]\<rparr>)"
  have "h \<noteq> ''''" using assms(4) by (auto simp: token_lookup_def isTokenShaped_def)
  then have "verify_piece ttl (env_hash E) (g_clock s) ck (gate_view s) = (?ck, gate_view s)"
    using assms(2-4) by (simp add: verify_piece_def Let_def)
  from last_piece [OF assms(1) this]
  have step: "gate_step P tbl H R F dummy_key vuid auid E tcfg ttl s ?u" by (simp add: assms(2))
  have "\<exists>t. (gate_step P tbl H R F dummy_key vuid auid E tcfg ttl)\<^sup>*\<^sup>* ?u t \<and> passes ?u t ?ck (units ident)"
    by (rule isActive_passes [of _ cks _ _ _ ident r])
       (use assms(5-10) in \<open>simp_all add: verify_piece_def\<close>)
  then show ?thesis by (rule passes_step [OF step, rotated 3]) simp_all
qed

lemma request_passes:
  assumes "shows_pass E s cookie header (units ident)"
    and "up (g_db s)" and "valid_device_id ident" and "tbl (g_db s) ident = Some r" and "r_status r = 1"
    and "not_denied (g_cache s) (units ident) (g_clock s)"
  shows "\<exists>t cks ck. (gate_step P tbl H R F dummy_key vuid auid E tcfg ttl)\<^sup>*\<^sup>* s t \<and> g_clock t = g_clock s \<and>
    g_checks t = cks @ [ck] \<and> ck_cookie ck = cookie \<and> ck_header ck = header \<and> ck_phase ck = V_granted (units ident)"
proof -
  let ?step = "gate_step P tbl H R F dummy_key vuid auid E tcfg ttl" and ?i = "units ident"
  let ?ck = "\<lparr>ck_cookie = cookie, ck_header = header, ck_session = None, ck_token = None,
      ck_looked = 0, ck_phase = V_received, ck_asked = 0, ck_decided = 0\<rparr>"
  let ?s = "s\<lparr>g_checks := g_checks s @ [?ck]\<rparr>"
  obtain found st where get: "session_get (env_hash E) (g_clock s) cookie (wstore (g_web s)) = (found, st)" by fastforce
  let ?ck1 = "?ck\<lparr>ck_session := found, ck_looked := g_clock s, ck_phase := V_session found\<rparr>"
  let ?g = "(gate_view ?s)\<lparr>gs_store := st\<rparr>"
  let ?u = "gate_put ?g (?s\<lparr>g_checks := g_checks s @ [?ck1]\<rparr>)"
  have received: "?step s ?s" by (rule check_received)
  have "verify_piece ttl (env_hash E) (g_clock ?s) ?ck (gate_view ?s) = (?ck1, ?g)"
    by (simp add: verify_piece_def get)
  from last_piece [OF _ this, of "g_checks s"] have looked: "?step ?s ?u" by simp
  have "\<exists>t. ?step\<^sup>*\<^sup>* ?u t \<and> passes ?u t ?ck1 ?i"
  proof (cases found)
    case (Some ws)
    then have "ws_device ws = ?i" by (rule shows_pass_found(1) [OF assms(1) get])
    then show ?thesis
      by (intro isActive_passes [of _ "g_checks s" _ _ _ ident r])
         (use assms(2-6) Some in \<open>simp_all add: verify_piece_def\<close>)
  next
    case None
    then obtain h t where "header = Some h" "token_lookup (env_hash E) (g_clock s) h (g_tokens s) = Some t" "wt_device t = ?i"
      using shows_pass_found(2) [OF assms(1) get] by blast
    then show ?thesis
      by (intro token_passes [of _ "g_checks s" _ h _ t ident r]) (use assms(2-6) None in simp_all)
  qed
  then have "\<exists>t. ?step\<^sup>*\<^sup>* ?s t \<and> passes ?s t ?ck ?i" by (rule passes_step [OF looked, rotated 3]) simp_all
  then have "\<exists>t. ?step\<^sup>*\<^sup>* s t \<and> passes s t ?ck ?i" by (rule passes_step [OF received, rotated 3]) simp_all
  then show ?thesis by (fastforce simp: passes_def)
qed

text \<open>A login followed by a request with its cookie, at the same time of the clock.\<close>

lemma login_opens_gate:
  assumes "right_form E (g_web s) rq ident code (unat c)" and "unat c < 10 ^ 15"
    and "hmac_digest_32 H" and "up (g_db s)" and "valid_device_id ident" and "tbl (g_db s) ident = Some r"
    and "r_status r = 1" and "length (c_str (r_key r)) = 128"
    and "window_match H (c_str (r_key r)) (daemon_now (g_clock s) div 90) code = Some c"
    and "not_denied (g_cache s) (units ident) (g_clock s)"
    and "tok \<noteq> ''''" and "length tok \<le> 128" and "0 < sessionTtlSeconds (env_config E)"
  shows "signs_in_and_passes (gate_step P tbl H R F dummy_key vuid auid E tcfg ttl) s rq ident tok"
proof -
  let ?step = "gate_step P tbl H R F dummy_key vuid auid E tcfg ttl" and ?w = "g_web s"
  obtain db' where v: "verifier_handle_request P H dummy_key (daemon_now (g_clock s))
      (''VERIFY '' @ ident @ '' '' @ code) (g_db s) = (Inr (''OK '' @ nat_to_string (unat c) @ [nl]), db')"
    and db': "tbl db' = tbl (g_db s)" "up db'"
    using verify_complete_up [OF assms(3-9)] by blast
  have "isValidCode (units code)"
    using window_match_wellformed [OF assms(3,9)] by (auto simp: isValidCode_iff all_digits_iff)
  with login_run [OF _ _ _ assms(5) _ _ _ assms(2) v] assms(1)
  obtain fl st l where run: "(web_step P tbl H R F dummy_key vuid auid E)\<^sup>*\<^sup>* ?w
      (under_way ?w fl st [l] ((srv ?w)\<lparr>srv_db := db'\<rparr>))"
    and fl: "request fl = rq" "phase fl = Replied (Signed_in (units ident) tok (rq_target rq))"
    and sess: "sess st (env_hash E tok) = Some \<lparr>ws_device = units ident, ws_created = g_clock s,
      ws_expires = g_clock s + sessionTtlSeconds (env_config E) * 1000\<rparr>"
    unfolding right_form_def by metis
  let ?u = "s\<lparr>g_web := under_way ?w fl st [l] ((srv ?w)\<lparr>srv_db := db'\<rparr>)\<rparr>"
  have "?step\<^sup>*\<^sup>* s ?u" using login_side_star [OF run] by simp
  moreover have "shows_pass E ?u (Some tok) None (units ident)"
    using sess assms(11-13) by (simp add: shows_pass_def shown_session_def under_way_def)
  then have "\<exists>v cks ck. ?step\<^sup>*\<^sup>* ?u v \<and> g_clock v = g_clock ?u \<and> g_checks v = cks @ [ck] \<and>
      ck_cookie ck = Some tok \<and> ck_header ck = None \<and> ck_phase ck = V_granted (units ident)"
    by (rule request_passes [of _ _ _ _ _ r]) (use assms(5-7,10) db' in \<open>simp_all add: under_way_def\<close>)
  then obtain v cks ck where "?step\<^sup>*\<^sup>* ?u v" "g_checks v = cks @ [ck]" "ck_cookie ck = Some tok"
    "ck_phase ck = V_granted (units ident)"
    by blast
  ultimately show ?thesis
    using fl unfolding signs_in_and_passes_def by (intro exI [of _ ?u] exI conjI) (simp_all add: under_way_def)
qed

end

section \<open>Properties\<close>

text \<open>
  C14. The gate opens. While the keystore answers, a request with the cookie of an unexpired session of
  an active device, kept in the store under the hash of the cookie, or without a session and with an
  unexpired token of one, kept under the hash of the token, has a run that ends with the request let
  through, whether the state of the device is cached as active, cached no longer, or
  was never asked for.
\<close>

theorem gate_completes:
  assumes "sqlite_available P tbl up" and "shows_pass E s cookie header (units ident)"
    and "up (g_db s)" and "valid_device_id ident" and "tbl (g_db s) ident = Some r" and "r_status r = 1"
    and "not_denied (g_cache s) (units ident) (g_clock s)"
  shows "\<exists>t cks ck. (gate_step P tbl H R F dummy_key vuid auid E tcfg ttl)\<^sup>*\<^sup>* s t \<and> g_clock t = g_clock s \<and>
    g_checks t = cks @ [ck] \<and> ck_cookie ck = cookie \<and> ck_header ck = header \<and> ck_phase ck = V_granted (units ident)"
  by (rule sqlite_available.request_passes [OF assms])

text \<open>One state with a session and a token of the device: the cookie passes, and so does the header.\<close>

definition sample_visits :: "(byte list, disk, mem_db) gate" where
  "sample_visits =
     (let s = sample_gate 1800000 sample_server Map.empty [] [] in
      s\<lparr>g_web := (g_web s)\<lparr>wstore := empty_store\<lparr>sess :=
        [''cookie'' \<mapsto> \<lparr>ws_device = units ''7Q5V'', ws_created = 1799000, ws_expires = 1900000\<rparr>]\<rparr>\<rparr>\<rparr>)"

theorem gate_completes_witness:
  "(\<exists>t cks ck. sample_gate_step\<^sup>*\<^sup>* sample_visits t \<and> g_checks t = cks @ [ck] \<and>
     ck_cookie ck = Some ''cookie'' \<and> ck_header ck = None \<and> ck_phase ck = V_granted (units ''7Q5V'')) \<and>
   (\<exists>t cks ck. sample_gate_step\<^sup>*\<^sup>* sample_visits t \<and> g_checks t = cks @ [ck] \<and>
     ck_cookie ck = None \<and> ck_header ck = Some sample_token \<and> ck_phase ck = V_granted (units ''7Q5V''))"
proof -
  let ?s = sample_visits
  have session: "shows_pass sample_env ?s (Some ''cookie'') None (units ''7Q5V'')"
    by (simp add: shows_pass_def shown_session_def sample_visits_def sample_gate_def)
  have tok: "shown_token sample_env ?s (Some sample_token) sample_record"
    unfolding token_lookup_shown [symmetric]
    using sample_lookup [of 1800000] by (simp add: sample_visits_def sample_gate_def)
  then have token: "shows_pass sample_env ?s None (Some sample_token) (units ''7Q5V'')"
    by (auto simp: shows_pass_def shown_session_def sample_record_def)
  have row: "mem_up (g_db ?s)" "mem_tbl (g_db ?s) ''7Q5V'' = Some (sample_row 1)" "r_status (sample_row 1) = 1"
    by (simp_all add: sample_visits_def sample_gate_def sample_server_def)
  have cached: "not_denied (g_cache ?s) (units ''7Q5V'') (g_clock ?s)"
    by (simp add: not_denied_def sample_visits_def sample_gate_def)
  note opens = gate_completes [OF mem.sqlite_available_axioms _ row(1) sample_ids(1) row(2,3) cached, of sample_env _ _
      sample_hmac list_rng disk_calls sample_key "-1" "-1" "\<lparr>tokenTtlSeconds = 60, maxTokensPerDevice = 1\<rparr>" 5000]
  show ?thesis using opens [OF session] opens [OF token] by blast
qed

end
