(* ===== verification/Auth_Admin.thy ===== *)
theory Auth_Admin
  imports Admin Auth_Client
begin

text \<open>
  The dashboard's client of the admin daemon, \<open>auth-web/src/admin.js\<close>, and the guard of the last
  administrator in \<open>auth-web/src/routes/admin.js\<close>. A reply is a string of characters below 256,
  which is what the daemon sends; a label comes from a form and is a JavaScript string.
\<close>

section \<open>The client\<close>

definition ADMIN_MAX_REPLY :: nat where "ADMIN_MAX_REPLY = 64 * 1024"

text \<open>This client waits for the end of the stream.\<close>

fun admin_ask :: "string \<Rightarrow> sock_event list \<Rightarrow> string option" where
  "admin_ask reply [] = None"
| "admin_ask reply (Data chunk # evs) =
     (let reply' = reply @ chunk in
      if ADMIN_MAX_REPLY < length reply' then None else admin_ask reply' evs)"
| "admin_ask reply (Sock_end # evs) = Some reply"
| "admin_ask reply (ev # evs) = None"

datatype admin_verdict = Ok | No | Failed

definition okNo :: "sock_event list \<Rightarrow> admin_verdict" where
  "okNo evs =
     (let reply = admin_ask '''' evs in
      if reply = Some (''OK'' @ [nl]) then Ok else if reply = Some (''NO'' @ [nl]) then No else Failed)"

record admin_device =
  ad_id :: string
  ad_active :: bool
  ad_created :: "string option"
  ad_label :: string

text \<open>\<open>s.replace(c, d)\<close>: the first occurrence. \<open>\S+\<close>: up to the next white space.\<close>

fun replace_first :: "'a \<Rightarrow> 'a \<Rightarrow> 'a list \<Rightarrow> 'a list" where
  "replace_first c d [] = []"
| "replace_first c d (x # xs) = (if x = c then d # xs else x # replace_first c d xs)"

definition no_space :: "char \<Rightarrow> bool" where
  "no_space c \<longleftrightarrow> \<not> js_space (code_unit c)"

definition token_then :: "string \<Rightarrow> (string \<times> string) option" where
  "token_then s =
     (let w = takeWhile no_space s; r = dropWhile no_space s
      in if w \<noteq> [] \<and> take 1 r = '' '' then Some (w, drop 1 r) else None)"

text \<open>The pattern \<open>^DEVICE (\S+) (active|revoked) (\S+) (.*)$\<close>; a dot is no line terminator.\<close>

definition admin_list_line :: "string \<Rightarrow> admin_device option" where
  "admin_list_line l =
     (if take 7 l \<noteq> ''DEVICE '' then None
      else case token_then (drop 7 l) of
        None \<Rightarrow> None
      | Some (i, r) \<Rightarrow>
          (case (if take 7 r = ''active '' then Some (True, drop 7 r)
                 else if take 8 r = ''revoked '' then Some (False, drop 8 r) else None) of
             None \<Rightarrow> None
           | Some (active, r2) \<Rightarrow>
               (case token_then r2 of
                  None \<Rightarrow> None
                | Some (created, label) \<Rightarrow>
                    if nl \<in> set label \<or> CHR 0x0D \<in> set label then None
                    else Some \<lparr>ad_id = i, ad_active = active,
                      ad_created = (if created = ''-'' then None
                        else Some (replace_first (CHR ''T'') (CHR '' '') created)),
                      ad_label = label\<rparr>)))"

definition admin_list :: "sock_event list \<Rightarrow> admin_device list option" where
  "admin_list evs =
     (case admin_ask '''' evs of
        None \<Rightarrow> None
      | Some reply \<Rightarrow>
          if \<not> suffix (''END'' @ [nl]) reply then None
          else those (map admin_list_line (filter (\<lambda>l. l \<noteq> []) (split_on nl (take (length reply - 4) reply)))))"

text \<open>The pattern \<open>^OK ([0-9A-HJKMNP-TV-Z]{4,8}) ([0-9a-f]{128})\n$\<close>.\<close>

definition hex_digit :: "char \<Rightarrow> bool" where
  "hex_digit c \<longleftrightarrow> CHR ''0'' \<le> c \<and> c \<le> CHR ''9'' \<or> CHR ''a'' \<le> c \<and> c \<le> CHR ''f''"

definition parse_added :: "string \<Rightarrow> (string \<times> string) option" where
  "parse_added reply =
     (let rest = drop 3 reply; i = takeWhile (\<lambda>c. id_unit (code_unit c)) rest; r = drop (length i) rest;
          key = take 128 (drop 1 r)
      in if take 3 reply = ''OK '' \<and> 4 \<le> length i \<and> length i \<le> 8 \<and> take 1 r = '' '' \<and>
            length key = 128 \<and> list_all hex_digit key \<and> drop 129 r = [nl]
         then Some (i, key) else None)"

section \<open>Labels\<close>

function collapse_spaces :: "js_string \<Rightarrow> js_string" where
  "collapse_spaces [] = []"
| "collapse_spaces (c # s) =
     (if js_space c then code_unit (CHR '' '') # collapse_spaces (dropWhile js_space s) else c # collapse_spaces s)"
  by pat_completeness auto
termination
  by (relation "measure length") (auto intro: le_imp_less_Suc length_dropWhile_le)

definition label_unit :: "16 word \<Rightarrow> bool" where
  "label_unit u \<longleftrightarrow> 0x20 \<le> u \<and> u \<le> 0x7E \<and> u \<noteq> code_unit dquote \<and> u \<noteq> code_unit (CHR 0x5C)"

definition normalizeLabel :: "js_string option \<Rightarrow> js_string option" where
  "normalizeLabel raw =
     (let label = collapse_spaces (js_trim (js_text raw))
      in if 1 \<le> length label \<and> length label \<le> 64 \<and> list_all label_unit label then Some label else None)"

text \<open>\<open>add\<close>, on the events of its socket, and the request it sends.\<close>

definition add_line :: "js_string \<Rightarrow> string" where
  "add_line label = ''ADD '' @ ascii_bytes label @ [nl]"

definition client_add :: "js_string \<Rightarrow> sock_event list \<Rightarrow> (string \<times> string) option" where
  "client_add label evs =
     (if normalizeLabel (Some label) \<noteq> Some label then None
      else case admin_ask '''' evs of None \<Rightarrow> None | Some reply \<Rightarrow> parse_added reply)"

section \<open>A label the form accepts\<close>

lemma js_space_blank [simp]: "js_space (code_unit (CHR '' ''))"
  by (simp add: js_space_def word_unat_eq_iff unat_code_unit)

lemma last_dropWhile: "dropWhile Q xs \<noteq> [] \<Longrightarrow> last (dropWhile Q xs) = last xs"
  by (metis append_is_Nil_conv last_appendR takeWhile_dropWhile_id)

text \<open>No white space at the ends.\<close>

definition bare_ends :: "js_string \<Rightarrow> bool" where
  "bare_ends s \<longleftrightarrow> s = [] \<or> \<not> js_space (hd s) \<and> \<not> js_space (last s)"

lemma bare_ends_trim: "bare_ends (js_trim s)"
proof -
  let ?d = "dropWhile js_space s"
  let ?t = "dropWhile js_space (rev ?d)"
  show ?thesis
  proof (cases "?t = []")
    case True
    then show ?thesis by (simp only: js_trim_def bare_ends_def rev.simps simp_thms)
  next
    case False
    then have d: "?d \<noteq> []" by (metis dropWhile.simps(1) rev.simps(1))
    have "last ?t = hd ?d" using last_dropWhile [OF False] d by (simp only: last_rev)
    then have "\<not> js_space (hd ?t)" "\<not> js_space (last ?t)"
      using hd_dropWhile [OF False] hd_dropWhile [OF d] by (simp_all only: simp_thms)
    with False show ?thesis by (simp only: js_trim_def bare_ends_def hd_rev last_rev simp_thms)
  qed
qed

lemma js_trim_bare: "bare_ends s \<Longrightarrow> js_trim s = s"
proof (cases "s = []")
  case False
  assume "bare_ends s"
  with False have e: "\<not> js_space (hd s)" "\<not> js_space (last s)" by (simp_all add: bare_ends_def)
  from e(1) False have "dropWhile js_space s = s" by (cases s) simp_all
  moreover from e(2) False have "dropWhile js_space (rev s) = rev s" by (cases s rule: rev_cases) simp_all
  ultimately show ?thesis by (simp add: js_trim_def)
qed (simp add: js_trim_def)

lemma collapse_hd: "s \<noteq> [] \<Longrightarrow> collapse_spaces s \<noteq> [] \<and> (js_space (hd (collapse_spaces s)) \<longleftrightarrow> js_space (hd s))"
  by (cases s) auto

lemma collapse_last: "s \<noteq> [] \<Longrightarrow> \<not> js_space (last s) \<Longrightarrow> last (collapse_spaces s) = last s"
proof (induction s rule: collapse_spaces.induct)
  case (2 c s)
  show ?case
  proof (cases "js_space c")
    case True
    with 2(4) have s: "s \<noteq> []" "\<not> js_space (last s)" by (auto split: if_splits)
    then have d: "dropWhile js_space s \<noteq> []" by (metis dropWhile_eq_Nil_conv last_in_set)
    then show ?thesis
      using 2(1) [OF True d] last_dropWhile [OF d] s True collapse_hd [OF d] by simp
  next
    case False
    with 2 show ?thesis by (cases "s = []") (auto dest: collapse_hd)
  qed
qed simp

lemma collapse_idem: "collapse_spaces (collapse_spaces s) = collapse_spaces s"
proof (induction s rule: collapse_spaces.induct)
  case (2 c s)
  show ?case
  proof (cases "js_space c")
    case True
    let ?d = "dropWhile js_space s"
    have "dropWhile js_space (collapse_spaces ?d) = collapse_spaces ?d"
    proof (cases "?d = []")
      case True
      then show ?thesis by (simp only: collapse_spaces.simps dropWhile.simps)
    next
      case False
      then have "\<not> js_space (hd ?d)" by (rule hd_dropWhile)
      with collapse_hd [OF False] show ?thesis by (cases "collapse_spaces ?d") auto
    qed
    with 2(1) [OF True] True show ?thesis by simp
  next
    case False
    with 2 show ?thesis by simp
  qed
qed simp

lemma bare_ends_collapse: "bare_ends s \<Longrightarrow> bare_ends (collapse_spaces s)"
  by (cases "s = []") (auto simp: bare_ends_def collapse_last dest: collapse_hd)

text \<open>What \<open>normalizeLabel\<close> gives it accepts, unchanged, and so does the daemon.\<close>

lemma normalizeLabel_idem:
  assumes "normalizeLabel raw = Some label"
  shows "normalizeLabel (Some label) = Some label"
proof -
  let ?t = "js_trim (js_text raw)"
  have label: "label = collapse_spaces ?t" "1 \<le> length label \<and> length label \<le> 64 \<and> list_all label_unit label"
    using assms by (auto simp: normalizeLabel_def Let_def split: if_splits)
  have "bare_ends label" by (simp add: label(1) bare_ends_collapse bare_ends_trim)
  moreover have "collapse_spaces label = label" by (simp add: label(1) collapse_idem)
  ultimately show ?thesis using label(2) by (simp add: normalizeLabel_def js_text_def js_trim_bare)
qed

lemma label_unit_code_unit [simp]: "label_unit (code_unit c) \<longleftrightarrow> label_char c"
  by (auto simp: label_unit_def label_char_def word_le_nat_alt unat_code_unit less_char_def)

lemma label_unit_ascii: "label_unit u \<Longrightarrow> \<exists>c. u = code_unit c"
  by (rule unit_in_ascii [of "CHR 0x20" "CHR 0x7E"])
     (simp add: label_unit_def unit_in_def word_le_nat_alt unat_code_unit)

lemma normalizeLabel_valid:
  assumes "normalizeLabel raw = Some label"
  obtains s where "label = units s" "valid_label s"
proof -
  have l: "1 \<le> length label \<and> length label \<le> 64 \<and> list_all label_unit label"
    using assms by (auto simp: normalizeLabel_def Let_def split: if_splits)
  then obtain s where s: "label = units s" by (metis units_of_list_all label_unit_ascii)
  with l have "valid_label s" by (auto simp: valid_label_iff units_def list_all_iff)
  with s show thesis by (rule that)
qed

section \<open>The listing as the client reads it\<close>

lemma admin_ask_Some: "admin_ask reply evs = Some s \<Longrightarrow> s = reply @ data_of evs"
  by (induction reply evs rule: admin_ask.induct) (auto simp: Let_def split: if_splits)

text \<open>A reply delivered to its end, in whatever chunks.\<close>

definition delivered :: "string list \<Rightarrow> sock_event list" where
  "delivered cs = map Data cs @ [Sock_end]"

lemma admin_ask_chunks:
  "length reply \<le> ADMIN_MAX_REPLY \<Longrightarrow>
   admin_ask reply (map Data cs @ [Sock_end]) =
     (if length (reply @ concat cs) \<le> ADMIN_MAX_REPLY then Some (reply @ concat cs) else None)"
  by (induction cs arbitrary: reply) (simp_all add: Let_def)

lemma admin_ask_delivered:
  "admin_ask '''' (delivered cs) = (if length (concat cs) \<le> ADMIN_MAX_REPLY then Some (concat cs) else None)"
  using admin_ask_chunks [of "''''" cs] by (simp add: delivered_def)

lemma no_space_printable: "CHR 0x21 \<le> c \<Longrightarrow> c \<le> CHR 0x7E \<Longrightarrow> no_space c"
  by (auto simp: no_space_def js_space_def word_le_nat_alt word_unat_eq_iff unat_code_unit less_eq_char_def)

lemmas not_space_letters = no_space_printable [unfolded no_space_def]

lemma no_space_chars:
  "crockford_char c \<Longrightarrow> no_space c" "is_digit c \<Longrightarrow> no_space c"
  "no_space (CHR ''-'')" "no_space (CHR '':'')" "no_space (CHR ''T'')" "\<not> no_space (CHR '' '')"
proof -
  show "crockford_char c \<Longrightarrow> no_space c" "is_digit c \<Longrightarrow> no_space c"
    by (rule no_space_printable;
        auto simp: crockford_char_def is_digit_def less_eq_char_def less_char_def split: if_splits)+
qed (simp_all add: no_space_printable, simp add: no_space_def)

lemma token_then_word:
  assumes "w \<noteq> []" and "\<forall>c \<in> set w. no_space c"
  shows "token_then (w @ '' '' @ rest) = Some (w, rest)"
proof -
  have "takeWhile no_space (w @ CHR '' '' # rest) = w" "dropWhile no_space (w @ CHR '' '' # rest) = CHR '' '' # rest"
    using assms(2) no_space_chars(6) by (auto simp: takeWhile_append dropWhile_append)
  with assms(1) show ?thesis by (simp add: token_then_def)
qed

definition shown_device :: "string \<times> krow \<Rightarrow> admin_device" where
  "shown_device = (\<lambda>(i, r).
     \<lparr>ad_id = i, ad_active = (r_status r = 1), ad_created = r_created r, ad_label = r_note r\<rparr>)"

lemma replace_first_update:
  "k < length s \<Longrightarrow> c \<notin> set s \<Longrightarrow> s ! k = d \<Longrightarrow> replace_first c d (s[k := c]) = s"
  by (induction s arbitrary: k) (auto simp: less_Suc_eq_0_disj nth_Cons split: nat.splits)

lemma sql_datetime_token:
  assumes "sql_datetime ts"
  shows "token_date ts \<noteq> ''-'' \<and> (\<forall>c \<in> set (token_date ts). no_space c) \<and>
    replace_first (CHR ''T'') (CHR '' '') (token_date ts) = ts"
proof -
  from assms obtain d t where ts: "ts = d @ '' '' @ t" "length d = 10"
      "\<forall>c \<in> set d. is_digit c \<or> c = CHR ''-''" "\<forall>c \<in> set t. is_digit c \<or> c = CHR '':''"
    unfolding sql_datetime_def by blast
  then have date: "token_date ts = d @ ''T'' @ t" by (simp add: token_date_def list_update_append)
  have "CHR ''T'' \<notin> set d" "CHR ''T'' \<notin> set t" using ts(3,4) by (auto simp: is_digit_def)
  then have "CHR ''T'' \<notin> set ts" by (simp add: ts(1))
  then have "replace_first (CHR ''T'') (CHR '' '') (ts[10 := CHR ''T'']) = ts"
    by (rule replace_first_update [rotated]) (simp_all add: ts nth_append)
  moreover have "length (token_date ts) \<noteq> 1" unfolding date using ts(2) by simp
  moreover have "ts \<noteq> []" using ts(1) by simp
  moreover have "\<forall>c \<in> set (token_date ts). no_space c"
    using ts(3,4) no_space_chars by (auto simp: date)
  ultimately show ?thesis by (auto simp: token_date_def)
qed

lemma list_token_line:
  assumes "wf_row i r" and "token_line (listed (i, r)) = l @ [nl]"
  shows "admin_list_line l = Some (shown_device (i, r))"
proof -
  have i: "\<forall>c \<in> set i. no_space c" "i \<noteq> []" "c_str i = i"
    using assms(1) no_space_chars(1) by (auto simp: wf_row_def valid_device_id_chars valid_device_id_iff)
  have label: "c_str (r_note r) = r_note r" "nl \<notin> set (r_note r)" "CHR 0x0D \<notin> set (r_note r)"
  proof -
    have v: "valid_label (r_note r)" using assms(1) by (simp add: wf_row_def)
    then show "c_str (r_note r) = r_note r" "nl \<notin> set (r_note r)" by (simp_all add: valid_label_chars)
    have "\<not> label_char (CHR 0x0D)" by (simp add: label_char_def)
    with v show "CHR 0x0D \<notin> set (r_note r)" by (auto simp: valid_label_iff)
  qed
  define cr where "cr = token_date (dev_created (listed (i, r)))"
  define shown where "shown = (if cr = ''-'' then None else Some (replace_first (CHR ''T'') (CHR '' '') cr))"
  have cr: "cr \<noteq> [] \<and> (\<forall>c \<in> set cr. no_space c) \<and> shown = r_created r"
  proof (cases "r_created r")
    case None
    then show ?thesis by (simp add: cr_def shown_def listed_def token_date_def c_str_def no_space_chars)
  next
    case (Some ts)
    with assms(1) have dt: "sql_datetime ts" by (simp add: wf_row_def)
    then have "CHR 0x00 \<notin> set ts" by (rule sql_datetime_parts)
    with Some have "cr = token_date ts" by (simp add: cr_def listed_def c_str_id)
    moreover have "ts \<noteq> []" using dt by (auto simp: sql_datetime_def)
    ultimately show ?thesis using sql_datetime_token [OF dt] Some by (auto simp: shown_def token_date_def)
  qed
  define st where "st = (if r_status r = 1 then ''active '' else ''revoked '')"
  have "l @ [nl] = (''DEVICE '' @ i @ '' '' @ st @ cr @ '' '' @ r_note r) @ [nl]"
    unfolding assms(2) [symmetric] token_line_def st_def cr_def by (simp add: listed_def i label)
  then have l: "l = ''DEVICE '' @ i @ '' '' @ st @ cr @ '' '' @ r_note r" unfolding append_same_eq .
  have first: "token_then (i @ '' '' @ st @ cr @ '' '' @ r_note r) = Some (i, st @ cr @ '' '' @ r_note r)"
    using i(1,2) by (intro token_then_word)
  have second: "token_then (cr @ '' '' @ r_note r) = Some (cr, r_note r)"
    using cr by (intro token_then_word) simp_all
  have "take 7 l = ''DEVICE ''" "drop 7 l = i @ '' '' @ st @ cr @ '' '' @ r_note r" by (simp_all add: l)
  moreover have "(if take 7 r2 = ''active '' then Some (True, drop 7 r2)
      else if take 8 r2 = ''revoked '' then Some (False, drop 8 r2) else None) =
      Some (r_status r = 1, cr @ '' '' @ r_note r)" if "r2 = st @ cr @ '' '' @ r_note r" for r2
    by (simp add: that st_def)
  ultimately show ?thesis
    using conjunct2 [OF conjunct2 [OF cr]] label(2,3)
    by (simp only: admin_list_line_def first second shown_def option.case prod.case shown_device_def if_False simp_thms)
qed

lemma list_listing_lines:
  assumes "\<forall>(i, r) \<in> set rows. wf_row i r" and "map (\<lambda>l. l @ [nl]) ls = map (\<lambda>x. token_line (listed x)) rows"
  shows "filter (\<lambda>l. l \<noteq> []) (ls @ ['''']) = ls \<and> those (map admin_list_line ls) = Some (map shown_device rows)"
proof -
  have line: "admin_list_line l = Some (shown_device x) \<and> l \<noteq> []"
    if "x \<in> set rows" "token_line (listed x) = l @ [nl]" for l x
  proof -
    obtain i r where x: "x = (i, r)" by fastforce
    with that assms(1) have "admin_list_line l = Some (shown_device x)" by (auto intro: list_token_line)
    moreover have "admin_list_line [] = None" by (simp add: admin_list_line_def)
    ultimately show ?thesis by auto
  qed
  from assms(2) line show ?thesis
  proof (induction rows arbitrary: ls)
    case (Cons x rows)
    from Cons.prems(1) obtain l ls' where ls: "ls = l # ls'" "token_line (listed x) = l @ [nl]"
        "map (\<lambda>l. l @ [nl]) ls' = map (\<lambda>x. token_line (listed x)) rows"
      by (cases ls) auto
    have "filter (\<lambda>l. l \<noteq> []) (ls' @ ['''']) = ls' \<and> those (map admin_list_line ls') = Some (map shown_device rows)"
      by (rule Cons.IH [OF ls(3)]) (rule Cons.prems(2), simp_all)
    moreover have "admin_list_line l = Some (shown_device x) \<and> l \<noteq> []"
      by (rule Cons.prems(2) [OF _ ls(2)]) simp
    ultimately show ?case by (simp add: ls(1))
  qed simp
qed

lemma sent_listing:
  assumes "wf_table t" and "finite (dom t)"
  shows "single_token_dates (listing_text t) =
      concat (map (\<lambda>x. token_line (listed x)) (table_rows t)) @ ''END'' @ [nl]"
    and "\<forall>d \<in> set (map listed (table_rows t)). listable d" and "\<forall>(i, r) \<in> set (table_rows t). wf_row i r"
proof -
  show wf: "\<forall>(i, r) \<in> set (table_rows t). wf_row i r"
    using set_table_rows_mem [OF assms(2)] wf_tableD [OF assms(1)] by blast
  then show ds: "\<forall>d \<in> set (map listed (table_rows t)). listable d" using listable_listed by auto
  show "single_token_dates (listing_text t) =
      concat (map (\<lambda>x. token_line (listed x)) (table_rows t)) @ ''END'' @ [nl]"
    using single_token_dates_listing [OF ds] by (simp add: listing_text_def comp_def)
qed

lemma list_sent_listing:
  assumes "wf_table t" and "finite (dom t)" and "admin_ask '''' evs = Some (single_token_dates (listing_text t))"
  shows "admin_list evs = Some (map shown_device (table_rows t))"
proof -
  let ?body = "concat (map token_line (map listed (table_rows t)))"
  have sent: "single_token_dates (listing_text t) = ?body @ ''END'' @ [nl]"
    using sent_listing(1) [OF assms(1,2)] by (simp add: comp_def)
  obtain ls where ls: "map (\<lambda>l. l @ [nl]) ls = map token_line (map listed (table_rows t))"
      "split_on nl (?body @ '''') = ls @ split_on nl ''''"
    using split_listing [OF sent_listing(2) [OF assms(1,2)], of "''''"] by blast
  have "map (\<lambda>l. l @ [nl]) ls = map (\<lambda>x. token_line (listed x)) (table_rows t)" using ls(1) by simp
  from list_listing_lines [OF sent_listing(3) [OF assms(1,2)] this] ls(2)
  show ?thesis by (simp add: admin_list_def assms(3) sent suffix_def)
qed

lemma length_token_line:
  assumes "wf_row i r"
  shows "length (token_line (listed (i, r))) \<le> 109"
proof -
  have "length (dev_id (listed (i, r))) \<le> 8" "length (dev_note (listed (i, r))) \<le> 64"
    using assms by (auto simp: wf_row_def listed_def valid_device_id_iff valid_label_iff c_str_def
        intro: order_trans [OF length_takeWhile_le])
  moreover have "length (token_date (dev_created (listed (i, r)))) \<le> 19"
    using assms by (cases "r_created r") (auto simp: wf_row_def listed_def token_date_def sql_datetime_def c_str_def
        intro: order_trans [OF length_takeWhile_le])
  ultimately show ?thesis by (simp add: token_line_def)
qed

lemma length_sent_listing:
  assumes "wf_table t" and "finite (dom t)"
  shows "length (single_token_dates (listing_text t)) \<le> 109 * card (dom t) + 4"
proof -
  have "length (concat (map (\<lambda>x. token_line (listed x)) rows)) \<le> 109 * length rows"
    if "\<forall>(i, r) \<in> set rows. wf_row i r" for rows
    using that by (induction rows) (auto dest!: length_token_line)
  from this [OF sent_listing(3) [OF assms]] show ?thesis
    by (simp add: sent_listing(1) [OF assms] table_rows_def)
qed

section \<open>Adding a device\<close>

lemma take_one: "take 1 r = [c] \<Longrightarrow> r = c # drop 1 r"
  by (cases r) simp_all

lemma parse_added_SomeD:
  assumes "parse_added s = Some (i, key)"
  shows "s = ''OK '' @ i @ '' '' @ key @ [nl]"
proof -
  define rest where "rest = drop 3 s"
  define r where "r = drop (length i) rest"
  have p: "take 3 s = ''OK ''" "i = takeWhile (\<lambda>c. id_unit (code_unit c)) rest" "take 1 r = '' ''"
    "key = take 128 (drop 1 r)" "drop 129 r = [nl]"
    using assms by (auto simp: parse_added_def Let_def rest_def r_def split: if_splits)
  have "drop 128 (drop 1 r) = [nl]" using p(5) by simp
  then have "drop 1 r = key @ [nl]" unfolding p(4) by (metis append_take_drop_id)
  with take_one [OF p(3)] have r: "r = '' '' @ key @ [nl]" by simp
  have "rest = i @ r" unfolding r_def p(2) by (metis append_take_drop_id takeWhile_eq_take)
  moreover have "s = ''OK '' @ rest" using p(1) append_take_drop_id [of 3 s] by (simp add: rest_def)
  ultimately show ?thesis by (simp add: r)
qed

lemma hex_char_digit: "hex_char c \<Longrightarrow> hex_digit c"
  by (auto simp: hex_char_def hex_alphabet_def hex_digit_def)

lemma parse_added_reply:
  assumes "valid_device_id i" and "valid_key key"
  shows "parse_added (''OK '' @ i @ '' '' @ key @ [nl]) = Some (i, key)"
proof -
  have i: "\<forall>c \<in> set i. crockford_char c" "4 \<le> length i" "length i \<le> 8"
    using assms(1) by (simp_all add: valid_device_id_iff)
  have "\<not> crockford_char (CHR '' '')" by (simp add: crockford_char_def)
  then have t: "takeWhile crockford_char (i @ CHR '' '' # key @ [nl]) = i"
    using i(1) by (simp add: takeWhile_append)
  have key: "list_all hex_digit key" "length key = 128"
    using assms(2) by (simp_all add: valid_key_def list_all_iff hex_char_digit)
  then have "take 128 (key @ [nl]) = key" "drop 128 (key @ [nl]) = [nl]" by simp_all
  with t key i(2,3) show ?thesis by (simp add: parse_added_def Let_def drop_Cons')
qed

text \<open>The cases of the daemon's contract for \<open>ADD\<close>.\<close>

lemma admin_spec_AddE:
  assumes "admin_spec t (Add s) out t'"
    and "out = ''ERR'' @ [nl] \<Longrightarrow> t' = t \<Longrightarrow> Q"
    and "\<And>i key ts. valid_device_id i \<Longrightarrow> t i = None \<Longrightarrow> valid_key key \<Longrightarrow> sql_datetime ts \<Longrightarrow>
      out = ''OK '' @ i @ '' '' @ key @ [nl] \<Longrightarrow>
      t' = t(i \<mapsto> \<lparr>r_key = key, r_status = 1, r_note = s, r_created = Some ts\<rparr>) \<Longrightarrow> Q"
  shows Q
  using assms(1) unfolding admin_spec_def admin_request.case
  by (elim disjE exE conjE) (rule assms(2,3), assumption+)+

text \<open>What the client takes for a new device is the whole reply.\<close>

lemma added_is_whole:
  assumes "admin_ask '''' evs = Some x" and "prefix (data_of evs) (body @ [nl])" and "nl \<notin> set body"
    and "parse_added x = Some p"
  shows "x = body @ [nl]"
proof -
  obtain i key where "p = (i, key)" by fastforce
  with parse_added_SomeD assms(4) have x: "x = (''OK '' @ i @ '' '' @ key) @ [nl]" by simp
  have "prefix x (body @ [nl])" using admin_ask_Some [OF assms(1)] assms(2) by simp
  then have "prefix x body \<or> x = body @ [nl]" by (simp add: prefix_snoc disj_commute)
  moreover have "nl \<in> set x" by (simp add: x)
  ultimately show ?thesis using assms(3) set_mono_prefix by blast
qed

lemma parse_added_refused:
  assumes "admin_ask '''' evs = Some x" and "prefix (data_of evs) (''ERR'' @ [nl])"
  shows "parse_added x = None"
proof (rule ccontr)
  assume "parse_added x \<noteq> None"
  then obtain p where p: "parse_added x = Some p" by blast
  have "x = ''ERR'' @ [nl]" by (rule added_is_whole [OF assms(1) _ _ p]) (use assms(2) in simp_all)
  then show False using p by (simp add: parse_added_def)
qed

lemma parse_added_told:
  assumes "valid_device_id i" and "valid_key key" and "admin_ask '''' evs = Some x"
    and "prefix (data_of evs) (''OK '' @ i @ '' '' @ key @ [nl])" and "parse_added x = Some p"
  shows "p = (i, key)"
proof -
  have "nl \<notin> set (''OK '' @ i @ '' '' @ key)"
    using valid_device_id_chars [OF assms(1)] valid_key_special [OF assms(2)] by simp
  moreover have "prefix (data_of evs) ((''OK '' @ i @ '' '' @ key) @ [nl])" using assms(4) by simp
  ultimately have "x = (''OK '' @ i @ '' '' @ key) @ [nl]" using added_is_whole [OF assms(3) _ _ assms(5)] by blast
  with assms(5) parse_added_reply [OF assms(1,2)] show ?thesis by simp
qed

section \<open>The last administrator\<close>

text \<open>The guard of \<open>POST /admin/devices/revoke\<close>, on what \<open>list\<close> gave.\<close>

definition activeAdmins :: "string list \<Rightarrow> admin_device list option \<Rightarrow> nat" where
  "activeAdmins adminDevices devices =
     length (filter (\<lambda>d. ad_active d \<and> ad_id d \<in> set adminDevices) (case devices of None \<Rightarrow> [] | Some ds \<Rightarrow> ds))"

text \<open>\<open>revoke\<close>, on the events of its socket.\<close>

definition client_revoke :: "string \<Rightarrow> sock_event list \<Rightarrow> admin_verdict" where
  "client_revoke ident evs = (if isValidId (units ident) then okNo evs else No)"

definition may_revoke :: "string list \<Rightarrow> string \<Rightarrow> admin_device list option \<Rightarrow> bool" where
  "may_revoke adminDevices ident devices \<longleftrightarrow>
     \<not> (ident \<in> set adminDevices \<and> activeAdmins adminDevices devices \<le> 1)"

definition admin_rows :: "string list \<Rightarrow> table \<Rightarrow> string set" where
  "admin_rows adminDevices t = {i \<in> set adminDevices. \<exists>r. t i = Some r \<and> r_status r = 1}"

lemma activeAdmins_rows:
  assumes "finite (dom t)"
  shows "activeAdmins admins (Some (map shown_device (table_rows t))) = card (admin_rows admins t)"
proof -
  let ?is = "filter (\<lambda>i. i \<in> set admins \<and> r_status (the (t i)) = 1) (sorted_list_of_set (dom t))"
  have "activeAdmins admins (Some (map shown_device (table_rows t))) = length ?is"
    by (simp add: activeAdmins_def table_rows_def filter_map comp_def shown_device_def conj_commute)
  also have "\<dots> = card (set ?is)" by (rule distinct_card [symmetric]) simp
  also have "set ?is = admin_rows admins t" using assms by (auto simp: admin_rows_def)
  finally show ?thesis .
qed

lemma revoke_keeps_admin:
  assumes "admin_rows admins t \<noteq> {}" and "ident \<in> set admins \<longrightarrow> 1 < card (admin_rows admins t)"
    and "row_spec t ident (\<lambda>k. k\<lparr>r_status := 0\<rparr>) out t'"
  shows "admin_rows admins t' \<noteq> {}"
proof -
  have "\<exists>i \<in> admin_rows admins t. i \<noteq> ident"
  proof (cases "ident \<in> set admins")
    case True
    with assms(2) have more: "1 < card (admin_rows admins t)" by (rule mp)
    have "admin_rows admins t \<subseteq> {ident} \<Longrightarrow> card (admin_rows admins t) \<le> card {ident}"
      by (rule card_mono) simp_all
    with more have "\<not> admin_rows admins t \<subseteq> {ident}" by fastforce
    then show ?thesis by blast
  next
    case False
    then have "ident \<notin> admin_rows admins t" by (simp add: admin_rows_def)
    moreover obtain i where "i \<in> admin_rows admins t" using assms(1) by (meson ex_in_conv)
    ultimately have "i \<in> admin_rows admins t \<and> i \<noteq> ident" by metis
    then show ?thesis by blast
  qed
  then obtain i where i: "i \<in> admin_rows admins t" "i \<noteq> ident" by blast
  have "t' i = t i" using assms(3) i(2) by (auto simp: row_spec_def)
  with i(1) have "i \<in> admin_rows admins t'" by (simp add: admin_rows_def)
  then show ?thesis by auto
qed

text \<open>What the client reports of a revocation.\<close>

lemma ok_no_prefix:
  assumes "row_spec t i f out t'" and "prefix s out"
  shows "s = ''OK'' @ [nl] \<Longrightarrow> out = ''OK'' @ [nl]" "s = ''NO'' @ [nl] \<Longrightarrow> out = ''NO'' @ [nl]"
  using assms by (auto simp: row_spec_def)

lemma client_revoke_sound:
  assumes "row_spec t i f out t'" and "prefix (data_of evs) (single_token_dates out)" and "valid_device_id i"
  shows "case client_revoke i evs of
       Ok \<Rightarrow> \<exists>k. t i = Some k \<and> t' = t(i \<mapsto> f k)
     | No \<Rightarrow> t i = None \<and> t' = t
     | Failed \<Rightarrow> True"
proof -
  have "CHR ''I'' \<notin> set out" using assms(1) by (auto simp: row_spec_def)
  then have sent: "prefix (data_of evs) out" using assms(2) by (simp add: single_token_dates_other)
  show ?thesis
  proof (cases "admin_ask '''' evs")
    case (Some x)
    have "prefix x out" using sent admin_ask_Some [OF Some] by simp
    note whole = ok_no_prefix [OF assms(1) this]
    then show ?thesis
      using assms(1,3) Some by (auto simp: client_revoke_def okNo_def row_spec_def)
  qed (simp add: client_revoke_def okNo_def assms(3))
qed

definition two_ids :: "string list" where "two_ids = [''7Q5V'', ''AB12'']"

definition two_admins_db :: mem_db where
  "two_admins_db = sample_db\<lparr>mem_rows := [(''7Q5V'', sample_row 1), (''AB12'', sample_row 1)]\<rparr>"

lemma two_admins_tbl: "mem_tbl two_admins_db = [''7Q5V'' \<mapsto> sample_row 1, ''AB12'' \<mapsto> sample_row 1]"
  by (simp add: mem_tbl_def two_admins_db_def fun_upd_twist)

lemma two_admins_up: "mem_up two_admins_db"
  by (simp add: mem_up_def two_admins_db_def sample_db_def)

text \<open>What the client reports of an \<open>ADD\<close>, and what it means for the table.\<close>

lemma client_add_told:
  assumes "admin_spec t (Add s) out t'" and "prefix (data_of evs) (single_token_dates out)"
    and "normalizeLabel raw = Some label"
  shows "case client_add label evs of
      Some (i, key) \<Rightarrow> valid_device_id i \<and> valid_key key \<and> t i = None \<and>
        (\<exists>ts. sql_datetime ts \<and>
          t' = t(i \<mapsto> \<lparr>r_key = key, r_status = 1, r_note = s, r_created = Some ts\<rparr>))
    | None \<Rightarrow> admin_ask '''' evs = Some (single_token_dates out) \<longrightarrow> t' = t"
proof -
  have client: "client_add label evs = (case admin_ask '''' evs of None \<Rightarrow> None | Some x \<Rightarrow> parse_added x)"
    using normalizeLabel_idem [OF assms(3)] by (simp add: client_add_def)
  show ?thesis
  proof (rule admin_spec_AddE [OF assms(1)])
    assume out: "out = ''ERR'' @ [nl]" "t' = t"
    then have "client_add label evs = None"
      using assms(2) parse_added_refused by (simp add: client single_token_dates_other split: option.split)
    with out(2) show ?thesis by simp
  next
    fix i key ts
    assume new: "valid_device_id i" "t i = None" "valid_key key" "sql_datetime ts"
      "out = ''OK '' @ i @ '' '' @ key @ [nl]"
      "t' = t(i \<mapsto> \<lparr>r_key = key, r_status = 1, r_note = s, r_created = Some ts\<rparr>)"
    have sent: "single_token_dates out = out"
      unfolding new(5) by (rule single_token_dates_other [OF add_reply_no_I [OF new(1,3)]])
    show ?thesis
    proof (cases "client_add label evs")
      case None
      moreover from this have "admin_ask '''' evs \<noteq> Some out"
        using parse_added_reply [OF new(1,3)] by (auto simp: client new(5))
      ultimately show ?thesis by (simp add: sent)
    next
      case (Some p)
      then obtain x where "admin_ask '''' evs = Some x" "parse_added x = Some p"
        by (auto simp: client split: option.splits)
      then have "p = (i, key)"
        using parse_added_told [OF new(1,3)] assms(2) unfolding sent unfolding new(5) by blast
      with Some new(1-4,6) show ?thesis by (simp only: option.case prod.case) blast
    qed
  qed
qed

section \<open>Properties\<close>

text \<open>
  C30. The dashboard shows the keystore. While the keystore answers and the daemon's reply to \<open>LIST\<close>
  reaches the client to its end, in whatever chunks, \<open>list\<close> gives exactly the rows of the table in the order of their
  identifiers, each with its status, its time of provisioning as SQLite wrote it and its whole label,
  even where a label contains spaces or the word \<open>DEVICE\<close>; unless the reply is longer than 64 KiB,
  which up to 601 devices never need. A longer one is an error, however many devices there are.
\<close>

theorem dashboard_lists_devices:
  assumes "sqlite_available P tbl up" and "up db" and "wf_table (tbl db)"
    and "admin_handle_request P R ''LIST'' r db = (Inr out, r', db')" and "concat cs = single_token_dates out"
  shows "admin_list (delivered cs) =
      (if length (concat cs) \<le> 65536 then Some (map shown_device (table_rows (tbl db))) else None) \<and>
    (card (dom (tbl db)) \<le> 601 \<longrightarrow> length (concat cs) \<le> 65536)"
proof -
  have fin: "finite (dom (tbl db))"
    by (rule sqlite_keystore.finite_keys) (rule sqlite_available.axioms(1) [OF assms(1)])
  obtain db'' where "admin_handle_request P R ''LIST'' r db = (Inr (listing_text (tbl db)), r, db'')"
    using sqlite_available.list_request_up [OF assms(1,2), where R = R and r = r] by (elim exE conjE)
  with assms(4) have "out = listing_text (tbl db)" by (simp only: prod.inject sum.inject)
  with assms(5) have cs: "concat cs = single_token_dates (listing_text (tbl db))" by simp
  have "admin_list (delivered cs) = Some (map shown_device (table_rows (tbl db)))" if "length (concat cs) \<le> 65536"
    by (rule list_sent_listing [OF assms(3) fin]) (use that cs in \<open>simp add: admin_ask_delivered ADMIN_MAX_REPLY_def\<close>)
  moreover have "admin_list (delivered cs) = None" if "\<not> length (concat cs) \<le> 65536"
    using that by (simp add: admin_list_def admin_ask_delivered ADMIN_MAX_REPLY_def)
  moreover have "length (concat cs) \<le> 65536" if "card (dom (tbl db)) \<le> 601"
    using length_sent_listing [OF assms(3) fin] that cs by simp
  ultimately show ?thesis by simp
qed

text \<open>
  Also: a listing that ends early, behind a line whose label ends with \<open>END\<close>, is taken for a whole one.
\<close>

theorem dashboard_lists_devices_witness:
  "(\<exists>cs. admin_list (delivered cs) = Some (map shown_device (table_rows (mem_tbl sample_db)))) \<and>
   admin_list (delivered [''DEVICE 7Q5V active - WEEKEND'' @ [nl]]) =
     Some [\<lparr>ad_id = ''7Q5V'', ad_active = True, ad_created = None, ad_label = ''WEEK''\<rparr>]"
proof
  obtain db' where list: "admin_handle_request mem_platform list_rng ''LIST'' [] sample_db =
      (Inr (listing_text (mem_tbl sample_db)), [], db')"
    using mem.list_request_up [OF sample_db_up, where R = list_rng and r = "[]"] by (elim exE conjE)
  let ?cs = "[single_token_dates (listing_text (mem_tbl sample_db))]"
  have card: "card (dom (mem_tbl sample_db)) \<le> 601" by (simp add: card_insert_if)
  have "concat ?cs = single_token_dates (listing_text (mem_tbl sample_db))" by (simp only: concat.simps append_Nil2)
  note shown = dashboard_lists_devices [OF mem.sqlite_available_axioms sample_db_up wf_table_sample list this]
  have "length (concat ?cs) \<le> 65536" by (rule mp [OF conjunct2 [OF shown] card])
  with conjunct1 [OF shown]
  have "admin_list (delivered ?cs) = Some (map shown_device (table_rows (mem_tbl sample_db)))" by (simp only: if_True)
  then show "\<exists>cs. admin_list (delivered cs) = Some (map shown_device (table_rows (mem_tbl sample_db)))" ..
  have "admin_list_line ''DEVICE 7Q5V active - WEEK'' =
      Some \<lparr>ad_id = ''7Q5V'', ad_active = True, ad_created = None, ad_label = ''WEEK''\<rparr>"
    using token_then_word [of "''7Q5V''" "''active - WEEK''"] token_then_word [of "''-''" "''WEEK''"]
    by (simp add: admin_list_line_def no_space_printable)
  then show "admin_list (delivered [''DEVICE 7Q5V active - WEEKEND'' @ [nl]]) =
      Some [\<lparr>ad_id = ''7Q5V'', ad_active = True, ad_created = None, ad_label = ''WEEK''\<rparr>]"
    by (simp add: admin_list_def admin_ask_delivered ADMIN_MAX_REPLY_def suffix_def)
qed

text \<open>
  C34. Adding from the dashboard. A label the form accepts, the client sends as it is, and the daemon
  accepts: its request is read in one line, however it is cut into chunks, and is an \<open>ADD\<close> of that
  label, valid by the daemon's own rules, so that it gets to drawing a key. If the client reports a
  new device, with its identifier and key, then the table has got exactly that row under an identifier
  nobody had, active and with that label. If it reports an error although the reply arrived whole,
  nothing has changed; after a lost reply the device may exist.
\<close>

theorem dashboard_adds:
  assumes "sqlite_keystore P tbl" and "csprng R" and "normalizeLabel raw = Some label"
    and "add_line label = line @ [nl]" and "admin_handle_request P R line r db = (Inr out, r', db')"
    and "prefix (data_of evs) (single_token_dates out)"
  shows "\<exists>s. label = units s \<and> normalizeLabel (Some label) = Some label \<and>
    (\<forall>ins. stream_of ins = add_line label \<longrightarrow> fst (admin_read_line ins) = Some line) \<and>
    valid_label s \<and> parse_request line = Add s \<and>
    admin_handle_request P R line r db = handle_add P R s r db \<and>
    (case client_add label evs of
      Some (i, key) \<Rightarrow> valid_device_id i \<and> valid_key key \<and> tbl db i = None \<and>
        (\<exists>ts. sql_datetime ts \<and>
          tbl db' = (tbl db)(i \<mapsto> \<lparr>r_key = key, r_status = 1, r_note = s, r_created = Some ts\<rparr>))
    | None \<Rightarrow> admin_ask '''' evs = Some (single_token_dates out) \<longrightarrow> tbl db' = tbl db)"
proof -
  obtain s where s: "label = units s" "valid_label s" by (rule normalizeLabel_valid [OF assms(3)])
  have "line = ''ADD '' @ s"
    using assms(4) unfolding add_line_def s(1) ascii_bytes_units by (simp only: append_assoc [symmetric] append1_eq_conv)
  moreover note parse_request_add [OF s(2)]
  ultimately have line: "line = ''ADD '' @ s" "parse_request line = Add s" by simp_all
  have spec: "admin_spec (tbl db) (Add s) out (tbl db')"
    using sqlite_keystore.admin_refines [OF assms(1,2,5)] unfolding line(2) by simp
  have read: "fst (admin_read_line ins) = Some line" if "stream_of ins = add_line label" for ins
    by (rule admin_read_line_sent) (use that assms(4) line(1) s(2) in \<open>auto simp: valid_label_iff dest: label_char_special\<close>)
  have sent: "admin_handle_request P R line r db = handle_add P R s r db"
    by (simp add: admin_handle_request_eq line(2) admin_dispatch_def)
  have "case client_add label evs of
      Some (i, key) \<Rightarrow> valid_device_id i \<and> valid_key key \<and> tbl db i = None \<and>
        (\<exists>ts. sql_datetime ts \<and>
          tbl db' = (tbl db)(i \<mapsto> \<lparr>r_key = key, r_status = 1, r_note = s, r_created = Some ts\<rparr>))
    | None \<Rightarrow> admin_ask '''' evs = Some (single_token_dates out) \<longrightarrow> tbl db' = tbl db"
    by (rule client_add_told [OF spec assms(6,3)])
  with s line(2) read sent normalizeLabel_idem [OF assms(3)] show ?thesis by blast
qed

text \<open>The device is there whether its reply arrives or not.\<close>

theorem dashboard_adds_witness:
  "\<exists>out r' db' i key. admin_handle_request mem_platform list_rng (''ADD '' @ ''desk'') (replicate 128 0) sample_db =
      (Inr out, r', db') \<and>
    client_add (units ''desk'') (delivered [single_token_dates out]) = Some (i, key) \<and>
    mem_tbl sample_db i = None \<and> mem_tbl db' i \<noteq> None \<and> client_add (units ''desk'') [Timer] = None \<and>
    fst (admin_read_line [Bytes (add_line (units ''desk''))]) = Some (''ADD '' @ ''desk'')"
proof -
  let ?key = "hex_of (replicate 64 0)" and ?R = list_rng and ?r = "replicate 128 0"
  let ?out = "''OK '' @ ''0000'' @ '' '' @ ?key @ [nl]"
  have label: "valid_label ''desk''" by (simp add: valid_label_iff label_char_def)
  have units: "normalizeLabel (Some (units ''desk'')) = Some (units ''desk'')"
    by (simp add: normalizeLabel_def js_text_def units_def js_trim_def not_space_letters label_char_def)
  obtain r' db' where "handle_add mem_platform ?R ''desk'' ?r sample_db = (Inr ?out, r', db')"
    using mem.handle_add_up [OF csprng_list_rng sample_db_up label zero_draws]
    by (auto simp: eval_simps)
  then have add: "admin_handle_request mem_platform ?R (''ADD '' @ ''desk'') ?r sample_db = (Inr ?out, r', db')"
    by (simp only: admin_handle_request_eq parse_request_add [OF label] admin_dispatch_def admin_request.case)
  have ids: "valid_device_id ''0000''" by (simp add: valid_device_id_iff crockford_char_def)
  have key: "valid_key ?key" by (rule generate_key_valid [OF csprng_list_rng zero_draws(1)])
  have sent: "single_token_dates ?out = ?out" by (rule single_token_dates_other [OF add_reply_no_I [OF ids key]])
  have "length ?out \<le> 65536" using key by (simp add: valid_key_def)
  then have got: "client_add (units ''desk'') (delivered [single_token_dates ?out]) = Some (''0000'', ?key)"
    using parse_added_reply [OF ids key]
    by (simp only: client_add_def units admin_ask_delivered sent ADMIN_MAX_REPLY_def) simp
  have line: "add_line (units ''desk'') = (''ADD '' @ ''desk'') @ [nl]" by (simp only: add_line_def ascii_bytes_units append_assoc)
  have "data_of (delivered [single_token_dates ?out]) = single_token_dates ?out" by (simp add: delivered_def)
  with dashboard_adds [OF mem.sqlite_keystore_axioms csprng_list_rng units line add, of "delivered [single_token_dates ?out]"] got
  have "mem_tbl sample_db ''0000'' = None \<and> mem_tbl db' ''0000'' \<noteq> None"
    and "\<And>ins. stream_of ins = add_line (units ''desk'') \<Longrightarrow> fst (admin_read_line ins) = Some (''ADD '' @ ''desk'')"
    by (auto simp del: sample_tbl)
  moreover have "stream_of [Bytes (add_line (units ''desk''))] = add_line (units ''desk'')" by (simp add: line)
  moreover have "client_add (units ''desk'') [Timer] = None" by (simp add: client_add_def)
  ultimately show ?thesis using add got by blast
qed

text \<open>
  C35. The last administrator stays. If the revocations of the dashboard come one after the other, each
  with its own listing right before it, the guard keeps an active device among the administrators, as
  long as there was one: whatever is revoked, and whether the listing arrived or not. The client
  reports success only if the row was there and is revoked now, and \<open>no\<close> only if there was none. The
  guard looks only once: of two revocations whose listings are both taken first, both pass.
\<close>

theorem last_admin_stays:
  assumes "sqlite_available P tbl up" and "csprng R" and "up db" and "wf_table (tbl db)"
    and "admin_handle_request P R ''LIST'' r db = (Inr out, r1, db1)"
    and "admin_ask '''' evs \<in> {None, Some (single_token_dates out)}"
    and "may_revoke admins ident (admin_list evs)" and "isValidId (units ident)"
    and "admin_handle_request P R (''REVOKE '' @ ident) r1 db1 = (Inr out2, r2, db2)"
    and "prefix (data_of evs2) (single_token_dates out2)"
  shows "(admin_rows admins (tbl db) \<noteq> {} \<longrightarrow> admin_rows admins (tbl db2) \<noteq> {}) \<and>
    (case client_revoke ident evs2 of
       Ok \<Rightarrow> \<exists>k. tbl db ident = Some k \<and> tbl db2 = (tbl db)(ident \<mapsto> k\<lparr>r_status := 0\<rparr>)
     | No \<Rightarrow> tbl db ident = None \<and> tbl db2 = tbl db
     | Failed \<Rightarrow> True)"
proof -
  note ks = sqlite_available.axioms(1) [OF assms(1)]
  have fin: "finite (dom (tbl db))" by (rule sqlite_keystore.finite_keys [OF ks])
  obtain db'' where "admin_handle_request P R ''LIST'' r db = (Inr (listing_text (tbl db)), r, db'')"
    using sqlite_available.list_request_up [OF assms(1,3), where R = R and r = r] by (elim exE conjE)
  with assms(5) have out: "out = listing_text (tbl db)" by (simp only: prod.inject sum.inject)
  have ident: "valid_device_id ident" using assms(8) by simp
  then have "ident \<noteq> []" by (auto simp: valid_device_id_iff)
  moreover have "tbl db1 = tbl db"
    using sqlite_keystore.admin_refines [OF ks assms(2,5)] by (simp add: admin_spec_def parse_request_def)
  ultimately have step: "row_spec (tbl db) ident (\<lambda>k. k\<lparr>r_status := 0\<rparr>) out2 (tbl db2)"
    using sqlite_keystore.admin_refines [OF ks assms(2,9)] parse_request_revoke
    by (simp add: admin_spec_def)
  have "1 < card (admin_rows admins (tbl db))" if "ident \<in> set admins"
  proof (cases "admin_ask '''' evs")
    case None
    then show ?thesis using assms(7) that by (simp add: may_revoke_def admin_list_def activeAdmins_def)
  next
    case (Some x)
    then have "admin_ask '''' evs = Some (single_token_dates (listing_text (tbl db)))" using assms(6) out by simp
    from list_sent_listing [OF assms(4) fin this] show ?thesis
      using assms(7) that activeAdmins_rows [OF fin, of admins] by (simp add: may_revoke_def)
  qed
  then have "admin_rows admins (tbl db) \<noteq> {} \<longrightarrow> admin_rows admins (tbl db2) \<noteq> {}"
    using revoke_keeps_admin [OF _ _ step] by metis
  then show ?thesis using client_revoke_sound [OF step assms(10) ident] by (rule conjI)
qed

theorem last_admin_stays_witness:
  "(\<exists>l db1 db2. admin_handle_request mem_platform list_rng ''LIST'' [] sample_db = (Inr l, [], db1) \<and>
     admin_handle_request mem_platform list_rng (''REVOKE '' @ ''AB12'') [] db1 = (Inr (''OK'' @ [nl]), [], db2) \<and>
     admin_rows [''7Q5V''] (mem_tbl db2) \<noteq> {}) \<and>
   (\<exists>ds db1 db2. ds = Some (map shown_device (table_rows (mem_tbl two_admins_db))) \<and>
     may_revoke two_ids ''7Q5V'' ds \<and> may_revoke two_ids ''AB12'' ds \<and>
     admin_handle_request mem_platform list_rng (''REVOKE '' @ ''7Q5V'') [] two_admins_db = (Inr (''OK'' @ [nl]), [], db1) \<and>
     admin_handle_request mem_platform list_rng (''REVOKE '' @ ''AB12'') [] db1 = (Inr (''OK'' @ [nl]), [], db2) \<and>
     admin_rows two_ids (mem_tbl db2) = {})"
proof
  obtain db1 where list: "admin_handle_request mem_platform list_rng ''LIST'' [] sample_db =
      (Inr (listing_text (mem_tbl sample_db)), [], db1)" and up: "mem_up db1"
    using mem.list_request_up [OF sample_db_up, where R = list_rng and r = "[]"] by (elim exE conjE)
  have "mem_tbl db1 = mem_tbl sample_db"
    using mem.admin_refines [OF csprng_list_rng list] by (simp add: admin_spec_def parse_request_def del: sample_tbl)
  then have "mem_tbl db1 ''AB12'' = Some (sample_row 0)" by simp
  from mem.revoke_up [OF up valid_sample_ids(2) this, where R = list_rng and r = "[]"]
  obtain db2 where rev: "admin_handle_request mem_platform list_rng (''REVOKE '' @ ''AB12'') [] db1 =
      (Inr (''OK'' @ [nl]), [], db2)"
    by (elim exE conjE)
  have guard: "may_revoke [''7Q5V''] ''AB12'' (admin_list [Timer])" by (simp add: may_revoke_def)
  have "admin_rows [''7Q5V''] (mem_tbl sample_db) \<noteq> {}" by (auto simp: admin_rows_def)
  moreover have "admin_rows [''7Q5V''] (mem_tbl sample_db) \<noteq> {} \<longrightarrow> admin_rows [''7Q5V''] (mem_tbl db2) \<noteq> {}"
    by (rule conjunct1 [OF last_admin_stays [OF mem.sqlite_available_axioms csprng_list_rng sample_db_up
          wf_table_sample list _ guard _ rev, of "[]"]])
       (simp_all add: valid_sample_ids)
  ultimately have "admin_rows [''7Q5V''] (mem_tbl db2) \<noteq> {}" by (rule rev_mp)
  with list rev show "\<exists>l db1 db2. admin_handle_request mem_platform list_rng ''LIST'' [] sample_db = (Inr l, [], db1) \<and>
     admin_handle_request mem_platform list_rng (''REVOKE '' @ ''AB12'') [] db1 = (Inr (''OK'' @ [nl]), [], db2) \<and>
     admin_rows [''7Q5V''] (mem_tbl db2) \<noteq> {}"
    by (intro exI conjI)
next
  obtain db1 where one: "admin_handle_request mem_platform list_rng (''REVOKE '' @ ''7Q5V'') [] two_admins_db =
      (Inr (''OK'' @ [nl]), [], db1)" "mem_up db1" "mem_tbl db1 = (mem_tbl two_admins_db)(''7Q5V'' \<mapsto> sample_row 1\<lparr>r_status := 0\<rparr>)"
    using mem.revoke_up [OF two_admins_up valid_sample_ids(1), of "sample_row 1" list_rng "[]"] by (auto simp: two_admins_tbl)
  obtain db2 where two: "admin_handle_request mem_platform list_rng (''REVOKE '' @ ''AB12'') [] db1 =
      (Inr (''OK'' @ [nl]), [], db2)" "mem_tbl db2 = (mem_tbl db1)(''AB12'' \<mapsto> sample_row 1\<lparr>r_status := 0\<rparr>)"
    using mem.revoke_up [OF one(2) valid_sample_ids(2), of "sample_row 1" list_rng "[]"] one(3) by (auto simp: two_admins_tbl)
  have "admin_rows two_ids (mem_tbl two_admins_db) = {''7Q5V'', ''AB12''}"
    by (auto simp: admin_rows_def two_ids_def two_admins_tbl)
  then have pass: "may_revoke two_ids i (Some (map shown_device (table_rows (mem_tbl two_admins_db))))" for i
    using activeAdmins_rows [of "mem_tbl two_admins_db" two_ids] by (simp add: may_revoke_def two_admins_tbl)
  have "admin_rows two_ids (mem_tbl db2) = {}"
    by (simp add: two(2) one(3) two_admins_tbl admin_rows_def two_ids_def)
  with one(1) two(1) pass show "\<exists>ds db1 db2. ds = Some (map shown_device (table_rows (mem_tbl two_admins_db))) \<and>
     may_revoke two_ids ''7Q5V'' ds \<and> may_revoke two_ids ''AB12'' ds \<and>
     admin_handle_request mem_platform list_rng (''REVOKE '' @ ''7Q5V'') [] two_admins_db = (Inr (''OK'' @ [nl]), [], db1) \<and>
     admin_handle_request mem_platform list_rng (''REVOKE '' @ ''AB12'') [] db1 = (Inr (''OK'' @ [nl]), [], db2) \<and>
     admin_rows two_ids (mem_tbl db2) = {}" by blast
qed

end
