(* ===== verification/Auth_Alerts.thy ===== *)
theory Auth_Alerts
  imports Auth_Client
begin

text \<open>
  The alerts on guessed or lost keychains, \<open>auth-web/src/alerts.js\<close>: at most one of a kind for a
  device and at most twenty altogether in an hour. The calls come from \<open>routes/otp.js\<close>; the sweeper
  runs at any time between them. Of an alert the log line is modelled; the webhook gets the same.
\<close>

section \<open>The alerter\<close>

definition GLOBAL_PER_HOUR :: nat where "GLOBAL_PER_HOUR = 20"

definition hourOf :: "nat \<Rightarrow> nat" where "hourOf ms = ms div 3600000"

text \<open>The two kinds \<open>routes/otp.js\<close> and \<open>failure\<close> name, and the key of an entry of \<open>lastAlert\<close>.\<close>

datatype alert_kind = Budget_exhausted | Repeated_failures

fun kind_name :: "alert_kind \<Rightarrow> string" where
  "kind_name Budget_exhausted = ''budget-exhausted''"
| "kind_name Repeated_failures = ''repeated-failures''"

definition alert_key :: "alert_kind \<Rightarrow> js_string \<Rightarrow> js_string" where
  "alert_key kind deviceId = units (kind_name kind @ '':'') @ deviceId"

text \<open>\<open>failures\<close> holds an hour and a count; \<open>globalHour\<close> starts at -1.\<close>

record alerter =
  al_failures :: "js_string \<rightharpoonup> nat \<times> nat"
  lastAlert :: "js_string \<rightharpoonup> nat"
  globalHour :: int
  globalCount :: nat

definition createAlerter :: alerter where
  "createAlerter = \<lparr>al_failures = Map.empty, lastAlert = Map.empty, globalHour = -1, globalCount = 0\<rparr>"

definition alert_sweep :: "nat \<Rightarrow> alerter \<Rightarrow> alerter" where
  "alert_sweep now a =
     a\<lparr>al_failures := (\<lambda>k. case al_failures a k of
           Some v \<Rightarrow> if fst v < hourOf now then None else Some v | None \<Rightarrow> None),
       lastAlert := (\<lambda>k. case lastAlert a k of
           Some v \<Rightarrow> if v < hourOf now then None else Some v | None \<Rightarrow> None)\<rparr>"

text \<open>\<open>alert\<close>: the line it writes, if it writes one.\<close>

definition alert :: "nat \<Rightarrow> alert_kind \<Rightarrow> js_string \<Rightarrow> string \<Rightarrow> alerter \<Rightarrow> js_string option \<times> alerter" where
  "alert now kind deviceId detail a =
     (let h = hourOf now; key = alert_key kind deviceId in
      if lastAlert a key = Some h then (None, a)
      else let a1 = (if globalHour a \<noteq> int h then a\<lparr>globalHour := int h, globalCount := 0\<rparr> else a) in
        if GLOBAL_PER_HOUR \<le> globalCount a1 then (None, a1)
        else (Some (units (''ALERT '' @ kind_name kind @ '' device='') @ deviceId @
                (if detail = '''' then [] else units ('' '' @ detail))),
              a1\<lparr>lastAlert := (lastAlert a1)(key \<mapsto> h), globalCount := globalCount a1 + 1\<rparr>))"

definition failure_count :: "nat \<Rightarrow> js_string \<Rightarrow> alerter \<Rightarrow> nat" where
  "failure_count h deviceId a =
     (case al_failures a deviceId of Some (hour, count) \<Rightarrow> if hour = h then count else 0 | None \<Rightarrow> 0)"

definition failure :: "nat \<Rightarrow> nat \<Rightarrow> js_string \<Rightarrow> alerter \<Rightarrow> js_string option \<times> alerter" where
  "failure failuresPerHour now deviceId a =
     (let h = hourOf now; count = failure_count h deviceId a + 1;
          a1 = a\<lparr>al_failures := (al_failures a)(deviceId \<mapsto> (h, count))\<rparr>
      in if failuresPerHour \<le> count
         then alert now Repeated_failures deviceId (''count='' @ nat_to_string count) a1 else (None, a1))"

section \<open>Any sequence of calls\<close>

text \<open>
  What may happen, and what a proof wants to remember of it: in which hour which line was written,
  which device failed, and whose budget was reported exhausted. The clock does not run backwards.
\<close>

datatype alert_event = Later nat | Swept | Exhausted js_string | Failed js_string

type_synonym alert_entry = "nat \<times> alert_kind \<times> js_string"

record alert_sys =
  as_now :: nat
  as_alerter :: alerter
  as_log :: "alert_entry list"
  as_failed :: "(nat \<times> js_string) list"
  as_exhausted :: "(nat \<times> js_string) list"

definition alert_start :: alert_sys where
  "alert_start = \<lparr>as_now = 0, as_alerter = createAlerter, as_log = [], as_failed = [], as_exhausted = []\<rparr>"

definition logged :: "alert_kind \<Rightarrow> js_string \<Rightarrow> js_string option \<times> alerter \<Rightarrow> alert_sys \<Rightarrow> alert_sys" where
  "logged kind deviceId res s =
     s\<lparr>as_alerter := snd res,
       as_log := (if fst res = None then [] else [(hourOf (as_now s), kind, deviceId)]) @ as_log s\<rparr>"

fun alert_event_step :: "nat \<Rightarrow> alert_event \<Rightarrow> alert_sys \<Rightarrow> alert_sys" where
  "alert_event_step n (Later d) s = s\<lparr>as_now := as_now s + d\<rparr>"
| "alert_event_step n Swept s = s\<lparr>as_alerter := alert_sweep (as_now s) (as_alerter s)\<rparr>"
| "alert_event_step n (Exhausted i) s =
     (logged Budget_exhausted i (alert (as_now s) Budget_exhausted i '''' (as_alerter s)) s)
       \<lparr>as_exhausted := (hourOf (as_now s), i) # as_exhausted s\<rparr>"
| "alert_event_step n (Failed i) s =
     (logged Repeated_failures i (failure n (as_now s) i (as_alerter s)) s)
       \<lparr>as_failed := (hourOf (as_now s), i) # as_failed s\<rparr>"

definition alert_run :: "nat \<Rightarrow> alert_event list \<Rightarrow> alert_sys" where
  "alert_run n evs = fold (alert_event_step n) evs alert_start"

section \<open>The invariant\<close>

lemma alert_key_eq [simp]: "alert_key kind i = alert_key kind' j \<longleftrightarrow> kind = kind' \<and> i = j"
  by (cases kind; cases kind') (auto simp: alert_key_def units_def)

definition lines_in :: "nat \<Rightarrow> alert_entry list \<Rightarrow> nat" where
  "lines_in h log = length (filter (\<lambda>e. fst e = h) log)"

definition failures_in :: "nat \<Rightarrow> js_string \<Rightarrow> (nat \<times> js_string) list \<Rightarrow> nat" where
  "failures_in h i failed = length (filter (\<lambda>e. e = (h, i)) failed)"

text \<open>The alerter's state against the log: the global counter, and the entry of the current hour.\<close>

definition log_inv :: "nat \<Rightarrow> alerter \<Rightarrow> alert_entry list \<Rightarrow> bool" where
  "log_inv h a log \<longleftrightarrow>
     distinct log \<and> (\<forall>e \<in> set log. int (fst e) \<le> globalHour a) \<and> globalHour a \<le> int h \<and>
     (\<forall>h'. int h' = globalHour a \<longrightarrow> lines_in h' log = globalCount a) \<and> (\<forall>h'. lines_in h' log \<le> GLOBAL_PER_HOUR) \<and>
     (\<forall>k v. lastAlert a k = Some v \<longrightarrow> v \<le> h) \<and>
     (\<forall>kind i. lastAlert a (alert_key kind i) = Some h \<longleftrightarrow> (h, kind, i) \<in> set log)"

definition fail_inv :: "nat \<Rightarrow> alerter \<Rightarrow> (nat \<times> js_string) list \<Rightarrow> bool" where
  "fail_inv h a failed \<longleftrightarrow>
     (\<forall>e \<in> set failed. fst e \<le> h) \<and> (\<forall>i v. al_failures a i = Some v \<longrightarrow> fst v \<le> h) \<and>
     (\<forall>i. failure_count h i a = failures_in h i failed)"

definition told_inv :: "nat \<Rightarrow> alert_sys \<Rightarrow> bool" where
  "told_inv n s \<longleftrightarrow>
     (\<forall>h i. (n \<le> failures_in h i (as_failed s) \<and> 0 < failures_in h i (as_failed s) \<longrightarrow>
               (h, Repeated_failures, i) \<in> set (as_log s) \<or> lines_in h (as_log s) = GLOBAL_PER_HOUR) \<and>
            ((h, Repeated_failures, i) \<in> set (as_log s) \<longrightarrow>
               n \<le> failures_in h i (as_failed s) \<and> 0 < failures_in h i (as_failed s)) \<and>
            ((h, i) \<in> set (as_exhausted s) \<longrightarrow>
               (h, Budget_exhausted, i) \<in> set (as_log s) \<or> lines_in h (as_log s) = GLOBAL_PER_HOUR) \<and>
            ((h, Budget_exhausted, i) \<in> set (as_log s) \<longrightarrow> (h, i) \<in> set (as_exhausted s)))"

definition alert_inv :: "nat \<Rightarrow> alert_sys \<Rightarrow> bool" where
  "alert_inv n s \<longleftrightarrow>
     log_inv (hourOf (as_now s)) (as_alerter s) (as_log s) \<and>
     fail_inv (hourOf (as_now s)) (as_alerter s) (as_failed s) \<and> told_inv n s"

lemma lines_in_Cons [simp]: "lines_in h (e # log) = (if fst e = h then 1 else 0) + lines_in h log"
  by (simp add: lines_in_def)

lemma failures_in_Cons [simp]: "failures_in h i (e # failed) = (if e = (h, i) then 1 else 0) + failures_in h i failed"
  by (simp add: failures_in_def)

lemma lines_in_later: "\<forall>e \<in> set log. int (fst e) \<le> m \<Longrightarrow> m < int h \<Longrightarrow> lines_in h log = 0"
  by (auto simp: lines_in_def filter_empty_conv)

text \<open>One call of \<open>alert\<close>: a line exactly if there is none yet and the hour is not full.\<close>

lemma alert_spec:
  assumes "log_inv (hourOf now) a log" and "alert now kind i detail a = (line, a')"
  shows "log_inv (hourOf now) a' ((if line = None then [] else [(hourOf now, kind, i)]) @ log)"
    and "line = None \<longleftrightarrow> (hourOf now, kind, i) \<in> set log \<or> lines_in (hourOf now) log = GLOBAL_PER_HOUR"
    and "al_failures a' = al_failures a"
proof -
  let ?h = "hourOf now"
  define a1 where "a1 = (if globalHour a \<noteq> int ?h then a\<lparr>globalHour := int ?h, globalCount := 0\<rparr> else a)"
  have old: "lastAlert a (alert_key kind i) = Some ?h \<longleftrightarrow> (?h, kind, i) \<in> set log"
    using assms(1) by (simp add: log_inv_def)
  have a1: "log_inv ?h a1 log" "globalHour a1 = int ?h" "lastAlert a1 = lastAlert a" "al_failures a1 = al_failures a"
    using assms(1) lines_in_later [of log "globalHour a" ?h] by (auto simp: a1_def log_inv_def)
  have "lines_in ?h log \<le> GLOBAL_PER_HOUR" using a1(1) unfolding log_inv_def by blast
  moreover have "lines_in ?h log = globalCount a1" using a1(1,2) unfolding log_inv_def by simp
  ultimately have count: "globalCount a1 = lines_in ?h log" "lines_in ?h log \<le> GLOBAL_PER_HOUR" by simp_all
  have res: "(line, a') =
      (if (?h, kind, i) \<in> set log then (None, a)
       else if lines_in ?h log = GLOBAL_PER_HOUR then (None, a1)
       else (line, a1\<lparr>lastAlert := (lastAlert a1)(alert_key kind i \<mapsto> ?h), globalCount := globalCount a1 + 1\<rparr>)) \<and>
      ((?h, kind, i) \<notin> set log \<and> lines_in ?h log \<noteq> GLOBAL_PER_HOUR \<longrightarrow> line \<noteq> None)"
    using assms(2) old count by (auto simp: alert_def Let_def a1_def [symmetric] split: if_splits)
  then show "line = None \<longleftrightarrow> (?h, kind, i) \<in> set log \<or> lines_in ?h log = GLOBAL_PER_HOUR"
    by (auto split: if_splits)
  from res show "al_failures a' = al_failures a" using a1(4) by (auto split: if_splits)
  show "log_inv ?h a' ((if line = None then [] else [(?h, kind, i)]) @ log)"
  proof (cases "(?h, kind, i) \<in> set log \<or> lines_in ?h log = GLOBAL_PER_HOUR")
    case True
    with res assms(1) a1(1) show ?thesis by (auto split: if_splits)
  next
    case False
    with res have "line \<noteq> None" "a' = a1\<lparr>lastAlert := (lastAlert a1)(alert_key kind i \<mapsto> ?h), globalCount := globalCount a1 + 1\<rparr>"
      by simp_all
    moreover have "lines_in ?h log < GLOBAL_PER_HOUR" using False count(2) by simp
    ultimately show ?thesis using False a1(1,2) count by (auto simp: log_inv_def)
  qed
qed

lemma sweep_inv:
  "log_inv (hourOf now) a log \<Longrightarrow> log_inv (hourOf now) (alert_sweep now a) log"
  "fail_inv (hourOf now) a failed \<Longrightarrow> fail_inv (hourOf now) (alert_sweep now a) failed"
proof -
  have "lastAlert (alert_sweep now a) k = Some v \<Longrightarrow> lastAlert a k = Some v" for k v
    by (auto simp: alert_sweep_def split: option.splits if_splits)
  moreover have "lastAlert (alert_sweep now a) k = Some (hourOf now) \<longleftrightarrow> lastAlert a k = Some (hourOf now)" for k
    by (auto simp: alert_sweep_def split: option.splits)
  moreover have "globalHour (alert_sweep now a) = globalHour a" "globalCount (alert_sweep now a) = globalCount a"
    by (simp_all add: alert_sweep_def)
  ultimately show "log_inv (hourOf now) a log \<Longrightarrow> log_inv (hourOf now) (alert_sweep now a) log"
    by (simp add: log_inv_def) blast
  have "failure_count (hourOf now) i (alert_sweep now a) = failure_count (hourOf now) i a" for i
    by (auto simp: failure_count_def alert_sweep_def split: option.splits)
  moreover have "al_failures (alert_sweep now a) i = Some v \<Longrightarrow> al_failures a i = Some v" for i v
    by (auto simp: alert_sweep_def split: option.splits if_splits)
  ultimately show "fail_inv (hourOf now) a failed \<Longrightarrow> fail_inv (hourOf now) (alert_sweep now a) failed"
    by (simp add: fail_inv_def) blast
qed

lemma later_inv:
  assumes "h \<le> h'"
  shows "log_inv h a log \<Longrightarrow> log_inv h' a log" "fail_inv h a failed \<Longrightarrow> fail_inv h' a failed"
proof -
  assume l: "log_inv h a log"
  show "log_inv h' a log"
  proof (cases "h' = h")
    case False
    with assms l have "lastAlert a k \<noteq> Some h'" "(h', kind, i) \<notin> set log" for k kind i
      by (fastforce simp: log_inv_def)+
    with assms l show ?thesis by (fastforce simp: log_inv_def)
  qed (use l in simp)
next
  assume f: "fail_inv h a failed"
  show "fail_inv h' a failed"
  proof (cases "h' = h")
    case False
    with assms f have "failure_count h' i a = 0" "failures_in h' i failed = 0" for i
      by (fastforce simp: fail_inv_def failure_count_def failures_in_def filter_empty_conv split: option.splits)+
    with assms f show ?thesis by (fastforce simp: fail_inv_def)
  qed (use f in simp)
qed

lemma hourOf_mono: "hourOf t \<le> hourOf (t + d)"
  by (simp add: hourOf_def div_le_mono)

lemma failure_spec:
  assumes "log_inv (hourOf now) a log" and "fail_inv (hourOf now) a failed" and "failure n now i a = (line, a')"
  shows "log_inv (hourOf now) a' ((if line = None then [] else [(hourOf now, Repeated_failures, i)]) @ log)"
    and "fail_inv (hourOf now) a' ((hourOf now, i) # failed)"
    and "line \<noteq> None \<Longrightarrow> n \<le> failures_in (hourOf now) i ((hourOf now, i) # failed)"
    and "line = None \<Longrightarrow> n \<le> failures_in (hourOf now) i ((hourOf now, i) # failed) \<Longrightarrow>
      (hourOf now, Repeated_failures, i) \<in> set log \<or> lines_in (hourOf now) log = GLOBAL_PER_HOUR"
proof -
  let ?h = "hourOf now" and ?count = "failure_count (hourOf now) i a + 1"
  let ?a1 = "a\<lparr>al_failures := (al_failures a)(i \<mapsto> (?h, ?count))\<rparr>"
  have count: "?count = failures_in ?h i ((?h, i) # failed)" using assms(2) by (simp add: fail_inv_def)
  have log: "log_inv ?h ?a1 log" using assms(1) by (simp add: log_inv_def)
  have fail: "fail_inv ?h b ((?h, i) # failed)" if "al_failures b = al_failures ?a1" for b
    using assms(2) that by (auto simp: fail_inv_def failure_count_def)
  have "log_inv ?h a' ((if line = None then [] else [(?h, Repeated_failures, i)]) @ log) \<and>
      fail_inv ?h a' ((?h, i) # failed) \<and> (line \<noteq> None \<longrightarrow> n \<le> ?count) \<and>
      (line = None \<and> n \<le> ?count \<longrightarrow> (?h, Repeated_failures, i) \<in> set log \<or> lines_in ?h log = GLOBAL_PER_HOUR)"
  proof (cases "n \<le> ?count")
    case True
    then have al: "alert now Repeated_failures i (''count='' @ nat_to_string ?count) ?a1 = (line, a')"
      using assms(3) by (simp add: failure_def Let_def)
    from alert_spec [OF log al] fail [of a'] True show ?thesis by simp
  next
    case False
    then have "line = None" "a' = ?a1" using assms(3) by (simp_all add: failure_def Let_def)
    with log fail [of ?a1] False show ?thesis by simp
  qed
  then show "log_inv ?h a' ((if line = None then [] else [(?h, Repeated_failures, i)]) @ log)"
    "fail_inv ?h a' ((?h, i) # failed)" "line \<noteq> None \<Longrightarrow> n \<le> failures_in ?h i ((?h, i) # failed)"
    "line = None \<Longrightarrow> n \<le> failures_in ?h i ((?h, i) # failed) \<Longrightarrow>
      (?h, Repeated_failures, i) \<in> set log \<or> lines_in ?h log = GLOBAL_PER_HOUR"
    unfolding count by blast+
qed

text \<open>A further line, and a call that is behind it, keep what was told.\<close>

lemma told_invD:
  assumes "told_inv n s"
  shows "n \<le> failures_in h i (as_failed s) \<Longrightarrow> 0 < failures_in h i (as_failed s) \<Longrightarrow>
      (h, Repeated_failures, i) \<in> set (as_log s) \<or> lines_in h (as_log s) = GLOBAL_PER_HOUR"
    and "(h, Repeated_failures, i) \<in> set (as_log s) \<Longrightarrow>
      n \<le> failures_in h i (as_failed s) \<and> 0 < failures_in h i (as_failed s)"
    and "(h, i) \<in> set (as_exhausted s) \<Longrightarrow>
      (h, Budget_exhausted, i) \<in> set (as_log s) \<or> lines_in h (as_log s) = GLOBAL_PER_HOUR"
    and "(h, Budget_exhausted, i) \<in> set (as_log s) \<Longrightarrow> (h, i) \<in> set (as_exhausted s)"
  using assms unfolding told_inv_def by blast+

lemma told_more:
  assumes "told_inv n s" and "set (as_log s) \<subseteq> set (as_log t)"
    and "\<And>h. lines_in h (as_log s) = GLOBAL_PER_HOUR \<Longrightarrow> lines_in h (as_log t) = GLOBAL_PER_HOUR"
    and "\<And>h i. n \<le> failures_in h i (as_failed t) \<Longrightarrow> 0 < failures_in h i (as_failed t) \<Longrightarrow>
      n \<le> failures_in h i (as_failed s) \<and> 0 < failures_in h i (as_failed s) \<or>
      (h, Repeated_failures, i) \<in> set (as_log t) \<or> lines_in h (as_log t) = GLOBAL_PER_HOUR"
    and "\<And>h i. failures_in h i (as_failed s) \<le> failures_in h i (as_failed t)"
    and "\<And>h i. (h, Repeated_failures, i) \<in> set (as_log t) \<Longrightarrow>
      (h, Repeated_failures, i) \<in> set (as_log s) \<or> n \<le> failures_in h i (as_failed t) \<and> 0 < failures_in h i (as_failed t)"
    and "\<And>h i. (h, i) \<in> set (as_exhausted t) \<Longrightarrow> (h, i) \<in> set (as_exhausted s) \<or>
      (h, Budget_exhausted, i) \<in> set (as_log t) \<or> lines_in h (as_log t) = GLOBAL_PER_HOUR"
    and "\<And>h i. (h, Budget_exhausted, i) \<in> set (as_log t) \<Longrightarrow>
      (h, Budget_exhausted, i) \<in> set (as_log s) \<or> (h, i) \<in> set (as_exhausted t)"
    and "set (as_exhausted s) \<subseteq> set (as_exhausted t)"
  shows "told_inv n t"
  unfolding told_inv_def
proof (intro allI conjI impI; (elim conjE)?)
  fix h i
  show "(h, Repeated_failures, i) \<in> set (as_log t) \<or> lines_in h (as_log t) = GLOBAL_PER_HOUR"
    if "n \<le> failures_in h i (as_failed t)" "0 < failures_in h i (as_failed t)"
    using assms(4) [OF that] told_invD(1) [OF assms(1)] assms(2,3) by blast
  show "n \<le> failures_in h i (as_failed t)" "0 < failures_in h i (as_failed t)"
    if "(h, Repeated_failures, i) \<in> set (as_log t)"
    using assms(6) [OF that] told_invD(2) [OF assms(1), of h i] assms(5) [of h i] by auto
  show "(h, Budget_exhausted, i) \<in> set (as_log t) \<or> lines_in h (as_log t) = GLOBAL_PER_HOUR"
    if "(h, i) \<in> set (as_exhausted t)"
    using assms(7) [OF that] told_invD(3) [OF assms(1)] assms(2,3) by blast
  show "(h, i) \<in> set (as_exhausted t)" if "(h, Budget_exhausted, i) \<in> set (as_log t)"
    using assms(8) [OF that] told_invD(4) [OF assms(1)] assms(9) by blast
qed

lemma full_stays:
  assumes "log_inv h a (new @ log)" and "lines_in k log = GLOBAL_PER_HOUR"
  shows "lines_in k (new @ log) = GLOBAL_PER_HOUR"
proof -
  have "lines_in k (new @ log) \<le> GLOBAL_PER_HOUR" using assms(1) unfolding log_inv_def by blast
  with assms(2) show ?thesis by (simp add: lines_in_def)
qed

lemma alert_inv_step:
  assumes "alert_inv n s"
  shows "alert_inv n (alert_event_step n ev s)"
proof (cases ev)
  case (Later d)
  have "told_inv n (s\<lparr>as_now := as_now s + d\<rparr>)" using assms by (simp add: alert_inv_def told_inv_def)
  with assms later_inv [OF hourOf_mono [of "as_now s" d]] show ?thesis by (simp add: Later alert_inv_def)
next
  case Swept
  have "told_inv n (s\<lparr>as_alerter := b\<rparr>)" for b using assms by (simp add: alert_inv_def told_inv_def)
  with assms sweep_inv show ?thesis by (simp add: Swept alert_inv_def)
next
  case (Exhausted i)
  let ?h = "hourOf (as_now s)"
  obtain line a' where al: "alert (as_now s) Budget_exhausted i '''' (as_alerter s) = (line, a')" by fastforce
  have inv: "log_inv ?h (as_alerter s) (as_log s)" "fail_inv ?h (as_alerter s) (as_failed s)" "told_inv n s"
    using assms by (simp_all add: alert_inv_def)
  note spec = alert_spec [OF inv(1) al]
  define t where "t = alert_event_step n (Exhausted i) s"
  have t: "as_log t = (if line = None then [] else [(?h, Budget_exhausted, i)]) @ as_log s"
    "as_failed t = as_failed s" "as_exhausted t = (?h, i) # as_exhausted s" "as_alerter t = a'" "as_now t = as_now s"
    by (simp_all add: t_def logged_def al)
  have "told_inv n t"
    by (rule told_more [OF inv(3)]) (use spec(2) full_stays [OF spec(1)] in \<open>auto simp: t\<close>)
  moreover have "fail_inv ?h a' (as_failed s)" using inv(2) spec(3) by (simp add: fail_inv_def failure_count_def)
  ultimately show ?thesis using spec(1) unfolding Exhausted t_def [symmetric] by (simp only: alert_inv_def t)
next
  case (Failed i)
  let ?h = "hourOf (as_now s)"
  obtain line a' where f: "failure n (as_now s) i (as_alerter s) = (line, a')" by fastforce
  have inv: "log_inv ?h (as_alerter s) (as_log s)" "fail_inv ?h (as_alerter s) (as_failed s)" "told_inv n s"
    using assms by (simp_all add: alert_inv_def)
  note spec = failure_spec [OF inv(1,2) f]
  define t where "t = alert_event_step n (Failed i) s"
  have t: "as_log t = (if line = None then [] else [(?h, Repeated_failures, i)]) @ as_log s"
    "as_failed t = (?h, i) # as_failed s" "as_exhausted t = as_exhausted s" "as_alerter t = a'" "as_now t = as_now s"
    by (simp_all add: t_def logged_def f)
  have "told_inv n t"
    by (rule told_more [OF inv(3)]) (use spec(3,4) full_stays [OF spec(1)] in \<open>auto simp: t split: if_splits\<close>)
  then show ?thesis using spec(1,2) unfolding Failed t_def [symmetric] by (simp only: alert_inv_def t)
qed

lemma alert_inv_start: "alert_inv n alert_start"
  by (simp add: alert_inv_def alert_start_def createAlerter_def log_inv_def fail_inv_def told_inv_def
      lines_in_def failures_in_def failure_count_def)

lemma alert_run_inv: "alert_inv n (alert_run n evs)"
proof -
  have "alert_inv n s \<Longrightarrow> alert_inv n (fold (alert_event_step n) evs s)" for s
    by (induction evs arbitrary: s) (simp_all add: alert_inv_step)
  then show ?thesis by (simp add: alert_run_def alert_inv_start)
qed

section \<open>A full hour\<close>

lemma log_grows: "\<exists>new. as_log (fold (alert_event_step n) evs s) = new @ as_log s"
proof (induction evs arbitrary: s)
  case (Cons ev evs)
  have "\<exists>new. as_log (alert_event_step n ev s) = new @ as_log s" by (cases ev) (auto simp: logged_def)
  with Cons [of "alert_event_step n ev s"] show ?case by (metis append.assoc fold_simps(2))
qed simp

lemma run_append: "alert_run n (evs @ evs') = fold (alert_event_step n) evs' (alert_run n evs)"
  by (simp add: alert_run_def)

lemma run_exhausted:
  "as_now (fold (alert_event_step n) (map Exhausted is) s) = as_now s"
  "as_failed (fold (alert_event_step n) (map Exhausted is) s) = as_failed s"
  "set (as_exhausted (fold (alert_event_step n) (map Exhausted is) s)) =
    Pair (hourOf (as_now s)) ` set is \<union> set (as_exhausted s)"
  by (induction "is" arbitrary: s) (auto simp: logged_def)

lemma run_failed:
  "as_failed (fold (alert_event_step n) (replicate k (Failed i)) s) = replicate k (hourOf (as_now s), i) @ as_failed s"
proof (induction k arbitrary: s)
  case (Suc k)
  have "replicate k x @ x # xs = x # replicate k x @ xs" for x and xs :: "(nat \<times> js_string) list"
    by (induction k) simp_all
  with Suc show ?case by (simp add: logged_def)
qed simp

text \<open>Twenty made-up devices, and then six failures of one that exists.\<close>

definition made_up :: "js_string list" where
  "made_up = map (\<lambda>k. [word_of_nat k]) [0..<20]"

lemma made_up_distinct: "distinct made_up" "length made_up = 20"
proof -
  have "inj_on (\<lambda>k. [word_of_nat k :: 16 word]) {0..<20}"
    by (rule inj_onI) (simp add: word_unat_eq_iff unat_of_nat)
  then show "distinct made_up" by (simp add: made_up_def distinct_map)
qed (simp add: made_up_def)

lemma lines_in_many:
  assumes "distinct is" and "\<forall>i \<in> set is. (h, kind, i) \<in> set log"
  shows "length is \<le> lines_in h log"
proof -
  have "(\<lambda>i. (h, kind, i)) ` set is \<subseteq> set (filter (\<lambda>e. fst e = h) log)" using assms(2) by auto
  then have "card ((\<lambda>i. (h, kind, i)) ` set is) \<le> card (set (filter (\<lambda>e. fst e = h) log))" by (rule card_mono [rotated]) simp
  also have "\<dots> \<le> lines_in h log" unfolding lines_in_def by (rule card_length)
  finally show ?thesis using assms(1) by (simp add: card_image inj_on_def distinct_card)
qed

section \<open>Properties\<close>

text \<open>
  C36. Alerts are bounded, true, and raised. In any sequence of failures and exhausted budgets, with the
  clock and the sweeper in between: no more than twenty lines are written in an hour, and none twice
  for a device and a kind; each line has its cause in that very hour, the configured number of
  failures of the device or its exhausted budget; and each such cause has its line, unless
  twenty have been written in that hour.
\<close>

theorem alerts_bounded_and_raised:
  assumes "s = alert_run n evs" and "0 < n"
  shows "lines_in h (as_log s) \<le> 20 \<and> distinct (as_log s) \<and>
    ((h, Repeated_failures, i) \<in> set (as_log s) \<longrightarrow> n \<le> failures_in h i (as_failed s)) \<and>
    ((h, Budget_exhausted, i) \<in> set (as_log s) \<longrightarrow> (h, i) \<in> set (as_exhausted s)) \<and>
    (lines_in h (as_log s) < 20 \<longrightarrow>
       (n \<le> failures_in h i (as_failed s) \<longrightarrow> (h, Repeated_failures, i) \<in> set (as_log s)) \<and>
       ((h, i) \<in> set (as_exhausted s) \<longrightarrow> (h, Budget_exhausted, i) \<in> set (as_log s)))"
proof -
  have inv: "alert_inv n s" unfolding assms(1) by (rule alert_run_inv)
  then have told: "told_inv n s" by (simp add: alert_inv_def)
  have log: "lines_in h (as_log s) \<le> 20" "distinct (as_log s)"
    using inv by (simp_all add: alert_inv_def log_inv_def GLOBAL_PER_HOUR_def)
  show ?thesis
    using log told_invD [OF told, where h = h and i = i] assms(2) by (auto simp: GLOBAL_PER_HOUR_def)
qed

text \<open>The limit as a means: made-up identifiers silence the alert on a device that exists.\<close>

theorem alerts_bounded_and_raised_witness:
  "\<exists>evs i. 6 \<le> failures_in 0 i (as_failed (alert_run 6 evs)) \<and>
    (0, Repeated_failures, i) \<notin> set (as_log (alert_run 6 evs)) \<and> lines_in 0 (as_log (alert_run 6 evs)) = 20"
proof -
  let ?i = "units ''7Q5V''" and ?evs = "map Exhausted made_up"
  let ?evs2 = "?evs @ replicate 6 (Failed ?i)"
  have pos: "0 < (6 :: nat)" by simp
  note one = alerts_bounded_and_raised [OF refl pos, of 0 ?evs]
  note two = alerts_bounded_and_raised [OF refl pos, of 0 ?evs2]
  have start: "hourOf (as_now alert_start) = 0" "as_failed alert_start = []" by (simp_all add: alert_start_def hourOf_def)
  have full: "lines_in 0 (as_log (alert_run 6 ?evs)) = 20"
  proof (rule ccontr)
    assume "lines_in 0 (as_log (alert_run 6 ?evs)) \<noteq> 20"
    with one have less: "lines_in 0 (as_log (alert_run 6 ?evs)) < 20" by (meson le_neq_implies_less)
    have "(0, i) \<in> set (as_exhausted (alert_run 6 ?evs))" if "i \<in> set made_up" for i
      using that by (simp add: alert_run_def run_exhausted start)
    with one less have "\<forall>i \<in> set made_up. (0, Budget_exhausted, i) \<in> set (as_log (alert_run 6 ?evs))" by blast
    from lines_in_many [OF made_up_distinct(1) this] less show False by (simp add: made_up_distinct(2))
  qed
  obtain new where new: "as_log (alert_run 6 ?evs2) = new @ as_log (alert_run 6 ?evs)"
    using log_grows [of 6 "replicate 6 (Failed ?i)" "alert_run 6 ?evs"] unfolding run_append by blast
  have "lines_in 0 (new @ as_log (alert_run 6 ?evs)) \<le> 20" using two unfolding new by blast
  then have none: "lines_in 0 new = 0" using full by (simp add: lines_in_def)
  have "failures_in 0 ?i (as_failed (alert_run 6 ?evs)) = 0"
    by (simp add: alert_run_def run_exhausted start failures_in_def)
  with one have "(0, Repeated_failures, ?i) \<notin> set (as_log (alert_run 6 ?evs))" by fastforce
  moreover have "(0, Repeated_failures, ?i) \<notin> set new" using none by (auto simp: lines_in_def filter_empty_conv)
  ultimately have "(0, Repeated_failures, ?i) \<notin> set (as_log (alert_run 6 ?evs2))" by (simp add: new)
  moreover have "6 \<le> failures_in 0 ?i (as_failed (alert_run 6 ?evs2))"
    unfolding run_append run_failed by (simp add: alert_run_def run_exhausted start failures_in_def)
  moreover have "lines_in 0 (as_log (alert_run 6 ?evs2)) = 20" using full none by (simp add: new lines_in_def)
  ultimately show ?thesis by blast
qed

end
