(* ===== verification/Spec2Isabelle.thy ===== *)
theory Spec2Isabelle
  imports Server Writers Fw_Main Sql_Trace Buffers Auth_Trip Auth_Admin Auth_Alerts
begin

text \<open>
  xAuth is a one-time-code gate in front of web applications. A keychain with a real-time clock
  shows an 8-digit code that changes every 90 seconds; the owner types it into a login page;
  a daemon on the server checks it against a keystore. This development models the C++ code of
  the repository (the server's core library, its two daemons and its tools, and the firmware of
  the keychain) and, of the web tier in JavaScript, the path from the login form to the session,
  the path from a request for an application to the gate's answer, and the dashboard's use of the
  admin daemon.

  \<^bold>\<open>The parts and their theories.\<close>

  \<^item> \<open>Prelude\<close>: fixed-width types, C++ results (\<open>cxx\<close>: a value, an exception or undefined
    behaviour), \<open>std::string::find\<close>, C strings, decimal numbers, the locale
    \<open>invariant_system\<close> for reachable states, and \<open>states_run\<close>, the states of one run in order, for
    what has been so before.
  \<^item> \<open>Otp\<close> (\<open>core/otp.cpp\<close>): HMAC, dynamic truncation, counters, code strings.
  \<^item> \<open>Keystore\<close> (\<open>core/keystore.cpp\<close>): the SQLite keystore. The locale \<open>device_store\<close> is what
    its clients may rely on; \<open>device_store_up\<close> adds what holds while nothing fails. The locales
    \<open>sqlite_keystore\<close> and \<open>sqlite_available\<close> state what the code relies on of SQLite, and
    sublocale declarations prove that the code, on such an SQLite, meets the contract.
    \<open>Memory_Sqlite\<close> is an engine with a list of rows and injected faults that meets the laws; it
    interprets the locales and carries the closed instances of the properties.
  \<^item> \<open>Keygen\<close> (\<open>core/keygen.cpp\<close>): identifiers, keys, labels, the header the firmware is built
    from.
  \<^item> \<open>Wire\<close> (\<open>read_line\<close>, \<open>write_all\<close>, \<open>peer_allowed\<close> and the drain loop, which both daemons
    have): connections as scripts of what \<open>read\<close> and \<open>write\<close> do.
  \<^item> \<open>Verifier\<close> (\<open>verifier/main.cpp\<close>): the constant-work check, the requests, one connection,
    and the accept loop with its threads as a step relation.
  \<^item> \<open>Enrolment\<close>: the loop that draws an identifier until it is free, in the two forms the
    daemon and the tool have, and the well-formed tables. \<open>Writers\<close> cuts that loop at its calls of
    the keystore and runs any number of such loops interleaved; \<open>alone_draw_until_free\<close> shows
    that a writer which runs alone is the loop of the code.
  \<^item> \<open>Admin\<close> (\<open>admin/main.cpp\<close>) and \<open>Provision\<close> (\<open>tools/provision/main.cpp\<close>): the two writers.
    \<open>Devcode\<close> (\<open>tools/devcode/main.cpp\<close>) prints a code.
  \<^item> \<open>Startup\<close>: \<open>main\<close> of both daemons up to the accept loop, and the signal handler.
  \<^item> \<open>Server\<close>: any sequence of logins, admin requests, starts of the admin daemon (which migrates
    the keystore) and runs of the tool on one keystore.
  \<^item> \<open>Fw_Totp\<close>, \<open>Fw_Clock\<close>, \<open>Fw_Display\<close>, \<open>Fw_Main\<close> (\<open>firmware/xAuth_ID/src\<close>): the keychain's
    own copy of the OTP arithmetic, its clock and serial protocol, its screen, and \<open>setup\<close> and
    \<open>loop\<close> over many power cycles.

  \<^item> \<open>Sql_Trace\<close>: the same platform with a log of what was opened, prepared, bound and run, for
    what the programs ask of SQLite.
  \<^item> \<open>Buffers\<close>: the code that works on arrays of bytes (\<open>read_line\<close> of both daemons, the serial line,
    the code on its way to the screen) on arrays of their sizes, where an index out of bounds and
    a byte that was never written are undefined behaviour; it refines the string versions.
  \<^item> \<open>Auth_Client\<close> (\<open>auth-web/src/verifier.js\<close>): the form's fields, the request to the daemon and
    its reply. \<open>Auth_Store\<close> and \<open>Auth_Tokens\<close> (\<open>stores/memory.js\<close>): sessions, attempt counters,
    claimed windows; device tokens. \<open>Auth_Login\<close> (\<open>routes/otp.js\<close>): the handler in pieces between
    its \<open>await\<close>s and the system \<open>web_step\<close> of any number of them with the server behind;
    \<open>Auth_Signin\<close>: its properties. \<open>Auth_Verify\<close> (\<open>routes/verify.js\<close>, \<open>createStatusChecker\<close>): the
    gate, as the system \<open>gate_step\<close> that has \<open>web_step\<close> as a part; \<open>Auth_Trip\<close>: the runs on which it
    opens. \<open>Auth_Alerts\<close> (\<open>alerts.js\<close>): the limits on alerts. \<open>Auth_Admin\<close>
    (\<open>admin.js\<close>): the dashboard's client of the admin daemon, with the daemon's replies in front of
    it, and the guard of the last administrator in \<open>routes/admin.js\<close>.

  \<^bold>\<open>How they interact.\<close> The tool or the admin daemon draws an identifier and a key, puts them
  into the keystore and hands them out once, the tool as the header that the firmware build
  compiles in. From then on the keychain computes codes from its clock, and the verifier from the
  server's clock and the key in the keystore, for the window of its time and the two beside it.
  The web tier asks the verifier about the code of a login, claims the window that matched so that no code works twice, and keeps a session;
  at the gate it looks the session or a device token up and asks the verifier, through a cache,
  whether the device is still active. The theorem at the end of this theory follows the whole trip,
  from a run of the tool to the open gate, across any history of the server in between.

  \<^bold>\<open>Conventions.\<close> Names are those of the source, with a prefix where two files use one name
  (\<open>fw_\<close>, \<open>verifier_\<close>, \<open>admin_\<close>). State is passed explicitly: \<open>'db\<close> is the database behind
  SQLite, \<open>'r\<close> the random generator's state, \<open>'f\<close> the file system, \<open>'w\<close> the world around the
  keychain. \<open>tbl\<close> maps a database to its table. Integers that wrap in C++ are words.

  \<^bold>\<open>What the lemmas show.\<close> The lemmas ending in \<open>_refines\<close> relate each operation of the keystore
  to its effect on the table by its result; \<open>admin_refines\<close> does so for whole requests.
  \<open>verify_reply\<close> and \<open>status_reply\<close> give the verifier's replies by the lookup's result.
  \<open>safe_change\<close> (a well-formed table stays so, no device and no key is lost) and \<open>has_status\<close> are
  carried through every operation up to \<open>server_run\<close>. \<open>verified_good\<close> carries the verifier's
  soundness through the client; \<open>login_inv\<close>, \<open>signed_inv\<close>, \<open>budget_inv\<close> and \<open>session_inv\<close> are the
  invariants of the login system, \<open>fresh_inv\<close> and \<open>backed_inv\<close> those of the gate, all by the locale
  \<open>invariant_system\<close>; \<open>history_ok\<close> adds to the latter two the states of the run at which a session
  or token was looked up and a device's row was active. \<open>poll_pending\<close> gives one call of the serial
  port for any unfinished line, \<open>drain_loop_consumes\<close> what the drain takes from a connection. The lemmas on \<open>time_left_lines\<close>,
  \<open>handle_command_eq\<close> and \<open>fw_loop_cases\<close> describe the firmware's operations on every branch.

  \<^bold>\<open>Parameters.\<close> Code outside the repository is an argument: the HMAC (32-byte digests; the
  firmware's is the same function as the server's), \<open>RAND_bytes\<close> (fills its buffer), SQLite (the
  laws above), the calls on the header file, \<open>lstat\<close> to \<open>listen\<close>, the RTC and the NVS partition,
  Arduino's \<open>random\<close>; of the web tier, SHA-256, \<open>toUpperCase\<close>, the tokens \<open>randomBytes\<close> gives and
  what the redirect policy makes of a target. No law says that a call succeeds; the locale \<open>sqlite_available\<close>, where a
  property uses it, restricts it to databases that are \<open>up\<close>. The C++ standard library and the C
  conversions (\<open>stoi\<close>, \<open>stol\<close>, \<open>stoul\<close>, \<open>strtoul\<close>) are modelled as far as the code uses them.

  \<^bold>\<open>Loops and bounds.\<close> Every loop of the code that ends is a total function: the reading loops
  terminate because the script of the kernel's answers gets shorter, the date loop because the
  position moves towards the end of the string, the draw loop after 16 attempts. The endless
  loops are the accept loops (\<open>accept_step\<close>, and \<open>admin_run\<close> on a list of connections) and
  \<open>loop\<close> of the firmware (\<open>keychain_step\<close>). The web tier is event-driven: one step is one piece of
  one handler. Its times are milliseconds up to \<open>MAX_DATE\<close>, the largest a JavaScript date holds,
  and a reply is used within \<open>env_delay\<close> of the moment the daemon evaluated the request (the
  client's timer is \<open>VERIFIER_TIMEOUT_MS\<close>, 2 seconds).

  \<^bold>\<open>Not modelled.\<close> Of the web tier the pages (the dashboard's too), the redirect policy, the
  settings, the webhook of the alerts, and the Redis stores; nginx, deployment, tests and
  Python tools; the schema of the keystore appears as laws. Wiping of memory (\<open>OPENSSL_cleanse\<close>) is
  modelled for the buffer of \<open>read_line\<close>, in \<open>Buffers\<close>, and nowhere else, since no
  later statement reads that memory; the log lines of the daemons and of the keystore are left
  out; time-outs are endings of a script. Timing is seen only through the number and the sizes of
  the HMACs and comparisons. The declarations of the header files are covered by the definitions
  of what they declare.
\<close>

section \<open>From enrolment to login\<close>

text \<open>
  The header the tool wrote, seen by the firmware build: the macros of a complete header are the
  identifier and the key of the new row.
\<close>

lemma enrolled_header:
  assumes "sqlite_keystore P tbl" and "csprng R"
    and "provision_main P R F (''add'' # args) r f db = (Inr (0, outs), r', f', db')"
    and "add_args args ''OK'' '''' 4 = Some (label, header, n)" and "header \<noteq> []"
    and "hd outs = Cout (ident @ [nl])"
  obtains key src f1 where "valid_device_id ident" "valid_key key" "has_status 1 (tbl db') ident"
    "map_option r_key (tbl db' ident) = Some key"
    "fst (write_file F (c_str header) src f1) = int (length src)"
    "macro_value ''DEVICE_ID'' src = Some ident" "macro_value ''SECURE_KEY'' src = Some key"
proof -
  obtain key ts where e: "valid_device_id ident" "valid_key key"
      "tbl db' ident = Some \<lparr>r_key = key, r_status = 1, r_note = label, r_created = Some ts\<rparr>"
      "\<exists>f1. fst (write_file F (c_str header) (firmware_header ident key) f1) =
         int (length (firmware_header ident key))"
    using provision_add_spec [OF assms(1-3)] assms(4-6) by force
  then show thesis
    using that firmware_header_macros [OF e(1,2)] by (auto simp: has_status_def)
qed

lemma valid_key_length: "valid_key k \<Longrightarrow> length k = 128"
  by (simp add: valid_key_def)

text \<open>A code the keychain shows for a time in a window the verifier looks at.\<close>

lemma keychain_code_in_window:
  assumes "same_hmac M H" and "CHR 0x00 \<notin> set key"
    and "(ucast t :: u64) div 90 \<in> {now div 90 - 1, now div 90, now div 90 + 1}"
  obtains code c where "otp_now M key time_t_64 t = Inr code"
    "window_match H key (now div 90) (format_code code) = Some c"
proof -
  obtain code where code: "otp_now M key time_t_64 t = Inr code"
      "format_code code = code_string H (c_str key) (time_t_64 t div 90)"
    using otp_now_eq [OF assms(1)] .
  then have "window_match H key (now div 90) (format_code code) \<noteq> None"
    using assms(2,3) by (auto simp: window_match_def time_t_64_def c_str_id)
  with code(1) that show thesis by blast
qed

text \<open>What is left of an enrolment after a history without a revocation of the device.\<close>

lemma enrolled_device:
  assumes "sqlite_keystore P tbl" and "csprng R" and "same_hmac M H"
    and "provision_main P R F (''add'' # args) r f db = (Inr (0, outs), r', f', db')"
    and "add_args args ''OK'' '''' 4 = Some (label, header, n)" and "header \<noteq> []"
    and "hd outs = Cout (ident @ [nl])"
    and "srv_db s = db'" and "\<forall>ev \<in> set evs. \<not> asks_status 0 ident ev"
    and "(ucast t :: u64) div 90 \<in> {now div 90 - 1, now div 90, now div 90 + 1}"
  obtains src f1 key row code c where "fst (write_file F (c_str header) src f1) = int (length src)"
    "macro_value ''DEVICE_ID'' src = Some ident" "macro_value ''SECURE_KEY'' src = Some key"
    "otp_now M key time_t_64 t = Inr code" "valid_device_id ident"
    "tbl (srv_db (server_run P H R F dummy_key vuid auid evs s)) ident = Some row" "r_status row = 1"
    "length (c_str (r_key row)) = 128"
    "window_match H (c_str (r_key row)) (now div 90) (format_code code) = Some c"
proof -
  let ?db2 = "srv_db (server_run P H R F dummy_key vuid auid evs s)"
  note H = same_hmac_digest [OF assms(3)]
  obtain key src f1 where e: "valid_device_id ident" "valid_key key" "has_status 1 (tbl db') ident"
      "map_option r_key (tbl db' ident) = Some key"
      "fst (write_file F (c_str header) src f1) = int (length src)"
      "macro_value ''DEVICE_ID'' src = Some ident" "macro_value ''SECURE_KEY'' src = Some key"
    using enrolled_header [OF assms(1,2,4-7)] .
  have "keys_kept (tbl db') (tbl ?db2)"
    using sqlite_keystore.server_run_keeps(1) [OF assms(1,2) H, where s = s and F = F] assms(8)
    by (simp add: safe_change_def)
  moreover have "has_status 1 (tbl ?db2) ident"
    by (rule sqlite_keystore.server_run_keeps(2) [OF assms(1,2) H]) (use e(3) assms(8,9) in simp_all)
  ultimately obtain row where row: "tbl ?db2 ident = Some row" "r_status row = 1" "r_key row = key"
    using e(4) unfolding keys_kept_def has_status_def by fastforce
  have zero: "CHR 0x00 \<notin> set key" by (rule valid_key_special(1) [OF e(2)])
  obtain code c where c: "otp_now M key time_t_64 t = Inr code"
      "window_match H key (now div 90) (format_code code) = Some c"
    using keychain_code_in_window [OF assms(3) zero assms(10)] .
  from that [OF e(5-7) c(1) e(1) row(1,2), of c] c(2) row(3) valid_key_length [OF e(2)] zero
  show thesis by (simp add: c_str_id)
qed

text \<open>
  C1. The whole trip works, and keeps working. After a successful \<open>add\<close> with a header file, that file
  defines the printed identifier and a key with which the firmware, built with a 64-bit \<open>time_t\<close>,
  formats for any time within one window of the server's a code for which all of the following
  holds, also after any logins, admin requests, starts of the admin daemon and runs of the tool none
  of which asks for the revocation of this identifier. While the keystore answers, the verifier accepts the code. And at the web tier, whatever else is
  under way there, everyone who fills in the identifier and the code, and for whom the budgets
  and the claimed windows leave room, has a run that ends with a session's cookie, from where a
  request with that cookie has a run that the gate lets through: given that the server's clock is in
  the range of a JavaScript date, sessions have a life at all, and the gate's cache does not still
  hold a refusal of the device.
\<close>

theorem enrolled_device_signs_in:
  assumes "sqlite_available P tbl up" and "csprng R" and "same_hmac M H"
    and "provision_main P R F (''add'' # args) r f db = (Inr (0, outs), r', f', db')"
    and "add_args args ''OK'' '''' 4 = Some (label, header, n)" and "header \<noteq> []"
    and "hd outs = Cout (ident @ [nl])"
    and "srv_db s = db'" and "\<forall>ev \<in> set evs. \<not> asks_status 0 ident ev"
    and "g_db g = srv_db (server_run P H R F dummy_key vuid auid evs s)" and "up (g_db g)"
    and "now = daemon_now (g_clock g)" and "g_clock g \<in> {90000..MAX_DATE}"
    and "(ucast t :: u64) div 90 \<in> {now div 90 - 1, now div 90, now div 90 + 1}"
    and "not_denied (g_cache g) (units ident) (g_clock g)" and "0 < sessionTtlSeconds (env_config E)"
  shows "\<exists>src f1 key code c. fst (write_file F (c_str header) src f1) = int (length src) \<and>
    macro_value ''DEVICE_ID'' src = Some ident \<and> macro_value ''SECURE_KEY'' src = Some key \<and>
    otp_now M key time_t_64 t = Inr code \<and>
    fst (verifier_handle_request P H dummy_key now (''VERIFY '' @ ident @ '' '' @ format_code code) (g_db g)) =
      Inr (''OK '' @ nat_to_string (unat c) @ [nl]) \<and>
    (\<forall>rq tok. right_form E (g_web g) rq ident (format_code code) (unat (c :: u64)) \<and> tok \<noteq> '''' \<and> length tok \<le> 128 \<longrightarrow>
       signs_in_and_passes (gate_step P tbl H R F dummy_key vuid auid E tcfg ttl) g rq ident tok)"
proof -
  note ks = sqlite_available.axioms(1) [OF assms(1)] and H = same_hmac_digest [OF assms(3)]
  obtain src f1 key row code c where e: "fst (write_file F (c_str header) src f1) = int (length src)"
    "macro_value ''DEVICE_ID'' src = Some ident" "macro_value ''SECURE_KEY'' src = Some key"
    "otp_now M key time_t_64 t = Inr code"
    and row: "valid_device_id ident" "tbl (g_db g) ident = Some row" "r_status row = 1"
    "length (c_str (r_key row)) = 128"
    "window_match H (c_str (r_key row)) (now div 90) (format_code code) = Some c"
    using enrolled_device [OF ks assms(2-9,14)] assms(10) by metis
  have c: "unat c < 10 ^ 15"
    by (rule daemon_window_small) (use assms(12,13) window_match_SomeD(1) [OF row(5)] in auto)
  have "fst (verifier_handle_request P H dummy_key now (''VERIFY '' @ ident @ '' '' @ format_code code) (g_db g)) =
      Inr (''OK '' @ nat_to_string (unat c) @ [nl])"
    by (rule sqlite_available.verify_complete [OF assms(1) H assms(11) row])
  moreover have "signs_in_and_passes (gate_step P tbl H R F dummy_key vuid auid E tcfg ttl) g rq ident tok"
    if "right_form E (g_web g) rq ident (format_code code) (unat c)" "tok \<noteq> ''''" "length tok \<le> 128" for rq tok
    by (rule sqlite_available.login_opens_gate [OF assms(1) that(1) c H assms(11) row(1-4) _ assms(15) that(2,3) assms(16)])
       (use row(5) assms(12) in simp)
  ultimately show ?thesis using e by blast
qed

text \<open>The enrolment of device 0000 with a header, and the revocation of another device after it.\<close>

definition sample_disk :: disk where
  "sample_disk = \<lparr>disk_files = [], disk_space = 4096\<rparr>"

lemma sample_add_header:
  obtains f1 where "provision_main mem_platform list_rng disk_calls
      [''add'', ''--firmware-header'', ''h''] (replicate 68 0) sample_disk
      (sample_db\<lparr>mem_faults := replicate 9 False\<rparr>) =
    (Inr (0, [Cout (''0000'' @ [nl]), Cerr (''firmware header written to h'' @ [nl])]), [], f1, sample_enrolled [])"
proof -
  let ?d = "device_default\<lparr>dev_status := 1, dev_note := ''OK'', dev_key := hex_of (replicate 64 0),
      dev_id := ''0000''\<rparr>"
  have "length (firmware_header ''0000'' (hex_of (replicate 64 0))) \<le> 4096"
    using valid_key_length [OF valid_key_zero] by (simp add: firmware_header_def)
  then obtain f1 where h: "write_firmware_header disk_calls ''h'' ?d sample_disk = (True, [], f1)"
    by (simp add: write_firmware_header_def disk_calls_def c_str_def Let_def sample_disk_def)
  have label: "valid_label ''OK''" by (simp add: valid_label_iff label_char_def)
  show thesis
    by (rule that [of f1])
       (use sample_migrate [of "[]"] sample_place [of "[]"] label h in
         \<open>simp add: provision_main_def provision_command_def cmd_add_def finish_add_def sample_draw DEVICE_ID_MIN_def
            DEVICE_ID_MAX_def del: replicate_numeral\<close>)
qed

lemma sample_revoke_other:
  "mem_up (srv_db (server_run mem_platform sample_hmac list_rng disk_calls sample_key (-1) (-1)
     [Tool [''revoke'', ''AB12'']] (sample_server\<lparr>srv_db := sample_enrolled []\<rparr>)))"
proof -
  have m: "migrate_keystore mem_platform (sample_enrolled []) = (True, sample_enrolled [])"
    by (simp add: migrate_keystore_def open_db_def db_path_def mem_open_def mem_prepare_def mem_run_def
        mem_stmt_defs mem_fault_def sample_db_def eval_simps column_text_def sqlite3_column_text_def
        c_str_def sample_enrolled_def)
  have up: "mem_up (sample_enrolled [])" by (simp add: mem_up_def sample_enrolled_def sample_db_def)
  obtain l db1 where s: "set_device_status mem_platform ''AB12'' 0 (sample_enrolled []) = (l, db1)"
    by fastforce
  have "mem_up db1" using mem.set_device_status_up [OF up _ s] by simp
  with m s show ?thesis
    by (simp add: server_run_def provision_main_def provision_command_def)
qed

text \<open>A gate on that server, where nothing has happened yet.\<close>

definition sample_trip :: "(byte list, disk, mem_db) gate" where
  "sample_trip =
     \<lparr>g_web = \<lparr>clock = 1800000000000, wstore = empty_store, flights = [], logins = [],
        srv = server_run mem_platform sample_hmac list_rng disk_calls sample_key (-1) (-1)
          [Tool [''revoke'', ''AB12'']] (sample_server\<lparr>srv_db := sample_enrolled []\<rparr>)\<rparr>,
      g_tokens = empty_tokens, g_cache = Map.empty, g_checks = [], g_answers = []\<rparr>"

definition trip_request :: "string \<Rightarrow> otp_request" where
  "trip_request code = sample_request\<lparr>rq_device := Some (units ''0000''), rq_code := Some (units code)\<rparr>"

lemma trip_form:
  assumes "length code = 8" and "all_digits code"
  shows "right_form sample_env (g_web sample_trip) (trip_request code) ''0000'' code n"
proof -
  have "isValidCode (units code)" using assms by (auto simp: isValidCode_iff all_digits_iff)
  then have "normalizeCode (rq_code (trip_request code)) = units code"
    by (simp add: trip_request_def normalizeCode_digits)
  moreover have "normalizeId (env_upper sample_env) (rq_device (trip_request code)) = units ''0000''"
    by (simp add: trip_request_def sample_env_def normalizeId_def js_trim_def js_text_def
      without_separators_def units_def code_unit_def unit_in_def js_space_def)
  moreover have "has_room sample_env (g_web sample_trip) ip i n" for ip i
    by (simp add: has_room_def sample_trip_def sample_env_def allowIp_def bump_def empty_store_def attempts_def)
  ultimately show ?thesis by (simp add: right_form_def trip_request_def sample_request_sel(3))
qed

theorem enrolled_device_signs_in_witness:
  "\<exists>code. signs_in_and_passes sample_gate_step sample_trip (trip_request code) ''0000'' ''tok''"
proof -
  let ?evs = "[Tool [''revoke'', ''AB12'']]" and ?s = "sample_server\<lparr>srv_db := sample_enrolled []\<rparr>"
  let ?now = "daemon_now (g_clock sample_trip)"
  obtain f1 where run: "provision_main mem_platform list_rng disk_calls
      [''add'', ''--firmware-header'', ''h''] (replicate 68 0) sample_disk
      (sample_db\<lparr>mem_faults := replicate 9 False\<rparr>) =
    (Inr (0, [Cout (''0000'' @ [nl]), Cerr (''firmware header written to h'' @ [nl])]), [], f1, sample_enrolled [])"
    by (rule sample_add_header)
  have args: "add_args [''--firmware-header'', ''h''] ''OK'' '''' 4 = Some (''OK'', ''h'', 4)" by simp
  have header: "''h'' \<noteq> ''''" by simp
  have outs: "hd [Cout (''0000'' @ [nl]), Cerr (''firmware header written to h'' @ [nl])] = Cout (''0000'' @ [nl])"
    by simp
  have db: "srv_db ?s = sample_enrolled []" by simp
  have other: "\<forall>ev \<in> set ?evs. \<not> asks_status 0 ''0000'' ev" by (simp add: asks_status_def)
  have gate: "g_db sample_trip = srv_db (server_run mem_platform sample_hmac list_rng disk_calls sample_key (-1) (-1) ?evs ?s)"
    "g_clock sample_trip \<in> {90000..MAX_DATE}" "not_denied (g_cache sample_trip) (units ''0000'') (g_clock sample_trip)"
    by (simp_all add: sample_trip_def MAX_DATE_def not_denied_def)
  have up: "mem_up (g_db sample_trip)" unfolding gate(1) by (rule sample_revoke_other)
  have window: "(ucast (1800000030 :: u32) :: u64) div 90 \<in> {?now div 90 - 1, ?now div 90, ?now div 90 + 1}"
    by (simp add: sample_trip_def daemon_now_def)
  have life: "0 < sessionTtlSeconds (env_config sample_env)" by simp
  note trip = enrolled_device_signs_in [OF mem.sqlite_available_axioms csprng_list_rng same_hmac_sample run args header
      outs db other gate(1) up refl gate(2) window gate(3) life,
      of "\<lparr>tokenTtlSeconds = 60, maxTokensPerDevice = 1\<rparr>" 5000]
  then obtain key code c where code: "otp_now sample_mbed key time_t_64 1800000030 = Inr code"
    and opens: "\<forall>rq tok. right_form sample_env (g_web sample_trip) rq ''0000'' (format_code code) (unat (c :: u64)) \<and>
      tok \<noteq> '''' \<and> length tok \<le> 128 \<longrightarrow> signs_in_and_passes sample_gate_step sample_trip rq ''0000'' tok"
    by blast
  obtain code' where "otp_now sample_mbed key time_t_64 1800000030 = Inr code'"
    "format_code code' = code_string sample_hmac (c_str key) (time_t_64 1800000030 div 90)"
    by (rule otp_now_eq [OF same_hmac_sample])
  with code have "length (format_code code) = 8" "all_digits (format_code code)"
    using code_string_wellformed [OF hmac_digest_32_sample] by (simp_all add: all_digits_iff)
  from trip_form [OF this] opens show ?thesis by (intro exI [of _ "format_code code"]) simp
qed

end
